(* ===== verification/Prelude.thy ===== *)
theory Prelude
  imports Main "HOL-Library.Word" "HOL-Library.Monad_Syntax"
begin

unbundle bit_operations_syntax

text \<open>
  The vocabulary the component theories share: machine types named as the C++ names them, byte
  order in memory (an integer as the bytes of its little-endian representation on the x86 host),
  the \<open>assert\<close> of a debug build as an operation of the option monad, and lemmas on lists and words
  that several components use.
\<close>

section \<open>Named collections\<close>

text \<open>
  \<open>mem_eval\<close> unfolds memory images of a literal width, \<open>wp_simps\<close> collects the equations that evaluate checked operations on arguments that satisfy
  their assertions; \<open>abs_simps\<close> the equations from a concrete operation to its abstract meaning.
\<close>

named_theorems wp_simps "a checked operation whose assertions hold"
named_theorems mem_eval "evaluation of integers in memory at a literal width"
named_theorems abs_simps "the abstract meaning of a concrete operation"

section \<open>Machine types\<close>

type_synonym byte = "8 word"
type_synonym u16 = "16 word"
type_synonym u32 = "32 word"
type_synonym u64 = "64 word"

text \<open>
  \<open>char\<close> is signed on the host: the conversion of a \<open>char\<close> to a wider integer type extends the
  sign, the conversion of an \<open>unsigned char\<close> (or \<open>uint8_t\<close>) extends with zeros.
\<close>

abbreviation (input) char_to :: "byte \<Rightarrow> 'a::len word" where
  "char_to c \<equiv> scast c"

abbreviation (input) uchar_to :: "byte \<Rightarrow> 'a::len word" where
  "uchar_to c \<equiv> ucast c"

text \<open>The bytes of a string literal.\<close>

definition ascii :: "string \<Rightarrow> byte list" where
  "ascii s = map of_char s"

lemma length_ascii [simp]: "length (ascii s) = length s"
  by (simp add: ascii_def)

section \<open>Assertions\<close>

text \<open>
  The programs are built without \<open>NDEBUG\<close>, so a failed \<open>assert\<close> aborts the process. A checked
  operation returns \<open>None\<close> when one of its assertions fails.
\<close>

definition assert_that :: "bool \<Rightarrow> unit option" where
  "assert_that b = (if b then Some () else None)"

lemma assert_that_simps [simp]:
  "assert_that True = Some ()"
  "assert_that False = None"
  by (simp_all add: assert_that_def)

lemma assert_that_Some [simp]: "(assert_that b = Some u) \<longleftrightarrow> b"
  by (simp add: assert_that_def)

lemma assert_that_bind [simp]:
  "(Option.bind (assert_that b) f = Some r) \<longleftrightarrow> b \<and> f () = Some r"
  by (simp add: assert_that_def)

lemma bind_assert_None [simp]:
  "(Option.bind (assert_that b) f = None) \<longleftrightarrow> (b \<longrightarrow> f () = None)"
  by (simp add: assert_that_def)

section \<open>Integers in memory\<close>

text \<open>
  \<open>le_bytes k w\<close> is the memory image of the \<open>k\<close>-byte integer \<open>w\<close>, lowest address first, and
  \<open>le_word\<close> reads one back.
\<close>

primrec le_bytes :: "nat \<Rightarrow> 'a::len word \<Rightarrow> byte list" where
  "le_bytes 0 w = []"
| "le_bytes (Suc k) w = ucast w # le_bytes k (drop_bit 8 w)"

primrec le_word :: "byte list \<Rightarrow> 'a::len word" where
  "le_word [] = 0"
| "le_word (b # bs) = ucast b OR push_bit 8 (le_word bs)"

lemma le_bytes_numeral [mem_eval]:
  "le_bytes (numeral n) w = ucast w # le_bytes (pred_numeral n) (drop_bit 8 w)"
  by (simp add: numeral_eq_Suc)

lemma length_le_bytes [simp]: "length (le_bytes k w) = k"
  by (induction k arbitrary: w) auto

lemma le_word_le_bytes: "le_word (le_bytes k (w::'a::len word)) = take_bit (8 * k) w"
proof (induction k arbitrary: w)
  case 0
  show ?case by simp
next
  case (Suc k)
  show ?case
    by (rule bit_word_eqI) (auto simp: Suc bit_simps not_less)
qed

lemma le_bytes_take_bit:
  "8 * k \<le> m \<Longrightarrow> le_bytes k (take_bit m (w::'a::len word)) = le_bytes k w"
proof (induction k arbitrary: w m)
  case (Suc k)
  have "ucast (take_bit m w) = (ucast w :: byte)"
    using Suc.prems by (intro bit_word_eqI) (auto simp: bit_simps)
  with Suc show ?case by (simp add: drop_bit_take_bit)
qed simp

lemma le_bytes_le_word:
  "8 * length bs \<le> LENGTH('a) \<Longrightarrow> le_bytes (length bs) (le_word bs :: 'a::len word) = bs"
proof (induction bs)
  case Nil
  show ?case by simp
next
  case (Cons b bs)
  let ?w = "ucast b OR push_bit 8 (le_word bs) :: 'a word"
  have hd: "ucast ?w = b"
    using Cons.prems by (intro bit_word_eqI) (auto simp: bit_simps)
  have tl: "drop_bit 8 ?w = take_bit (LENGTH('a) - 8) (le_word bs)"
    using Cons.prems by (intro bit_word_eqI) (auto simp: bit_simps dest: bit_imp_le_length)
  have "le_bytes (length (b # bs)) ?w = ucast ?w # le_bytes (length bs) (drop_bit 8 ?w)"
    by simp
  also have "\<dots> = b # bs"
    using Cons by (simp only: hd tl) (simp add: le_bytes_take_bit)
  finally show ?case by simp
qed

lemma le_word_inverse [simp]:
  "LENGTH('a) = 8 * k \<Longrightarrow> le_word (le_bytes k (w::'a::len word)) = w"
  by (simp add: le_word_le_bytes take_bit_word_eq_self)

lemma le_bytes_inverse:
  "length bs = k \<Longrightarrow> 8 * k \<le> LENGTH('a) \<Longrightarrow> le_bytes k (le_word bs :: 'a::len word) = bs"
  using le_bytes_le_word [where 'a = 'a, of bs] by simp

section \<open>Lists\<close>

text \<open>\<open>std::copy\<close> of \<open>src\<close> to index \<open>i\<close> of an array, inside its bounds.\<close>

definition blit :: "nat \<Rightarrow> 'a list \<Rightarrow> 'a list \<Rightarrow> 'a list" where
  "blit i src dst = take i dst @ src @ drop (i + length src) dst"

lemma length_blit [simp]: "i + length src \<le> length dst \<Longrightarrow> length (blit i src dst) = length dst"
  by (simp add: blit_def)

lemma take_blit: "i \<le> length dst \<Longrightarrow> take i (blit i src dst) = take i dst"
  by (simp add: blit_def)

lemma drop_blit: "i \<le> length dst \<Longrightarrow> drop i (blit i src dst) = src @ drop (i + length src) dst"
  by (simp add: blit_def)

text \<open>The window \<open>[l, h)\<close> of an array.\<close>

definition window :: "nat \<Rightarrow> nat \<Rightarrow> 'a list \<Rightarrow> 'a list" where
  "window l h xs = take (h - l) (drop l xs)"

lemma window_alt: "window l h xs = drop l (take h xs)"
  by (simp add: window_def drop_take)

lemma length_window [simp]: "h \<le> length xs \<Longrightarrow> length (window l h xs) = h - l"
  by (simp add: window_def)

lemma window_empty [simp]: "h \<le> l \<Longrightarrow> window l h xs = []"
  by (simp add: window_def)

lemma drop_window: "drop n (window l h xs) = window (l + n) h xs"
  by (simp add: window_def drop_take add.commute)

lemma take_window: "n \<le> h - l \<Longrightarrow> take n (window l h xs) = window l (l + n) xs"
  by (simp add: window_def min_def)

lemma window_append:
  assumes "l \<le> m" "m \<le> h"
  shows "window l m xs @ window m h xs = window l h xs"
proof -
  have "take ((m - l) + (h - m)) (drop l xs)
      = take (m - l) (drop l xs) @ take (h - m) (drop (m - l) (drop l xs))"
    by (rule take_add)
  with assms show ?thesis by (simp add: window_def)
qed

lemma window_blit_same: "i + length src \<le> length dst \<Longrightarrow> window i (i + length src) (blit i src dst) = src"
  by (simp add: window_def blit_def)

lemma window_blit_below:
  "h \<le> i \<Longrightarrow> i \<le> length dst \<Longrightarrow> window l h (blit i src dst) = window l h dst"
  by (simp add: window_alt blit_def min_def)

lemma window_blit_above:
  "i + length src \<le> l \<Longrightarrow> i + length src \<le> length dst
    \<Longrightarrow> window l h (blit i src dst) = window l h dst"
  by (simp add: window_def blit_def)

lemma window_grow: "h \<le> length xs \<Longrightarrow> window l h (xs @ ys) = window l h xs"
  by (cases "l \<le> length xs") (simp_all add: window_def)

text \<open>\<open>std::vector::resize\<close>: cut, or extend with value-initialised elements.\<close>

definition resize :: "nat \<Rightarrow> byte list \<Rightarrow> byte list" where
  "resize n xs = take n xs @ replicate (n - length xs) 0"

lemma length_resize [simp]: "length (resize n xs) = n"
  by (simp add: resize_def)

lemma window_resize: "h \<le> length xs \<Longrightarrow> length xs \<le> n \<Longrightarrow> window l h (resize n xs) = window l h xs"
  by (simp add: resize_def window_grow)

section \<open>Words\<close>

text \<open>Facts the hash functions share: which steps are one-to-one, and what truncation keeps.\<close>

named_theorems word_inj "one-to-one operations on words"

lemma xor_drop_bit_inj [word_inj]:
  assumes "0 < k" "x XOR drop_bit k x = y XOR drop_bit k (y::'a::len word)"
  shows "x = y"
proof (rule bit_word_eqI)
  fix n assume "n < LENGTH('a)"
  show "bit x n \<longleftrightarrow> bit y n"
  proof (induction "LENGTH('a) - n" arbitrary: n rule: less_induct)
    case less
    from assms(2) have "bit (x XOR drop_bit k x) n = bit (y XOR drop_bit k y) n" by simp
    then have eq: "(bit x n \<noteq> bit x (k + n)) = (bit y n \<noteq> bit y (k + n))"
      by (simp add: bit_simps add.commute)
    show ?case
    proof (cases "n < LENGTH('a)")
      case True
      then have "LENGTH('a) - (k + n) < LENGTH('a) - n" using assms(1) by simp
      from less [OF this] eq show ?thesis by blast
    next
      case False
      then show ?thesis by (auto dest: bit_imp_le_length)
    qed
  qed
qed

lemma mult_inj [word_inj]:
  assumes "k * i = 1" "x * k = y * (k::'a::len word)"
  shows "x = y"
proof -
  from assms(2) have "x * k * i = y * k * i" by simp
  then show ?thesis using assms(1) by (simp add: mult.assoc)
qed

lemma xor_right_inj [simp]: "(x XOR z = y XOR z) \<longleftrightarrow> x = (y::'a::len word)"
  by (metis xor.assoc xor_self_eq xor.right_neutral)

lemma xor_left_inj [simp]: "(z XOR x = z XOR y) \<longleftrightarrow> x = (y::'a::len word)"
  by (metis xor.assoc xor_self_eq xor.left_neutral)

lemma push_bit_mult: "push_bit k x = x * 2 ^ k" for x :: "'a::len word"
  by (simp add: push_bit_eq_mult)

lemma ucast_mult: "(ucast (a * b :: u64) :: u32) = ucast a * ucast b"
proof transfer
  fix a b :: int
  have "take_bit 32 (take_bit 64 a * take_bit 64 b)
      = take_bit 32 (take_bit 32 (take_bit 64 a) * take_bit 32 (take_bit 64 b))"
    by (rule take_bit_mult [symmetric])
  also have "\<dots> = take_bit 32 (a * b)" by (simp add: take_bit_mult)
  finally show "take_bit LENGTH(32) (take_bit LENGTH(64) (a * b))
      = take_bit LENGTH(32) (take_bit LENGTH(64) a * take_bit LENGTH(64) b)"
    by simp
qed

lemma ucast_xor: "(ucast (a XOR b :: u64) :: u32) = ucast a XOR ucast b"
  by (rule bit_word_eqI) (auto simp: bit_simps)

lemma ucast_scast: "(ucast (scast (c::byte) :: u64) :: u32) = scast c"
  by (rule bit_word_eqI) (auto simp: bit_simps)

lemma scast_inj [simp]: "(scast (c::byte) :: u32) = scast d \<longleftrightarrow> c = d"
proof
  assume e: "(scast c :: u32) = scast d"
  show "c = d"
  proof (rule bit_word_eqI)
    fix n assume "n < LENGTH(8)"
    with e have "bit (scast c :: u32) n = bit (scast d :: u32) n" by simp
    with \<open>n < LENGTH(8)\<close> show "bit c n = bit d n" by (auto simp: bit_simps)
  qed
qed simp

lemma ucast_byte_inj [simp]: "(ucast (c::byte) :: u32) = ucast d \<longleftrightarrow> c = d"
proof
  assume e: "(ucast c :: u32) = ucast d"
  show "c = d"
  proof (rule bit_word_eqI)
    fix n assume "n < LENGTH(8)"
    with e have "bit (ucast c :: u32) n = bit (ucast d :: u32) n" by simp
    with \<open>n < LENGTH(8)\<close> show "bit c n = bit d n" by (auto simp: bit_simps)
  qed
qed simp

lemma foldl_cong_step:
  assumes "\<And>s c. step (h s) c = h (step' s c)"
  shows "foldl step (h s) cs = h (foldl step' s cs)"
proof (induction cs arbitrary: s)
  case Nil
  show ?case by simp
next
  case (Cons c cs)
  show ?case by (simp only: foldl_Cons assms Cons.IH)
qed

lemma unat_small: "n < 256 \<Longrightarrow> unat (word_of_nat n :: byte) = n"
  by (simp add: unat_of_nat)

end
