(* ===== verification/HashBlock.thy ===== *)
theory HashBlock
  imports Prelude
begin

text \<open>
  The block-at-a-time hash functions of \<open>ProxyServer/HashKit\<close>: \<open>murmur.c\<close>, \<open>hsieh.c\<close> and
  \<open>jenkins.c\<close>. A pointer is the memory from its target on, as a byte list; \<open>p[i]\<close> of a wider type
  is a little-endian load. The \<open>switch\<close> over the bytes that are left falls through from a case to
  the lower ones, which is a condition on the number of bytes.
\<close>

definition load32 :: "byte list \<Rightarrow> nat \<Rightarrow> u32" where
  "load32 k i = le_word (take 4 (drop (4 * i) k))"

definition load16 :: "byte list \<Rightarrow> nat \<Rightarrow> u16" where
  "load16 k i = le_word (take 2 (drop (2 * i) k))"

section \<open>Murmur\<close>

definition murmur_m :: u32 where "murmur_m = 0x5bd1e995"

definition murmur_block :: "u32 \<Rightarrow> u32 \<Rightarrow> u32" where
  "murmur_block h k =
     (let k = k * murmur_m;
          k = k XOR drop_bit 24 k;
          k = k * murmur_m;
          h = h * murmur_m
      in h XOR k)"

fun murmur_loop :: "u32 \<Rightarrow> byte list \<Rightarrow> u32 \<times> byte list" where
  "murmur_loop h data =
     (if 4 \<le> length data then murmur_loop (murmur_block h (load32 data 0)) (drop 4 data)
      else (h, data))"

declare murmur_loop.simps [simp del]

definition murmur_tail :: "u32 \<Rightarrow> byte list \<Rightarrow> u32" where
  "murmur_tail h data =
     (let h = (if 3 \<le> length data then h XOR push_bit 16 (uchar_to (data ! 2)) else h);
          h = (if 2 \<le> length data then h XOR push_bit 8 (uchar_to (data ! 1)) else h)
      in if 1 \<le> length data then (h XOR uchar_to (data ! 0)) * murmur_m else h)"

definition murmur_final :: "u32 \<Rightarrow> u32" where
  "murmur_final h =
     (let h = h XOR drop_bit 13 h;
          h = h * murmur_m
      in h XOR drop_bit 15 h)"

definition hash_murmur :: "byte list \<Rightarrow> u32" where
  "hash_murmur key =
     (let len = word_of_nat (length key);
          seed = 0xdeadbeef * len;
          h = seed XOR len;
          (h, data) = murmur_loop h key
      in murmur_final (murmur_tail h data))"

section \<open>Hsieh\<close>

definition get16bits :: "byte list \<Rightarrow> u32" where
  "get16bits d = push_bit 8 (uchar_to (d ! 1)) + uchar_to (d ! 0)"

definition hsieh_block :: "u32 \<Rightarrow> byte list \<Rightarrow> u32" where
  "hsieh_block hash key =
     (let hash = hash + get16bits key;
          tmp = push_bit 11 (get16bits (drop 2 key)) XOR hash;
          hash = push_bit 16 hash XOR tmp
      in hash + drop_bit 11 hash)"

primrec hsieh_loop :: "nat \<Rightarrow> u32 \<Rightarrow> byte list \<Rightarrow> u32 \<times> byte list" where
  "hsieh_loop 0 hash key = (hash, key)"
| "hsieh_loop (Suc n) hash key = hsieh_loop n (hsieh_block hash key) (drop 4 key)"

definition hsieh_tail :: "nat \<Rightarrow> u32 \<Rightarrow> byte list \<Rightarrow> u32" where
  "hsieh_tail rem hash key =
     (if rem = 3 then
        let hash = hash + get16bits key;
            hash = hash XOR push_bit 16 hash;
            hash = hash XOR push_bit 18 (char_to (key ! 2))
        in hash + drop_bit 11 hash
      else if rem = 2 then
        let hash = hash + get16bits key;
            hash = hash XOR push_bit 11 hash
        in hash + drop_bit 17 hash
      else if rem = 1 then
        let hash = hash + uchar_to (key ! 0);
            hash = hash XOR push_bit 10 hash
        in hash + drop_bit 1 hash
      else hash)"

definition hsieh_final :: "u32 \<Rightarrow> u32" where
  "hsieh_final hash =
     (let hash = hash XOR push_bit 3 hash;
          hash = hash + drop_bit 5 hash;
          hash = hash XOR push_bit 4 hash;
          hash = hash + drop_bit 17 hash;
          hash = hash XOR push_bit 25 hash
      in hash + drop_bit 6 hash)"

text \<open>The key pointer may be null.\<close>

definition hash_hsieh :: "byte list option \<Rightarrow> u32" where
  "hash_hsieh key =
     (case key of
        None \<Rightarrow> 0
      | Some key \<Rightarrow>
          if length key = 0 then 0
          else
            let rem = length key mod 4;
                (hash, rest) = hsieh_loop (length key div 4) 0 key
            in hsieh_final (hsieh_tail rem hash rest))"

section \<open>Jenkins\<close>

definition rot :: "u32 \<Rightarrow> nat \<Rightarrow> u32" where
  "rot x k = push_bit k x OR drop_bit (32 - k) x"

type_synonym abc = "u32 \<times> u32 \<times> u32"

definition mix :: "abc \<Rightarrow> abc" where
  "mix abc =
     (let (a, b, c) = abc;
          a = a - c; a = a XOR rot c 4; c = c + b;
          b = b - a; b = b XOR rot a 6; a = a + c;
          c = c - b; c = c XOR rot b 8; b = b + a;
          a = a - c; a = a XOR rot c 16; c = c + b;
          b = b - a; b = b XOR rot a 19; a = a + c;
          c = c - b; c = c XOR rot b 4; b = b + a
      in (a, b, c))"

definition final :: "abc \<Rightarrow> abc" where
  "final abc =
     (let (a, b, c) = abc;
          c = c XOR b; c = c - rot b 14;
          a = a XOR c; a = a - rot c 11;
          b = b XOR a; b = b - rot a 25;
          c = c XOR b; c = c - rot b 16;
          a = a XOR c; a = a - rot c 4;
          b = b XOR a; b = b - rot a 14;
          c = c XOR b; c = c - rot b 24
      in (a, b, c))"

definition JENKINS_INITVAL :: u32 where "JENKINS_INITVAL = 13"

text \<open>
  The three loops, by alignment of the key. \<open>k\<close> is the memory from the pointer on: the aligned
  loads of the last block read past the end of the key.
\<close>

fun jenkins32_loop :: "abc \<Rightarrow> byte list \<Rightarrow> nat \<Rightarrow> abc \<times> byte list \<times> nat" where
  "jenkins32_loop (a, b, c) k len =
     (if 12 < len
      then jenkins32_loop (mix (a + load32 k 0, b + load32 k 1, c + load32 k 2))
             (drop 12 k) (len - 12)
      else ((a, b, c), k, len))"

definition jenkins32_last :: "abc \<Rightarrow> byte list \<Rightarrow> nat \<Rightarrow> abc option" where
  "jenkins32_last abc k len =
     (let (a, b, c) = abc in
      if len = 12 then Some (a + load32 k 0, b + load32 k 1, c + load32 k 2)
      else if len = 11 then Some (a + load32 k 0, b + load32 k 1, c + (load32 k 2 AND 0xffffff))
      else if len = 10 then Some (a + load32 k 0, b + load32 k 1, c + (load32 k 2 AND 0xffff))
      else if len = 9 then Some (a + load32 k 0, b + load32 k 1, c + (load32 k 2 AND 0xff))
      else if len = 8 then Some (a + load32 k 0, b + load32 k 1, c)
      else if len = 7 then Some (a + load32 k 0, b + (load32 k 1 AND 0xffffff), c)
      else if len = 6 then Some (a + load32 k 0, b + (load32 k 1 AND 0xffff), c)
      else if len = 5 then Some (a + load32 k 0, b + (load32 k 1 AND 0xff), c)
      else if len = 4 then Some (a + load32 k 0, b, c)
      else if len = 3 then Some (a + (load32 k 0 AND 0xffffff), b, c)
      else if len = 2 then Some (a + (load32 k 0 AND 0xffff), b, c)
      else if len = 1 then Some (a + (load32 k 0 AND 0xff), b, c)
      else None)"

definition pair16 :: "byte list \<Rightarrow> nat \<Rightarrow> u32" where
  "pair16 k i = ucast (load16 k i) + push_bit 16 (ucast (load16 k (Suc i)))"

fun jenkins16_loop :: "abc \<Rightarrow> byte list \<Rightarrow> nat \<Rightarrow> abc \<times> byte list \<times> nat" where
  "jenkins16_loop (a, b, c) k len =
     (if 12 < len
      then jenkins16_loop (mix (a + pair16 k 0, b + pair16 k 2, c + pair16 k 4))
             (drop 12 k) (len - 12)
      else ((a, b, c), k, len))"

definition jenkins16_last :: "abc \<Rightarrow> byte list \<Rightarrow> nat \<Rightarrow> abc option" where
  "jenkins16_last abc k8 len =
     (let (a, b, c) = abc;
          k = (\<lambda>i. ucast (load16 k8 i) :: u32);
          k8' = (\<lambda>i. uchar_to (k8 ! i) :: u32)
      in
      if len = 12 then Some (a + pair16 k8 0, b + pair16 k8 2, c + pair16 k8 4)
      else if len = 11 then Some (a + pair16 k8 0, b + pair16 k8 2, c + push_bit 16 (k8' 10) + k 4)
      else if len = 10 then Some (a + pair16 k8 0, b + pair16 k8 2, c + k 4)
      else if len = 9 then Some (a + pair16 k8 0, b + pair16 k8 2, c + k8' 8)
      else if len = 8 then Some (a + pair16 k8 0, b + pair16 k8 2, c)
      else if len = 7 then Some (a + pair16 k8 0, b + push_bit 16 (k8' 6) + k 2, c)
      else if len = 6 then Some (a + pair16 k8 0, b + k 2, c)
      else if len = 5 then Some (a + pair16 k8 0, b + k8' 4, c)
      else if len = 4 then Some (a + pair16 k8 0, b, c)
      else if len = 3 then Some (a + push_bit 16 (k8' 2) + k 0, b, c)
      else if len = 2 then Some (a + k 0, b, c)
      else if len = 1 then Some (a + k8' 0, b, c)
      else None)"

definition bytes4 :: "byte list \<Rightarrow> nat \<Rightarrow> u32 \<Rightarrow> u32" where
  "bytes4 k i x =
     x + uchar_to (k ! i) + push_bit 8 (uchar_to (k ! (i + 1)))
       + push_bit 16 (uchar_to (k ! (i + 2))) + push_bit 24 (uchar_to (k ! (i + 3)))"

fun jenkins8_loop :: "abc \<Rightarrow> byte list \<Rightarrow> nat \<Rightarrow> abc \<times> byte list \<times> nat" where
  "jenkins8_loop (a, b, c) k len =
     (if 12 < len
      then jenkins8_loop (mix (bytes4 k 0 a, bytes4 k 4 b, bytes4 k 8 c)) (drop 12 k) (len - 12)
      else ((a, b, c), k, len))"

definition jenkins8_last :: "abc \<Rightarrow> byte list \<Rightarrow> nat \<Rightarrow> abc option" where
  "jenkins8_last abc k len =
     (let (a, b, c) = abc;
          k = (\<lambda>i. uchar_to (k ! i) :: u32);
          c = (if 12 \<le> len then c + push_bit 24 (k 11) else c);
          c = (if 11 \<le> len then c + push_bit 16 (k 10) else c);
          c = (if 10 \<le> len then c + push_bit 8 (k 9) else c);
          c = (if 9 \<le> len then c + k 8 else c);
          b = (if 8 \<le> len then b + push_bit 24 (k 7) else b);
          b = (if 7 \<le> len then b + push_bit 16 (k 6) else b);
          b = (if 6 \<le> len then b + push_bit 8 (k 5) else b);
          b = (if 5 \<le> len then b + k 4 else b);
          a = (if 4 \<le> len then a + push_bit 24 (k 3) else a);
          a = (if 3 \<le> len then a + push_bit 16 (k 2) else a);
          a = (if 2 \<le> len then a + push_bit 8 (k 1) else a)
      in if 1 \<le> len then Some (a + k 0, b, c) else None)"

declare jenkins32_loop.simps [simp del] jenkins16_loop.simps [simp del] jenkins8_loop.simps [simp del]

text \<open>
  \<open>addr\<close> is the address of the key, \<open>beyond\<close> the memory after it. \<open>None\<close> of a last block is the
  early \<open>return c\<close>.
\<close>

definition hash_jenkins :: "nat \<Rightarrow> byte list \<Rightarrow> byte list \<Rightarrow> u32" where
  "hash_jenkins addr key beyond =
     (let a = 0xdeadbeef + word_of_nat (length key) + JENKINS_INITVAL;
          mem = key @ beyond;
          (abc, last) =
            (if addr mod 4 = 0 then
               let (abc, k, len) = jenkins32_loop (a, a, a) mem (length key)
               in (abc, jenkins32_last abc k len)
             else if addr mod 2 = 0 then
               let (abc, k, len) = jenkins16_loop (a, a, a) mem (length key)
               in (abc, jenkins16_last abc k len)
             else
               let (abc, k, len) = jenkins8_loop (a, a, a) mem (length key)
               in (abc, jenkins8_last abc k len))
      in case last of
           None \<Rightarrow> (case abc of (a, b, c) \<Rightarrow> c)
         | Some abc \<Rightarrow> (case final abc of (a, b, c) \<Rightarrow> c))"

section \<open>Loads\<close>

lemma le_word_append:
  "(le_word (xs @ ys) :: 'a::len word) = le_word xs OR push_bit (8 * length xs) (le_word ys)"
proof (induction xs)
  case (Cons x xs)
  have "push_bit 8 (p OR push_bit k q) = push_bit 8 p OR push_bit (8 + k) q" for p q :: "'a word" and k
    by (simp add: push_bit_or push_bit_push_bit)
  with Cons show ?case by (simp add: or.assoc)
qed simp

lemma bit_le_word: "bit (le_word bs :: 'a::len word) n \<longrightarrow> n < 8 * length bs"
proof (induction bs arbitrary: n)
  case (Cons b bs)
  show ?case using Cons [of "n - 8"]
    by (auto simp: bit_simps dest: bit_imp_le_length)
qed simp

lemma le_word_low:
  "length xs = k \<Longrightarrow> (le_word (xs @ ys) :: 'a::len word) AND mask (8 * k) = le_word xs"
  by (rule bit_word_eqI) (auto simp: le_word_append bit_simps dest: bit_le_word [rule_format])

lemma le_word_add:
  "(le_word (xs @ ys) :: 'a::len word) = le_word xs + push_bit (8 * length xs) (le_word ys)"
proof -
  have "le_word xs AND push_bit (8 * length xs) (le_word ys) = (0 :: 'a word)"
    by (rule bit_word_eqI) (auto simp: bit_simps dest: bit_le_word [rule_format])
  then show ?thesis by (simp add: le_word_append disjunctive_add_eq_or)
qed

lemma le_word_sums:
  "(le_word [p] :: 'a::len word) = ucast p"
  "(le_word [p, q] :: 'a::len word) = ucast p + push_bit 8 (ucast q)"
  "(le_word [p, q, r] :: 'a::len word) = ucast p + push_bit 8 (ucast q) + push_bit 16 (ucast r)"
  "(le_word [p, q, r, s] :: 'a::len word)
     = ucast p + push_bit 8 (ucast q) + push_bit 16 (ucast r) + push_bit 24 (ucast s)"
  using le_word_add [of "[p]" "[q]", where 'a = 'a] le_word_add [of "[p, q]" "[r]", where 'a = 'a]
    le_word_add [of "[p, q, r]" "[s]", where 'a = 'a]
  by (simp_all del: le_word.simps(2) add: le_word.simps(2) [where bs = "[]"])

lemma bit_le_word_any:
  "n < LENGTH('a) \<Longrightarrow> n < LENGTH('b) \<Longrightarrow>
    bit (le_word k :: 'a::len word) n = bit (le_word k :: 'b::len word) n"
  by (induction k arbitrary: n) (auto simp: bit_simps)

lemma ucast_le_word16: "length k \<le> 2 \<Longrightarrow> (ucast (le_word k :: u16) :: u32) = le_word k"
proof (rule bit_word_eqI)
  fix n
  assume "length k \<le> 2"
  then show "bit (ucast (le_word k :: u16) :: u32) n = bit (le_word k :: u32) n"
    using bit_le_word_any [where 'a = 16 and 'b = 32 and k = k and n = n]
      bit_le_word [of k n, where 'a = 32] by (cases "n < 16") (auto simp: bit_simps dest: bit_imp_le_length)
qed

section \<open>Jenkins at any alignment\<close>

text \<open>The reference: up to twelve bytes at a time, four to each word, a short last word padded with zeros.\<close>

definition chunk :: "nat \<Rightarrow> byte list \<Rightarrow> u32" where
  "chunk i k = le_word (take 4 (drop i k))"

fun absorb :: "abc \<Rightarrow> byte list \<Rightarrow> abc" where
  "absorb (a, b, c) k = (a + chunk 0 k, b + chunk 4 k, c + chunk 8 k)"

fun jenkins_ref :: "abc \<Rightarrow> byte list \<Rightarrow> abc \<times> byte list" where
  "jenkins_ref s k = (if 12 < length k then jenkins_ref (mix (absorb s k)) (drop 12 k) else (s, k))"

declare jenkins_ref.simps [simp del]

definition jenkins_spec :: "byte list \<Rightarrow> u32" where
  "jenkins_spec key =
     (let a = 0xdeadbeef + word_of_nat (length key) + 13;
          (s, last) = jenkins_ref (a, a, a) key
      in snd (snd (if last = [] then s else final (absorb s last))))"

lemma take_4_nth:
  "i + 4 \<le> length k \<Longrightarrow> take 4 (drop i k) = [k ! i, k ! (i + 1), k ! (i + 2), k ! (i + 3)]"
  by (rule nth_equalityI) (auto simp: less_Suc_eq numeral_eq_Suc)

lemma rest_nth:
  "length k = i + 1 \<Longrightarrow> take 4 (drop i k) = [k ! i]"
  "length k = i + 2 \<Longrightarrow> take 4 (drop i k) = [k ! i, k ! (i + 1)]"
  "length k = i + 3 \<Longrightarrow> take 4 (drop i k) = [k ! i, k ! (i + 1), k ! (i + 2)]"
  by (rule nth_equalityI; auto simp: less_Suc_eq numeral_eq_Suc)+

text \<open>The chunk by the number of bytes there are.\<close>

lemma chunk_bytes:
  "length k \<le> i \<Longrightarrow> chunk i k = 0"
  "length k = i + 1 \<Longrightarrow> chunk i k = ucast (k ! i)"
  "length k = i + 2 \<Longrightarrow> chunk i k = ucast (k ! i) + push_bit 8 (ucast (k ! (i + 1)))"
  "length k = i + 3 \<Longrightarrow> chunk i k = ucast (k ! i) + push_bit 8 (ucast (k ! (i + 1)))
     + push_bit 16 (ucast (k ! (i + 2)))"
  "i + 4 \<le> length k \<Longrightarrow> chunk i k = ucast (k ! i) + push_bit 8 (ucast (k ! (i + 1)))
     + push_bit 16 (ucast (k ! (i + 2))) + push_bit 24 (ucast (k ! (i + 3)))"
  by (simp_all only: chunk_def take_4_nth rest_nth le_word_sums) simp

lemma load32_eq: "4 * i + 4 \<le> length k \<Longrightarrow> load32 (k @ beyond) i = chunk (4 * i) k"
  by (simp add: load32_def chunk_def)

lemma load32_mask:
  assumes "length k = 4 * i + n" "n \<le> 4"
  shows "load32 (k @ beyond) i AND mask (8 * n) = chunk (4 * i) k"
proof -
  have "length (drop (4 * i) k) = n" using assms by simp
  from le_word_low [OF this, of "take (4 - n) beyond", where 'a = 32] assms show ?thesis
    by (simp add: load32_def chunk_def)
qed

lemma load32_masks:
  "length k = 4 * i + 1 \<Longrightarrow> load32 (k @ beyond) i AND 0xff = chunk (4 * i) k"
  "length k = 4 * i + 2 \<Longrightarrow> load32 (k @ beyond) i AND 0xffff = chunk (4 * i) k"
  "length k = 4 * i + 3 \<Longrightarrow> load32 (k @ beyond) i AND 0xffffff = chunk (4 * i) k"
  using load32_mask [of k i 1 beyond] load32_mask [of k i 2 beyond] load32_mask [of k i 3 beyond]
  by (simp_all add: mask_numeral)

lemma load16_eq:
  assumes "2 * i + 2 \<le> length k"
  shows "(ucast (load16 (k @ beyond) i) :: u32) = ucast (k ! (2 * i)) + push_bit 8 (ucast (k ! (2 * i + 1)))"
proof -
  have t: "take 2 (drop (2 * i) (k @ beyond)) = [k ! (2 * i), k ! (2 * i + 1)]"
    using assms by (intro nth_equalityI) (auto simp: less_Suc_eq numeral_eq_Suc nth_append)
  show ?thesis
    unfolding load16_def t by (subst ucast_le_word16) (simp_all only: le_word_sums, simp_all)
qed

lemma pair16_eq: "2 * i + 4 \<le> length k \<Longrightarrow> pair16 (k @ beyond) i = chunk (2 * i) k"
  by (simp add: pair16_def load16_eq chunk_bytes push_bit_add push_bit_push_bit numeral_3_eq_3)

lemma bytes4_eq: "i + 4 \<le> length k \<Longrightarrow> bytes4 (k @ beyond) i x = x + chunk i k"
  by (simp add: bytes4_def chunk_bytes nth_append)

lemma loops:
  "jenkins32_loop s (key @ beyond) (length key) = (let (s', r) = jenkins_ref s key in (s', r @ beyond, length r))
   \<and> jenkins16_loop s (key @ beyond) (length key) = (let (s', r) = jenkins_ref s key in (s', r @ beyond, length r))
   \<and> jenkins8_loop s (key @ beyond) (length key) = (let (s', r) = jenkins_ref s key in (s', r @ beyond, length r))"
proof (induction s key rule: jenkins_ref.induct)
  case (1 s k)
  obtain a b c where s: "s = (a, b, c)" by (cases s)
  note unf = jenkins32_loop.simps [of a b c "k @ beyond"] jenkins16_loop.simps [of a b c "k @ beyond"]
    jenkins8_loop.simps [of a b c "k @ beyond"] jenkins_ref.simps [of "(a, b, c)" k]
  show ?case
  proof (cases "12 < length k")
    case True
    with "1.IH" [OF True] show ?thesis
      by (simp add: unf s load32_eq pair16_eq bytes4_eq)
  next
    case False
    then show ?thesis by (simp add: unf s)
  qed
qed

lemma jenkins_ref_rest: "length (snd (jenkins_ref s k)) \<le> 12"
proof (induction s k rule: jenkins_ref.induct)
  case (1 s k)
  then show ?case by (simp add: jenkins_ref.simps [of s k])
qed

lemma upto12: "0 < n \<Longrightarrow> n \<le> 12 \<Longrightarrow> n \<in> {1, 2, 3, 4, 5, 6, 7, 8, 9, 10, 11, 12 :: nat}"
  unfolding insert_iff empty_iff by presburger

lemma last_cases:
  assumes "length k \<le> 12" "k \<noteq> []"
  shows "jenkins32_last (a, b, c) (k @ beyond) (length k) = Some (absorb (a, b, c) k)"
    and "jenkins16_last (a, b, c) (k @ beyond) (length k) = Some (absorb (a, b, c) k)"
    and "jenkins8_last (a, b, c) (k @ beyond) (length k) = Some (absorb (a, b, c) k)"
proof -
  from assms have n: "length k \<in> {1, 2, 3, 4, 5, 6, 7, 8, 9, 10, 11, 12}"
    by (intro upto12) simp_all
  from n show "jenkins32_last (a, b, c) (k @ beyond) (length k) = Some (absorb (a, b, c) k)"
    by (elim insertE emptyE) (simp_all add: jenkins32_last_def load32_eq load32_masks chunk_bytes(1) assms(2))
  from n show "jenkins16_last (a, b, c) (k @ beyond) (length k) = Some (absorb (a, b, c) k)"
    by (elim insertE emptyE) (simp_all add: jenkins16_last_def pair16_eq load16_eq nth_append chunk_bytes flip: numeral_2_eq_2)
  from n show "jenkins8_last (a, b, c) (k @ beyond) (length k) = Some (absorb (a, b, c) k)"
    by (elim insertE emptyE) (simp_all add: jenkins8_last_def nth_append chunk_bytes flip: numeral_2_eq_2)
qed

lemma last_empty:
  "jenkins32_last s k 0 = None" "jenkins16_last s k 0 = None" "jenkins8_last s k 0 = None"
  by (cases s, simp add: jenkins32_last_def jenkins16_last_def jenkins8_last_def Let_def)+

section \<open>Murmur mixes every byte\<close>

lemma le_word_inj:
  assumes "length xs = length ys" "8 * length xs \<le> LENGTH('a)"
    "(le_word xs :: 'a::len word) = le_word ys"
  shows "xs = ys"
proof -
  have "le_bytes (length xs) (le_word xs :: 'a word) = xs"
    using assms(2) by (rule le_bytes_le_word)
  moreover have "le_bytes (length ys) (le_word ys :: 'a word) = ys"
    using assms(1,2) by (intro le_bytes_le_word) simp
  ultimately show ?thesis using assms by metis
qed

lemma murmur_m_odd: "murmur_m * 3852147133 = 1"
  by (simp add: murmur_m_def)

lemma murmur_block_state: "murmur_block h k = murmur_block g k \<Longrightarrow> h = g"
  by (auto simp: murmur_block_def Let_def dest: mult_inj [OF murmur_m_odd])

lemma murmur_block_word: "murmur_block h k = murmur_block h l \<Longrightarrow> k = l"
  unfolding murmur_block_def Let_def xor_left_inj
  by (drule mult_inj [OF murmur_m_odd], drule xor_drop_bit_inj [rotated], simp,
      drule mult_inj [OF murmur_m_odd])

lemma murmur_final_inj: "murmur_final h = murmur_final g \<Longrightarrow> h = g"
  unfolding murmur_final_def Let_def
  by (drule xor_drop_bit_inj [rotated], simp, drule mult_inj [OF murmur_m_odd],
      drule xor_drop_bit_inj [rotated], simp)

lemma murmur_tail_eq:
  assumes "length data < 4"
  shows "murmur_tail h data = (if data = [] then h else (h XOR le_word data) * murmur_m)"
proof (cases "data = []")
  case True
  then show ?thesis by (simp add: murmur_tail_def)
next
  case False
  then have "0 < length data" by simp
  with assms have "length data = 1 \<or> length data = 2 \<or> length data = 3" by linarith
  then obtain p q r where "data = [p] \<or> data = [p, q] \<or> data = [p, q, r]"
    by (auto simp: numeral_eq_Suc length_Suc_conv)
  then show ?thesis
    by (elim disjE) (simp_all add: murmur_tail_def Let_def xor.assoc push_bit_or push_bit_push_bit,
      (rule arg_cong [where f = "\<lambda>x. x * murmur_m"], rule bit_word_eqI,
       auto simp: bit_simps dest: bit_imp_le_length)+)
qed

text \<open>What is computed from the state on.\<close>

definition murmur_rest :: "u32 \<Rightarrow> byte list \<Rightarrow> u32" where
  "murmur_rest h data = (let (h, data) = murmur_loop h data in murmur_final (murmur_tail h data))"

lemma murmur_rest_eq:
  "murmur_rest h data =
    (if 4 \<le> length data then murmur_rest (murmur_block h (load32 data 0)) (drop 4 data)
     else murmur_final (murmur_tail h data))"
  by (simp add: murmur_rest_def murmur_loop.simps [of h data])

lemma murmur_rest_state: "murmur_rest h data = murmur_rest g data \<Longrightarrow> h = g"
proof (induction "length data" arbitrary: h g data rule: less_induct)
  case less
  show ?case
  proof (cases "4 \<le> length data")
    case True
    have "murmur_block h (load32 data 0) = murmur_block g (load32 data 0)"
      by (rule less.hyps [of "drop 4 data"]) (use True less.prems in
        \<open>simp_all add: murmur_rest_eq [of h data] murmur_rest_eq [of g data]\<close>)
    then show ?thesis by (rule murmur_block_state)
  next
    case False
    with less.prems have "murmur_tail h data = murmur_tail g data"
      by (simp add: murmur_rest_eq [of h data] murmur_rest_eq [of g data] murmur_final_inj)
    with False show ?thesis
      by (auto simp: murmur_tail_eq split: if_splits dest: mult_inj [OF murmur_m_odd])
  qed
qed

lemma murmur_rest_byte:
  "murmur_rest h (xs @ c # ys) = murmur_rest h (xs @ d # ys) \<Longrightarrow> c = d"
proof (induction "length xs" arbitrary: h xs rule: less_induct)
  case less
  let ?c = "xs @ c # ys" and ?d = "xs @ d # ys"
  note unf = murmur_rest_eq [of h ?c] murmur_rest_eq [of h ?d]
  consider (block) "4 \<le> length xs" | (edge) "length xs < 4" "4 \<le> length ?c" | (tail) "length ?c < 4"
    by linarith
  then show ?case
  proof cases
    case block
    show ?thesis
      by (rule less.hyps [of "drop 4 xs" "murmur_block h (load32 xs 0)"])
        (use block less.prems in \<open>simp_all add: unf load32_def\<close>)
  next
    case edge
    then have "drop 4 ?c = drop 4 ?d" "length (take 4 ?c) = 4" by (simp_all add: drop_Cons')
    with less.prems edge have "murmur_block h (load32 ?c 0) = murmur_block h (load32 ?d 0)"
      using murmur_rest_state by (simp add: unf)
    then have "load32 ?c 0 = load32 ?d 0" by (rule murmur_block_word)
    then have "take 4 ?c = take 4 ?d"
      unfolding load32_def using edge by (intro le_word_inj [where 'a = 32]) simp_all
    with edge(1) show ?thesis by (auto simp: take_Cons' split: if_splits)
  next
    case tail
    with less.prems have "murmur_tail h ?c = murmur_tail h ?d"
      by (simp add: unf murmur_final_inj)
    with tail have "(le_word ?c :: u32) = le_word ?d"
      by (auto simp: murmur_tail_eq dest!: mult_inj [OF murmur_m_odd])
    then have "?c = ?d" using tail by (intro le_word_inj [where 'a = 32]) simp_all
    then show ?thesis by simp
  qed
qed

section \<open>Properties\<close>

text \<open>C34: The value of \<open>hash_jenkins\<close> depends on the bytes of the key only: the three loops, chosen by
  the alignment of the key's address, and the aligned loads that read past its end, all compute
  the hash that absorbs twelve bytes at a time.\<close>
theorem jenkins_any_alignment:
  "hash_jenkins addr key beyond = jenkins_spec key"
proof -
  let ?a = "0xdeadbeef + word_of_nat (length key) + 13 :: u32"
  obtain a b c r where ref: "jenkins_ref (?a, ?a, ?a) key = ((a, b, c), r)"
    by (metis prod.exhaust)
  then have "length r \<le> 12" using jenkins_ref_rest [of "(?a, ?a, ?a)" key] by simp
  with ref loops [of "(?a, ?a, ?a)" key beyond] last_cases [of r a b c beyond] show ?thesis
    by (cases "r = []")
      (simp_all add: hash_jenkins_def jenkins_spec_def Let_def JENKINS_INITVAL_def last_empty
        split_def del: absorb.simps)
qed

text \<open>Two keys that agree everywhere but in one byte have different \<open>hash_murmur\<close> values, whether the
  byte falls in a four-byte block or in the last bytes.\<close>
theorem murmur_one_byte:
  "hash_murmur (xs @ c # ys) = hash_murmur (xs @ d # ys) \<longleftrightarrow> c = d"
  using murmur_rest_byte [of _ xs c ys d]
  by (auto simp: hash_murmur_def Let_def murmur_rest_def)

end
