(* ===== verification/Md5.thy ===== *)
theory Md5
  imports Prelude
begin

text \<open>
  The MD5 of \<open>ProxyServer/HashKit/md5.c\<close>: \<open>MD5_Init\<close>, \<open>MD5_Update\<close>, \<open>MD5_Final\<close> and the hash
  \<open>hash_md5\<close>. The macro \<open>STEP\<close> updates one of the four registers it names; the body of the
  compression loop is the list of its 64 uses, in the order of the source. An operation is
  \<open>None\<close> where the source reads outside of the data it was given.
\<close>

section \<open>The compression function\<close>

definition F :: "u32 \<Rightarrow> u32 \<Rightarrow> u32 \<Rightarrow> u32" where
  "F x y z = z XOR (x AND (y XOR z))"

definition G :: "u32 \<Rightarrow> u32 \<Rightarrow> u32 \<Rightarrow> u32" where
  "G x y z = y XOR (z AND (x XOR y))"

definition H :: "u32 \<Rightarrow> u32 \<Rightarrow> u32 \<Rightarrow> u32" where
  "H x y z = x XOR y XOR z"

definition I :: "u32 \<Rightarrow> u32 \<Rightarrow> u32 \<Rightarrow> u32" where
  "I x y z = y XOR (x OR NOT z)"

record regs =
  reg_a :: u32
  reg_b :: u32
  reg_c :: u32
  reg_d :: u32

definition rol :: "nat \<Rightarrow> u32 \<Rightarrow> u32" where
  "rol s x = push_bit s x OR drop_bit (32 - s) (x AND 0xffffffff)"

text \<open>The value a \<open>STEP\<close> leaves in its first register.\<close>

definition step_value :: "(u32 \<Rightarrow> u32 \<Rightarrow> u32 \<Rightarrow> u32) \<Rightarrow> u32 \<Rightarrow> u32 \<Rightarrow> u32 \<Rightarrow> u32 \<Rightarrow> u32 \<Rightarrow> u32 \<Rightarrow> nat \<Rightarrow> u32" where
  "step_value f a b c d x t s =
     (let a = a + (f b c d + x + t);
          a = rol s a
      in a + b)"

datatype reg = Ra | Rb | Rc | Rd

datatype round_fn = FnF | FnG | FnH | FnI

datatype step_use = STEP round_fn reg reg reg reg nat u32 nat

primrec get :: "reg \<Rightarrow> regs \<Rightarrow> u32" where
  "get Ra r = reg_a r"
| "get Rb r = reg_b r"
| "get Rc r = reg_c r"
| "get Rd r = reg_d r"

primrec put :: "reg \<Rightarrow> u32 \<Rightarrow> regs \<Rightarrow> regs" where
  "put Ra v r = r\<lparr>reg_a := v\<rparr>"
| "put Rb v r = r\<lparr>reg_b := v\<rparr>"
| "put Rc v r = r\<lparr>reg_c := v\<rparr>"
| "put Rd v r = r\<lparr>reg_d := v\<rparr>"

primrec fn :: "round_fn \<Rightarrow> u32 \<Rightarrow> u32 \<Rightarrow> u32 \<Rightarrow> u32" where
  "fn FnF = F"
| "fn FnG = G"
| "fn FnH = H"
| "fn FnI = I"

definition SET :: "byte list \<Rightarrow> nat \<Rightarrow> u32" where
  "SET ptr n = le_word (take 4 (drop (n * 4) ptr))"

primrec exec :: "byte list \<Rightarrow> step_use \<Rightarrow> regs \<Rightarrow> regs" where
  "exec ptr (STEP f a b c d n t s) r =
     put a (step_value (fn f) (get a r) (get b r) (get c r) (get d r) (SET ptr n) t s) r"

definition rounds :: "step_use list" where
  "rounds =
    [
      STEP FnF Ra Rb Rc Rd 0 0xd76aa478 7,
      STEP FnF Rd Ra Rb Rc 1 0xe8c7b756 12,
      STEP FnF Rc Rd Ra Rb 2 0x242070db 17,
      STEP FnF Rb Rc Rd Ra 3 0xc1bdceee 22,
      STEP FnF Ra Rb Rc Rd 4 0xf57c0faf 7,
      STEP FnF Rd Ra Rb Rc 5 0x4787c62a 12,
      STEP FnF Rc Rd Ra Rb 6 0xa8304613 17,
      STEP FnF Rb Rc Rd Ra 7 0xfd469501 22,
      STEP FnF Ra Rb Rc Rd 8 0x698098d8 7,
      STEP FnF Rd Ra Rb Rc 9 0x8b44f7af 12,
      STEP FnF Rc Rd Ra Rb 10 0xffff5bb1 17,
      STEP FnF Rb Rc Rd Ra 11 0x895cd7be 22,
      STEP FnF Ra Rb Rc Rd 12 0x6b901122 7,
      STEP FnF Rd Ra Rb Rc 13 0xfd987193 12,
      STEP FnF Rc Rd Ra Rb 14 0xa679438e 17,
      STEP FnF Rb Rc Rd Ra 15 0x49b40821 22,
      STEP FnG Ra Rb Rc Rd 1 0xf61e2562 5,
      STEP FnG Rd Ra Rb Rc 6 0xc040b340 9,
      STEP FnG Rc Rd Ra Rb 11 0x265e5a51 14,
      STEP FnG Rb Rc Rd Ra 0 0xe9b6c7aa 20,
      STEP FnG Ra Rb Rc Rd 5 0xd62f105d 5,
      STEP FnG Rd Ra Rb Rc 10 0x02441453 9,
      STEP FnG Rc Rd Ra Rb 15 0xd8a1e681 14,
      STEP FnG Rb Rc Rd Ra 4 0xe7d3fbc8 20,
      STEP FnG Ra Rb Rc Rd 9 0x21e1cde6 5,
      STEP FnG Rd Ra Rb Rc 14 0xc33707d6 9,
      STEP FnG Rc Rd Ra Rb 3 0xf4d50d87 14,
      STEP FnG Rb Rc Rd Ra 8 0x455a14ed 20,
      STEP FnG Ra Rb Rc Rd 13 0xa9e3e905 5,
      STEP FnG Rd Ra Rb Rc 2 0xfcefa3f8 9,
      STEP FnG Rc Rd Ra Rb 7 0x676f02d9 14,
      STEP FnG Rb Rc Rd Ra 12 0x8d2a4c8a 20,
      STEP FnH Ra Rb Rc Rd 5 0xfffa3942 4,
      STEP FnH Rd Ra Rb Rc 8 0x8771f681 11,
      STEP FnH Rc Rd Ra Rb 11 0x6d9d6122 16,
      STEP FnH Rb Rc Rd Ra 14 0xfde5380c 23,
      STEP FnH Ra Rb Rc Rd 1 0xa4beea44 4,
      STEP FnH Rd Ra Rb Rc 4 0x4bdecfa9 11,
      STEP FnH Rc Rd Ra Rb 7 0xf6bb4b60 16,
      STEP FnH Rb Rc Rd Ra 10 0xbebfbc70 23,
      STEP FnH Ra Rb Rc Rd 13 0x289b7ec6 4,
      STEP FnH Rd Ra Rb Rc 0 0xeaa127fa 11,
      STEP FnH Rc Rd Ra Rb 3 0xd4ef3085 16,
      STEP FnH Rb Rc Rd Ra 6 0x04881d05 23,
      STEP FnH Ra Rb Rc Rd 9 0xd9d4d039 4,
      STEP FnH Rd Ra Rb Rc 12 0xe6db99e5 11,
      STEP FnH Rc Rd Ra Rb 15 0x1fa27cf8 16,
      STEP FnH Rb Rc Rd Ra 2 0xc4ac5665 23,
      STEP FnI Ra Rb Rc Rd 0 0xf4292244 6,
      STEP FnI Rd Ra Rb Rc 7 0x432aff97 10,
      STEP FnI Rc Rd Ra Rb 14 0xab9423a7 15,
      STEP FnI Rb Rc Rd Ra 5 0xfc93a039 21,
      STEP FnI Ra Rb Rc Rd 12 0x655b59c3 6,
      STEP FnI Rd Ra Rb Rc 3 0x8f0ccc92 10,
      STEP FnI Rc Rd Ra Rb 10 0xffeff47d 15,
      STEP FnI Rb Rc Rd Ra 1 0x85845dd1 21,
      STEP FnI Ra Rb Rc Rd 8 0x6fa87e4f 6,
      STEP FnI Rd Ra Rb Rc 15 0xfe2ce6e0 10,
      STEP FnI Rc Rd Ra Rb 6 0xa3014314 15,
      STEP FnI Rb Rc Rd Ra 13 0x4e0811a1 21,
      STEP FnI Ra Rb Rc Rd 4 0xf7537e82 6,
      STEP FnI Rd Ra Rb Rc 11 0xbd3af235 10,
      STEP FnI Rc Rd Ra Rb 2 0x2ad7d2bb 15,
      STEP FnI Rb Rc Rd Ra 9 0xeb86d391 21]"

definition body_block :: "byte list \<Rightarrow> regs \<Rightarrow> regs" where
  "body_block ptr r =
     (let saved = r;
          r = fold (exec ptr) rounds r
      in \<lparr>reg_a = reg_a r + reg_a saved, reg_b = reg_b r + reg_b saved,
          reg_c = reg_c r + reg_c saved, reg_d = reg_d r + reg_d saved\<rparr>)"

text \<open>
  The loop runs once before \<open>size -= 64\<close> is tested, so a size that is not a positive multiple of
  64 makes it run past the data: the model returns \<open>None\<close> there. The result holds the registers
  and what is left of the data.
\<close>

function body_loop :: "regs \<Rightarrow> byte list \<Rightarrow> nat \<Rightarrow> (regs \<times> byte list) option" where
  "body_loop r ptr sz =
     (if sz < 64 then None
      else let r = body_block ptr r;
               ptr = drop 64 ptr
           in if sz - 64 = 0 then Some (r, ptr) else body_loop r ptr (sz - 64))"
  by auto
termination by (relation "measure (\<lambda>(r, ptr, sz). sz)") auto

declare body_loop.simps [simp del]

section \<open>The context\<close>

record MD5_CTX =
  lo :: u32
  hi :: u32
  abcd :: regs
  buffer :: "byte list"

definition body :: "MD5_CTX \<Rightarrow> byte list \<Rightarrow> nat \<Rightarrow> (MD5_CTX \<times> byte list) option" where
  "body ctx data sz = do {
     (r, ptr) \<leftarrow> body_loop (abcd ctx) data sz;
     Some (ctx\<lparr>abcd := r\<rparr>, ptr)
   }"

definition MD5_Init :: "MD5_CTX \<Rightarrow> MD5_CTX" where
  "MD5_Init ctx = ctx\<lparr>abcd := \<lparr>reg_a = 0x67452301, reg_b = 0xefcdab89,
                              reg_c = 0x98badcfe, reg_d = 0x10325476\<rparr>, lo := 0, hi := 0\<rparr>"

text \<open>\<open>unsigned long\<close> is 64 bits wide; \<open>saved_lo + size\<close> and \<open>size >> 29\<close> are computed at that width.\<close>

definition count :: "nat \<Rightarrow> MD5_CTX \<Rightarrow> MD5_CTX" where
  "count sz ctx =
     (let saved_lo = lo ctx;
          sz = word_of_nat sz :: u64;
          new_lo = ucast ((ucast saved_lo + sz) AND 0x1fffffff);
          ctx = ctx\<lparr>lo := new_lo\<rparr>;
          ctx = (if new_lo < saved_lo then ctx\<lparr>hi := hi ctx + 1\<rparr> else ctx)
      in ctx\<lparr>hi := hi ctx + ucast (drop_bit 29 sz)\<rparr>)"

definition MD5_Update :: "MD5_CTX \<Rightarrow> byte list \<Rightarrow> MD5_CTX option" where
  "MD5_Update ctx data =
     (let sz = length data;
          used = unat (lo ctx AND 0x3f);
          ctx = count sz ctx
      in if used \<noteq> 0 \<and> sz < 64 - used then
           Some (ctx\<lparr>buffer := blit used data (buffer ctx)\<rparr>)
         else do {
           (ctx, data) \<leftarrow>
             (if used \<noteq> 0 then
                let free = 64 - used;
                    ctx = ctx\<lparr>buffer := blit used (take free data) (buffer ctx)\<rparr>
                in do {
                  (ctx, ptr) \<leftarrow> body ctx (buffer ctx) 64;
                  Some (ctx, drop free data)
                }
              else Some (ctx, data));
           (ctx, data) \<leftarrow>
             (if 64 \<le> length data then body ctx data (64 * (length data div 64))
              else Some (ctx, data));
           Some (ctx\<lparr>buffer := blit 0 data (buffer ctx)\<rparr>)
         })"

definition MD5_Final :: "MD5_CTX \<Rightarrow> (byte list \<times> MD5_CTX) option" where
  "MD5_Final ctx =
     (let used = unat (lo ctx AND 0x3f);
          ctx = ctx\<lparr>buffer := (buffer ctx)[used := 0x80]\<rparr>;
          used = used + 1;
          free = 64 - used
      in do {
        (ctx, used, free) \<leftarrow>
          (if free < 8 then do {
             let ctx = ctx\<lparr>buffer := blit used (replicate free 0) (buffer ctx)\<rparr>;
             (ctx, ptr) \<leftarrow> body ctx (buffer ctx) 64;
             Some (ctx, 0, 64)
           } else Some (ctx, used, free));
        let ctx = ctx\<lparr>buffer := blit used (replicate (free - 8) 0) (buffer ctx)\<rparr>;
        let ctx = ctx\<lparr>lo := push_bit 3 (lo ctx)\<rparr>;
        let ctx = ctx\<lparr>buffer := blit 56 (le_bytes 4 (lo ctx)) (buffer ctx)\<rparr>;
        let ctx = ctx\<lparr>buffer := blit 60 (le_bytes 4 (hi ctx)) (buffer ctx)\<rparr>;
        (ctx, ptr) \<leftarrow> body ctx (buffer ctx) 64;
        let r = abcd ctx;
        Some (le_bytes 4 (reg_a r) @ le_bytes 4 (reg_b r) @ le_bytes 4 (reg_c r) @ le_bytes 4 (reg_d r),
              \<lparr>lo = 0, hi = 0, abcd = \<lparr>reg_a = 0, reg_b = 0, reg_c = 0, reg_d = 0\<rparr>, buffer = replicate 64 0\<rparr>)
      })"

text \<open>\<open>ctx\<close> is the uninitialised local variable.\<close>

definition md5_signature :: "MD5_CTX \<Rightarrow> byte list \<Rightarrow> byte list option" where
  "md5_signature my_md5 key = do {
     let my_md5 = MD5_Init my_md5;
     my_md5 \<leftarrow> MD5_Update my_md5 key;
     (result, my_md5) \<leftarrow> MD5_Final my_md5;
     Some result
   }"

definition hash_md5 :: "MD5_CTX \<Rightarrow> byte list \<Rightarrow> u32 option" where
  "hash_md5 my_md5 key = do {
     results \<leftarrow> md5_signature my_md5 key;
     Some (push_bit 24 (ucast (results ! 3 AND 0xFF)) OR push_bit 16 (ucast (results ! 2 AND 0xFF))
       OR push_bit 8 (ucast (results ! 1 AND 0xFF)) OR ucast (results ! 0 AND 0xFF))
   }"

section \<open>The reference of RFC 1321\<close>

definition rfc_F :: "u32 \<Rightarrow> u32 \<Rightarrow> u32 \<Rightarrow> u32" where
  "rfc_F x y z = (x AND y) OR (NOT x AND z)"

definition rfc_G :: "u32 \<Rightarrow> u32 \<Rightarrow> u32 \<Rightarrow> u32" where
  "rfc_G x y z = (x AND z) OR (y AND NOT z)"

definition rfc_T :: "u32 list" where
  "rfc_T =
    [0xd76aa478, 0xe8c7b756, 0x242070db, 0xc1bdceee, 0xf57c0faf, 0x4787c62a, 0xa8304613, 0xfd469501,
     0x698098d8, 0x8b44f7af, 0xffff5bb1, 0x895cd7be, 0x6b901122, 0xfd987193, 0xa679438e, 0x49b40821,
     0xf61e2562, 0xc040b340, 0x265e5a51, 0xe9b6c7aa, 0xd62f105d, 0x02441453, 0xd8a1e681, 0xe7d3fbc8,
     0x21e1cde6, 0xc33707d6, 0xf4d50d87, 0x455a14ed, 0xa9e3e905, 0xfcefa3f8, 0x676f02d9, 0x8d2a4c8a,
     0xfffa3942, 0x8771f681, 0x6d9d6122, 0xfde5380c, 0xa4beea44, 0x4bdecfa9, 0xf6bb4b60, 0xbebfbc70,
     0x289b7ec6, 0xeaa127fa, 0xd4ef3085, 0x04881d05, 0xd9d4d039, 0xe6db99e5, 0x1fa27cf8, 0xc4ac5665,
     0xf4292244, 0x432aff97, 0xab9423a7, 0xfc93a039, 0x655b59c3, 0x8f0ccc92, 0xffeff47d, 0x85845dd1,
     0x6fa87e4f, 0xfe2ce6e0, 0xa3014314, 0x4e0811a1, 0xf7537e82, 0xbd3af235, 0x2ad7d2bb, 0xeb86d391]"

text \<open>Operation \<open>i\<close> of the 64: its function, its message word and its shift.\<close>

definition rfc_fn :: "nat \<Rightarrow> u32 \<Rightarrow> u32 \<Rightarrow> u32 \<Rightarrow> u32" where
  "rfc_fn i = [rfc_F, rfc_G, H, I] ! (i div 16)"

definition rfc_k :: "nat \<Rightarrow> nat" where
  "rfc_k i = [i, 5 * i + 1, 3 * i + 5, 7 * i] ! (i div 16) mod 16"

definition rfc_s :: "nat \<Rightarrow> nat" where
  "rfc_s i = [[7, 12, 17, 22], [5, 9, 14, 20], [4, 11, 16, 23], [6, 10, 15, 21]] ! (i div 16) ! (i mod 4)"

text \<open>The registers rotate their roles: the tuple always holds the next one to write first.\<close>

fun rfc_step :: "byte list \<Rightarrow> nat \<Rightarrow> u32 \<times> u32 \<times> u32 \<times> u32 \<Rightarrow> u32 \<times> u32 \<times> u32 \<times> u32" where
  "rfc_step x i (a, b, c, d) =
     (d, b + word_rotl (rfc_s i) (a + rfc_fn i b c d + SET x (rfc_k i) + rfc_T ! i), b, c)"

lemma F_rfc: "F = rfc_F" "G = rfc_G"
  by (intro ext bit_word_eqI; auto simp: F_def G_def rfc_F_def rfc_G_def bit_simps)+

lemma rol_rotl: "s < 32 \<Longrightarrow> rol s x = word_rotl s x"
proof (rule bit_word_eqI)
  fix n
  assume s: "s < 32" and n: "n < LENGTH(32)"
  have "x AND 0xffffffff = x AND (- 1)" by (rule arg_cong [where f = "\<lambda>m. x AND m"]) simp
  then have m: "x AND 0xffffffff = x" by simp
  show "bit (rol s x) n = bit (word_rotl s x) n"
  proof (cases "s \<le> n")
    case True
    then have "(n + (32 - s)) mod 32 = n - s" using s n by (simp add: mod_if)
    with True s n show ?thesis
      by (auto simp: rol_def m bit_simps dest: bit_imp_le_length)
  next
    case False
    then have "(n + (32 - s)) mod 32 = n + 32 - s" using s n by simp
    with False s n show ?thesis
      by (auto simp: rol_def m bit_simps add.commute [of 32 n])
  qed
qed

definition role :: "nat \<Rightarrow> nat \<Rightarrow> reg" where
  "role i j = [Ra, Rb, Rc, Rd] ! ((j + 4 - i mod 4) mod 4)"

definition rfc_use :: "nat \<Rightarrow> step_use" where
  "rfc_use i = STEP ([FnF, FnG, FnH, FnI] ! (i div 16)) (role i 0) (role i 1) (role i 2) (role i 3)
     (rfc_k i) (rfc_T ! i) (rfc_s i)"

lemma upt_64: "[0..<64] = 0 # 1 # [2..<64]"
  by (simp add: upt_conv_Cons)

lemma rounds_eq: "rounds = map rfc_use [0..<64]"
  by (simp add: upt_64 upt_rec_numeral rounds_def rfc_use_def rfc_k_def rfc_T_def rfc_s_def role_def)

definition roles :: "nat \<Rightarrow> regs \<Rightarrow> u32 \<times> u32 \<times> u32 \<times> u32" where
  "roles i r = (get (role i 0) r, get (role i 1) r, get (role i 2) r, get (role i 3) r)"

lemma below_4: "n < 4 \<Longrightarrow> n = 0 \<or> n = 1 \<or> n = 2 \<or> n = (3::nat)"
  by presburger

lemma quarter: "i < 64 \<Longrightarrow> i div 16 = 0 \<or> i div 16 = 1 \<or> i div 16 = 2 \<or> i div 16 = (3::nat)"
  by (rule below_4) (simp add: less_mult_imp_div_less)

lemma rfc_s_less: "i < 64 \<Longrightarrow> rfc_s i < 32"
  using below_4 [of "i mod 4"] by (auto dest!: quarter simp: rfc_s_def)

lemma fn_rfc: "i < 64 \<Longrightarrow> fn ([FnF, FnG, FnH, FnI] ! (i div 16)) = rfc_fn i"
  by (drule quarter, elim disjE) (simp_all add: rfc_fn_def F_rfc)

lemma step_value_rfc:
  "s < 32 \<Longrightarrow> step_value f a b c d x t s = b + word_rotl s (a + f b c d + x + t)"
  by (simp add: step_value_def rol_rotl algebra_simps)

lemma exec_rfc:
  assumes "i < 64"
  shows "roles (Suc i) (exec ptr (rfc_use i) r) = rfc_step ptr i (roles i r)"
proof -
  consider "i mod 4 = 0" | "i mod 4 = 1" | "i mod 4 = 2" | "i mod 4 = 3" by linarith
  then show ?thesis
    by cases (simp_all add: roles_def role_def rfc_use_def fn_rfc rfc_s_less step_value_rfc assms mod_Suc)
qed

lemma fold_rfc:
  "n \<le> 64 \<Longrightarrow> roles n (fold (exec ptr) (map rfc_use [0..<n]) r) = fold (rfc_step ptr) [0..<n] (roles 0 r)"
  by (induction n) (simp_all add: exec_rfc)

definition rfc_block :: "byte list \<Rightarrow> u32 \<times> u32 \<times> u32 \<times> u32 \<Rightarrow> u32 \<times> u32 \<times> u32 \<times> u32" where
  "rfc_block x s = (case (s, fold (rfc_step x) [0..<64] s) of
     ((a, b, c, d), (a', b', c', d')) \<Rightarrow> (a + a', b + b', c + c', d + d'))"

definition regs_of :: "regs \<Rightarrow> u32 \<times> u32 \<times> u32 \<times> u32" where
  "regs_of r = (reg_a r, reg_b r, reg_c r, reg_d r)"

lemma roles_0: "roles 0 = regs_of" "roles 64 = regs_of"
  by (simp_all add: fun_eq_iff roles_def role_def regs_of_def)

lemma body_block_rfc: "regs_of (body_block ptr r) = rfc_block ptr (regs_of r)"
proof -
  have "regs_of (fold (exec ptr) rounds r) = fold (rfc_step ptr) [0..<64] (regs_of r)"
    using fold_rfc [of 64 ptr r] by (simp only: rounds_eq roles_0 order_refl simp_thms)
  from this [symmetric] show ?thesis
    by (simp add: body_block_def rfc_block_def regs_of_def Let_def add.commute)
qed

lemma SET_append: "n < 16 \<Longrightarrow> 64 \<le> length x \<Longrightarrow> SET (x @ y) n = SET x n"
  by (simp add: SET_def)

lemma rounds_words: "list_all (\<lambda>st. case st of STEP f a b c d n t s \<Rightarrow> n < 16) rounds"
  by (simp add: rounds_def)

lemma exec_append:
  "(case st of STEP f a b c d n t s \<Rightarrow> n < 16) \<Longrightarrow> 64 \<le> length x \<Longrightarrow> exec (x @ y) st r = exec x st r"
  by (cases st) (simp add: SET_append)

lemma body_block_append:
  assumes "64 \<le> length x"
  shows "body_block (x @ y) r = body_block x r"
proof -
  have "fold (exec (x @ y)) rounds r = fold (exec x) rounds r"
    using rounds_words assms
    by (intro fold_cong refl ext exec_append) (auto simp: list_all_iff)
  then show ?thesis by (simp add: body_block_def)
qed

section \<open>Blocks\<close>

text \<open>The registers after the complete blocks of a message, and the bytes after them.\<close>

fun absorb_blocks :: "regs \<Rightarrow> byte list \<Rightarrow> regs" where
  "absorb_blocks r m = (if length m < 64 then r else absorb_blocks (body_block m r) (drop 64 m))"

declare absorb_blocks.simps [simp del]

definition rest :: "byte list \<Rightarrow> byte list" where
  "rest m = drop (64 * (length m div 64)) m"

lemma absorb_short [simp]: "length m < 64 \<Longrightarrow> absorb_blocks r m = r"
  by (simp add: absorb_blocks.simps)

lemma absorb_block: "length b = 64 \<Longrightarrow> absorb_blocks r (b @ m) = absorb_blocks (body_block b r) m"
  by (simp add: absorb_blocks.simps [of r "b @ m"] body_block_append)

lemma absorb_append: "length m1 = 64 * k \<Longrightarrow> absorb_blocks r (m1 @ m2) = absorb_blocks (absorb_blocks r m1) m2"
proof (induction k arbitrary: r m1)
  case 0
  then show ?case by simp
next
  case (Suc k)
  then have l: "length (take 64 m1) = 64" "length (drop 64 m1) = 64 * k" by simp_all
  from absorb_block [OF l(1)] Suc.IH [OF l(2)] absorb_block [OF l(1), of r "drop 64 m1"] show ?case
    by (metis append.assoc append_take_drop_id)
qed

lemma rest_length [simp]: "length (rest m) = length m mod 64"
  by (simp add: rest_def minus_mult_div_eq_mod)

lemma absorb_rest: "absorb_blocks r (m @ data) = absorb_blocks (absorb_blocks r m) (rest m @ data)"
proof -
  let ?k = "length m div 64"
  have l: "length (take (64 * ?k) m) = 64 * ?k" by simp
  have "absorb_blocks r m = absorb_blocks (absorb_blocks r (take (64 * ?k) m)) (rest m)"
    using absorb_append [OF l, of r "rest m"] by (simp add: rest_def)
  then have "absorb_blocks r m = absorb_blocks r (take (64 * ?k) m)" by simp
  moreover have "take (64 * ?k) m @ rest m @ data = m @ data"
    by (simp add: rest_def flip: append_assoc)
  ultimately show ?thesis
    using absorb_append [OF l, of r "rest m @ data"] by (simp only:)
qed

lemma rest_append: "length m1 = 64 * k \<Longrightarrow> rest (m1 @ m2) = rest m2"
  by (simp add: rest_def)

lemma rest_rest: "rest (m @ data) = rest (rest m @ data)"
proof -
  have l: "length (take (64 * (length m div 64)) m) = 64 * (length m div 64)" by simp
  show ?thesis using rest_append [OF l, of "rest m @ data"] by (simp add: rest_def)
qed

lemma rest_short: "length m < 64 \<Longrightarrow> rest m = m"
  by (simp add: rest_def)

lemma body_loop_ok:
  "64 * Suc k \<le> length ptr \<Longrightarrow> body_loop r ptr (64 * Suc k)
    = Some (absorb_blocks r (take (64 * Suc k) ptr), drop (64 * Suc k) ptr)"
proof (induction k arbitrary: r ptr)
  case 0
  then have l: "length (take 64 ptr) = 64" by simp
  from absorb_block [OF l, of r "[]"] body_block_append [of "take 64 ptr" "drop 64 ptr" r] l show ?case
    by (simp add: body_loop.simps)
next
  case (Suc k)
  then have l: "length (take 64 ptr) = 64" by simp
  have "body_block ptr r = body_block (take 64 ptr) r"
    using body_block_append [of "take 64 ptr" "drop 64 ptr" r] l by simp
  then have "absorb_blocks r (take (64 * Suc (Suc k)) ptr)
      = absorb_blocks (body_block ptr r) (take (64 * Suc k) (drop 64 ptr))"
    using absorb_block [OF l, of r "take (64 * Suc k) (drop 64 ptr)"]
      take_add [of 64 "64 * Suc k" ptr] by (simp only: mult_Suc_right [of 64 "Suc k"])
  with Suc.IH [of "drop 64 ptr" "body_block ptr r"] Suc.prems show ?case
    by (simp add: body_loop.simps [of r ptr] add.commute)
qed


section \<open>The context holds the message\<close>

definition init_regs :: regs where
  "init_regs = \<lparr>reg_a = 0x67452301, reg_b = 0xefcdab89, reg_c = 0x98badcfe, reg_d = 0x10325476\<rparr>"

text \<open>\<open>lo\<close> counts the bytes modulo \<open>2^29\<close>, \<open>hi\<close> the multiples of \<open>2^29\<close>.\<close>

definition counts :: "MD5_CTX \<Rightarrow> nat \<Rightarrow> bool" where
  "counts ctx n \<longleftrightarrow> lo ctx = word_of_nat (take_bit 29 n) \<and> hi ctx = word_of_nat (drop_bit 29 n)"

definition holds :: "MD5_CTX \<Rightarrow> byte list \<Rightarrow> bool" where
  "holds ctx m \<longleftrightarrow> length (buffer ctx) = 64 \<and> counts ctx (length m)
     \<and> abcd ctx = absorb_blocks init_regs m
     \<and> take (length m mod 64) (buffer ctx) = rest m"

lemma carry_sum:
  fixes a b :: nat
  shows "drop_bit k (a + b) = drop_bit k a + drop_bit k b
    + (if take_bit k (take_bit k a + b) < take_bit k a then 1 else 0)"
proof -
  let ?c = "2 ^ k :: nat"
  have lt: "a mod ?c < ?c" "b mod ?c < ?c" by simp_all
  have d: "(a + b) div ?c = a div ?c + b div ?c + (a mod ?c + b mod ?c) div ?c"
    by (rule div_add1_eq)
  have m: "(a mod ?c + b) mod ?c = (a mod ?c + b mod ?c) mod ?c" by (simp add: mod_add_right_eq)
  show ?thesis
  proof (cases "a mod ?c + b mod ?c < ?c")
    case True
    then show ?thesis by (simp add: d m drop_bit_eq_div take_bit_eq_mod)
  next
    case False
    with lt have one: "(a mod ?c + b mod ?c) div ?c = 1"
      using add_strict_mono [OF lt] by (intro div_nat_eqI) auto
    then have "(a mod ?c + b mod ?c) mod ?c = a mod ?c + b mod ?c - ?c"
      using div_mult_mod_eq [of "a mod ?c + b mod ?c" ?c] by simp
    moreover have "a mod ?c + b mod ?c - ?c < a mod ?c" using False lt by linarith
    ultimately show ?thesis using one by (simp add: d m drop_bit_eq_div take_bit_eq_mod)
  qed
qed

lemma hi_part: "(ucast (drop_bit 29 (word_of_nat n :: u64)) :: u32) = word_of_nat (drop_bit 29 n)"
  by (rule bit_word_eqI) (auto simp: bit_simps)

lemma new_lo: "(ucast ((ucast (word_of_nat (take_bit 29 a) :: u32) + (word_of_nat n :: u64)) AND 0x1fffffff) :: u32)
    = word_of_nat (take_bit 29 (take_bit 29 a + n))"
proof -
  have "(ucast (word_of_nat (take_bit 29 a) :: u32) :: u64) = word_of_nat (take_bit 29 a)"
    by (rule bit_word_eqI) (auto simp: bit_simps)
  moreover have "x AND 0x1fffffff = take_bit 29 x" for x :: u64
    by (simp add: take_bit_eq_mask mask_numeral)
  ultimately show ?thesis
    by (intro bit_word_eqI) (auto simp: bit_simps simp flip: of_nat_add)
qed

lemma unat_lo: "unat (word_of_nat (take_bit 29 n) :: u32) = take_bit 29 n"
  by (simp add: unsigned_of_nat)

lemma count_ok:
  assumes "counts ctx n"
  shows "counts (count sz ctx) (n + sz)"
proof -
  have less: "(word_of_nat (take_bit 29 (take_bit 29 n + sz)) :: u32) < word_of_nat (take_bit 29 n)
      \<longleftrightarrow> take_bit 29 (take_bit 29 n + sz) < take_bit 29 n"
    by (simp only: word_less_nat_alt unat_lo)
  have sum: "take_bit 29 (take_bit 29 n + sz) = take_bit 29 (n + sz)"
    by (simp add: take_bit_eq_mod mod_add_left_eq)
  have "lo (count sz ctx) = word_of_nat (take_bit 29 (n + sz))"
    using assms by (simp add: counts_def count_def Let_def new_lo sum)
  moreover have "hi (count sz ctx) = word_of_nat (drop_bit 29 n)
      + (if take_bit 29 (take_bit 29 n + sz) < take_bit 29 n then 1 else 0) + word_of_nat (drop_bit 29 sz)"
    using assms by (simp add: counts_def count_def Let_def new_lo less hi_part)
  ultimately show ?thesis by (simp add: counts_def carry_sum [of 29 n sz])
qed

lemma count_frame [simp]: "abcd (count sz ctx) = abcd ctx" "buffer (count sz ctx) = buffer ctx"
  by (simp_all add: count_def Let_def)

lemma used_eq: "counts ctx n \<Longrightarrow> unat (lo ctx AND 0x3f) = n mod 64"
proof -
  assume "counts ctx n"
  then have "lo ctx AND 0x3f = word_of_nat (take_bit 6 (take_bit 29 n))"
    by (intro bit_word_eqI) (auto simp: counts_def bit_simps mask_numeral
        simp flip: take_bit_eq_mask [where n = 6 and 'a = "32 word", unfolded mask_numeral, simplified])
  then show ?thesis by (simp add: unsigned_of_nat) (simp add: take_bit_eq_mod)
qed

section \<open>Update\<close>

lemma body_ok:
  assumes "0 < k" "64 * k \<le> length ptr"
  shows "body ctx ptr (64 * k)
    = Some (ctx\<lparr>abcd := absorb_blocks (abcd ctx) (take (64 * k) ptr)\<rparr>, drop (64 * k) ptr)"
proof -
  from assms(1) obtain j where "k = Suc j" by (cases k) auto
  with body_loop_ok [of j ptr "abcd ctx"] assms show ?thesis by (simp only: body_def) simp
qed

lemma body_one:
  assumes "length ptr = 64"
  shows "body ctx ptr 64 = Some (ctx\<lparr>abcd := body_block ptr (abcd ctx)\<rparr>, [])"
  using body_ok [of 1 ptr ctx] absorb_block [OF assms, of "abcd ctx" "[]"] assms by simp

text \<open>The complete blocks of the data, then the bytes that stay in the buffer.\<close>

lemma update_tail:
  "(if 64 \<le> length data then body ctx data (64 * (length data div 64)) else Some (ctx, data))
    = Some (ctx\<lparr>abcd := absorb_blocks (abcd ctx) data\<rparr>, rest data)"
proof (cases "64 \<le> length data")
  case True
  let ?k = "length data div 64"
  have k: "0 < ?k" "64 * ?k \<le> length data" using True by (auto simp: div_greater_zero_iff)
  have "absorb_blocks (abcd ctx) data = absorb_blocks (abcd ctx) (take (64 * ?k) data)"
    using absorb_append [of "take (64 * ?k) data" ?k "abcd ctx" "rest data"] by (simp add: rest_def)
  with True body_ok [OF k, of ctx] show ?thesis by (simp add: rest_def)
next
  case False
  then show ?thesis by (simp add: rest_short)
qed

lemma take_blit_same: "length d \<le> length xs \<Longrightarrow> take (length d) (blit 0 d xs) = d"
  by (simp add: blit_def)

lemma update_buffered:
  assumes inv: "holds ctx m" and used: "length m mod 64 + length data < 64"
  shows "holds ((count (length data) ctx)\<lparr>buffer := blit (length m mod 64) data (buffer ctx)\<rparr>) (m @ data)"
proof -
  let ?u = "length m mod 64"
  have rest: "rest (m @ data) = rest m @ data"
    using rest_rest [of m data] rest_short [of "rest m @ data"] used by simp
  then have "length (m @ data) mod 64 = ?u + length data"
    using rest_length [of "m @ data"] by simp
  moreover have "take (?u + length data) (blit ?u data (buffer ctx)) = rest m @ data"
    using inv used by (simp add: blit_def holds_def min_def)
  moreover have "absorb_blocks init_regs (m @ data) = absorb_blocks init_regs m"
    using absorb_rest [of init_regs m data] used by simp
  ultimately show ?thesis
    using inv used rest count_ok [of ctx "length m" "length data"]
    by (simp add: holds_def counts_def)
qed

lemma MD5_Update_ok:
  assumes inv: "holds ctx m"
  shows "\<exists>ctx'. MD5_Update ctx data = Some ctx' \<and> holds ctx' (m @ data)"
proof -
  let ?u = "length m mod 64" and ?c = "count (length data) ctx"
  have u: "unat (lo ctx AND 0x3f) = ?u" using inv by (intro used_eq) (simp add: holds_def)
  have buf: "length (buffer ctx) = 64" "take ?u (buffer ctx) = rest m"
    using inv by (simp_all add: holds_def)
  consider (stay) "?u \<noteq> 0" "length data < 64 - ?u" | (fill) "?u \<noteq> 0" "64 - ?u \<le> length data" | (empty) "?u = 0"
    by linarith
  then obtain ctx' where upd: "MD5_Update ctx data = Some ctx'" and
    ok: "holds ctx' (m @ data)"
  proof cases
    case stay
    then have "MD5_Update ctx data = Some (?c\<lparr>buffer := blit ?u data (buffer ctx)\<rparr>)"
      by (simp add: MD5_Update_def u)
    moreover have "holds (?c\<lparr>buffer := blit ?u data (buffer ctx)\<rparr>) (m @ data)"
      using stay by (intro update_buffered [OF inv]) simp
    ultimately show thesis by (rule that)
  next
    case fill
    let ?f = "64 - ?u"
    let ?b = "blit ?u (take ?f data) (buffer ctx)"
    have b: "?b = rest m @ take ?f data" using fill buf by (simp add: blit_def)
    have l: "length (rest m @ take ?f data) = 64" using fill by simp
    let ?r = "absorb_blocks (body_block ?b (abcd ctx)) (drop ?f data)" and ?t = "rest (drop ?f data)"
    let ?x = "?c\<lparr>abcd := ?r, buffer := blit 0 ?t ?b\<rparr>"
    have "MD5_Update ctx data = Some ?x"
      using fill l by (simp add: MD5_Update_def u Let_def b body_one update_tail [where ctx = "_\<lparr>abcd := _\<rparr>"] del: length_append)
    moreover have "?r = absorb_blocks init_regs (m @ data)" "?t = rest (m @ data)"
      using absorb_rest [of init_regs m data] absorb_block [OF l, of "abcd ctx" "drop ?f data"] inv b
        rest_rest [of m data] rest_append [of "rest m @ take ?f data" 1 "drop ?f data"] l
      by (simp_all add: holds_def)
    moreover have "length ?t \<le> length ?b" using b l by simp
    ultimately show thesis
      using inv count_ok [of ctx "length m" "length data"] take_blit_same [of ?t ?b] l b
      by (intro that [of ?x]) (simp_all add: holds_def counts_def del: rest_length, simp)
  next
    case empty
    then have nil: "rest m = []" using rest_length [of m] by (simp only: length_0_conv)
    let ?r = "absorb_blocks (abcd ctx) data" and ?t = "rest data"
    let ?x = "?c\<lparr>abcd := ?r, buffer := blit 0 ?t (buffer ctx)\<rparr>"
    have "MD5_Update ctx data = Some ?x"
      using empty by (simp add: MD5_Update_def u Let_def update_tail)
    moreover have "?r = absorb_blocks init_regs (m @ data)" "?t = rest (m @ data)"
      using absorb_rest [of init_regs m data] rest_rest [of m data] inv nil by (simp_all add: holds_def)
    moreover have "length ?t \<le> length (buffer ctx)" using buf by simp
    ultimately show thesis
      using inv count_ok [of ctx "length m" "length data"] take_blit_same [of ?t "buffer ctx"] buf
      by (intro that [of ?x]) (simp_all add: holds_def counts_def del: rest_length, simp)
  qed
  then show ?thesis by blast
qed

section \<open>Final\<close>

definition digest :: "regs \<Rightarrow> byte list" where
  "digest r = le_bytes 4 (reg_a r) @ le_bytes 4 (reg_b r) @ le_bytes 4 (reg_c r) @ le_bytes 4 (reg_d r)"

text \<open>The padding of RFC 1321: a one bit, zeros up to 56 modulo 64, the length in bits.\<close>

definition md5_pad :: "byte list \<Rightarrow> byte list" where
  "md5_pad m = m @ [0x80] @ replicate ((119 - length m mod 64) mod 64) 0
     @ le_bytes 8 (word_of_nat (8 * length m) :: u64)"

lemma blit_extend:
  "take p xs = a \<Longrightarrow> p + length d \<le> length xs \<Longrightarrow> take (p + length d) (blit p d xs) = a @ d"
  by (auto simp: blit_def)

lemma update_blit: "p < length xs \<Longrightarrow> xs[p := v] = blit p [v] xs"
  by (simp add: blit_def upd_conv_take_nth_drop)

lemma le_bytes_4_8: "le_bytes 8 (w :: u64) = le_bytes 4 (ucast w :: u32) @ le_bytes 4 (ucast (drop_bit 32 w) :: u32)"
proof -
  have b: "ucast (drop_bit k (ucast v :: u32)) = (ucast (drop_bit k v) :: byte)" if "k \<le> 24" for v :: u64 and k
    using that by (intro bit_word_eqI) (auto simp: bit_simps dest: bit_imp_le_length)
  have "ucast (ucast v :: u32) = (ucast v :: byte)" for v :: u64
    using b [of 0 v] by simp
  with b show ?thesis by (simp add: mem_eval)
qed

lemma length_bytes:
  assumes "counts ctx n"
  shows "le_bytes 4 (push_bit 3 (lo ctx)) @ le_bytes 4 (hi ctx) = le_bytes 8 (word_of_nat (8 * n) :: u64)"
proof -
  have e: "word_of_nat (8 * n) = (push_bit 3 (word_of_nat n) :: u64)"
    by (simp add: push_bit_eq_mult)
  have "ucast (push_bit 3 (word_of_nat n :: u64)) = push_bit 3 (lo ctx)"
    using assms by (intro bit_word_eqI) (auto simp: counts_def bit_simps)
  moreover have "ucast (drop_bit 32 (push_bit 3 (word_of_nat n :: u64))) = hi ctx"
    using assms by (intro bit_word_eqI) (auto simp: counts_def bit_simps)
  ultimately show ?thesis by (simp only: le_bytes_4_8 e)
qed

lemma tail_block:
  assumes "take u b = t" "length b = 64" "u \<le> 56" "length l = 4" "length h = 4"
  shows "blit 60 h (blit 56 l (blit u (replicate (56 - u) 0) b)) = t @ replicate (56 - u) 0 @ l @ h"
proof -
  let ?b1 = "blit u (replicate (56 - u) 0) b" and ?b2 = "blit 56 l (blit u (replicate (56 - u) 0) b)"
  have 1: "take 56 ?b1 = t @ replicate (56 - u) 0" "length ?b1 = 64"
    using blit_extend [OF assms(1), of "replicate (56 - u) 0"] assms by simp_all
  have 2: "take 60 ?b2 = t @ replicate (56 - u) 0 @ l" "length ?b2 = 64"
    using blit_extend [OF 1(1), of l] 1(2) assms by simp_all
  show ?thesis
    using blit_extend [OF 2(1), of h] 2(2) assms by simp
qed

lemma MD5_Final_ok:
  assumes inv: "holds ctx m"
  shows "\<exists>ctx'. MD5_Final ctx = Some (digest (absorb_blocks init_regs (md5_pad m)), ctx')"
proof -
  let ?u = "length m mod 64" and ?l = "le_bytes 4 (push_bit 3 (lo ctx))" and ?h = "le_bytes 4 (hi ctx)"
  let ?b = "blit ?u [0x80] (buffer ctx)"
  have cnt: "counts ctx (length m)" using inv by (simp add: holds_def)
  have u: "unat (lo ctx AND 0x3f) = ?u" by (rule used_eq [OF cnt])
  have lt: "?u < 64" by simp
  have buf: "length (buffer ctx) = 64" "take ?u (buffer ctx) = rest m" "abcd ctx = absorb_blocks init_regs m"
    using inv by (simp_all add: holds_def)
  have b: "take (?u + 1) ?b = rest m @ [0x80]" "length ?b = 64"
    using blit_extend [OF buf(2), of "[0x80]"] buf(1) lt by (simp_all only: list.size) simp_all
  have pad: "absorb_blocks init_regs (md5_pad m)
      = absorb_blocks (abcd ctx) (rest m @ [0x80] @ replicate ((119 - ?u) mod 64) 0 @ ?l @ ?h)"
    unfolding md5_pad_def buf(3) length_bytes [OF cnt] by (rule absorb_rest)
  show ?thesis
  proof (cases "64 - (?u + 1) < 8")
    case True
    define z where "z = blit (Suc ?u) (replicate (63 - ?u) 0) ?b"
    define f where "f = blit 60 ?h (blit 56 ?l (blit 0 (replicate 56 0) z))"
    have z: "z = rest m @ [0x80] @ replicate (63 - ?u) 0"
      using blit_extend [OF b(1), of "replicate (63 - ?u) 0"] b(2) lt by (simp add: z_def)
    have zl: "length z = 64" using z lt by simp
    have f: "f = replicate 56 0 @ ?l @ ?h"
      using tail_block [of 0 z "[]" ?l ?h] zl by (simp add: f_def)
    have fl: "length f = 64" by (simp add: f)
    have k: "(119 - ?u) mod 64 = (63 - ?u) + 56" using True lt by (subst mod_less) linarith+
    have "MD5_Final ctx = Some (digest (body_block f (body_block z (abcd ctx))),
        \<lparr>lo = 0, hi = 0, abcd = \<lparr>reg_a = 0, reg_b = 0, reg_c = 0, reg_d = 0\<rparr>, buffer = replicate 64 0\<rparr>)"
      using True buf(1) zl fl
      by (simp add: MD5_Final_def u update_blit body_one Let_def digest_def del: length_blit flip: z_def f_def)
    moreover have "absorb_blocks init_regs (md5_pad m) = body_block f (body_block z (abcd ctx))"
      using absorb_block [OF zl, of "abcd ctx" "f"] absorb_block [OF fl, of "body_block z (abcd ctx)" "[]"]
      unfolding pad z f k replicate_add by simp
    ultimately show ?thesis by simp
  next
    case False
    let ?f = "blit 60 ?h (blit 56 ?l (blit (?u + 1) (replicate (56 - (?u + 1)) 0) ?b))"
    have f: "?f = (rest m @ [0x80]) @ replicate (56 - (?u + 1)) 0 @ ?l @ ?h"
      using tail_block [OF b] False by simp
    have fl: "length ?f = 64" using f False lt by simp
    have "119 - ?u = 56 - (?u + 1) + 64" using False by linarith
    then have k: "(119 - ?u) mod 64 = 56 - (?u + 1)" by (simp only: mod_add_self2) simp
    have "MD5_Final ctx = Some (digest (body_block ?f (abcd ctx)),
        \<lparr>lo = 0, hi = 0, abcd = \<lparr>reg_a = 0, reg_b = 0, reg_c = 0, reg_d = 0\<rparr>, buffer = replicate 64 0\<rparr>)"
      using False lt buf(1) fl
      by (simp add: MD5_Final_def u update_blit body_one Let_def digest_def del: length_blit)
    moreover have "absorb_blocks init_regs (md5_pad m) = body_block ?f (abcd ctx)"
      using absorb_block [OF fl, of "abcd ctx" "[]"]
      unfolding pad f k by simp
    ultimately show ?thesis by simp
  qed
qed

lemma MD5_Init_holds: "length (buffer ctx) = 64 \<Longrightarrow> holds (MD5_Init ctx) []"
  by (simp add: holds_def counts_def MD5_Init_def init_regs_def rest_def)

section \<open>The digest of RFC 1321\<close>

fun rfc_blocks :: "u32 \<times> u32 \<times> u32 \<times> u32 \<Rightarrow> byte list \<Rightarrow> u32 \<times> u32 \<times> u32 \<times> u32" where
  "rfc_blocks s m = (if length m < 64 then s else rfc_blocks (rfc_block m s) (drop 64 m))"

declare rfc_blocks.simps [simp del]

definition rfc_md5 :: "byte list \<Rightarrow> byte list" where
  "rfc_md5 m =
     (case rfc_blocks (0x67452301, 0xefcdab89, 0x98badcfe, 0x10325476) (md5_pad m) of
        (a, b, c, d) \<Rightarrow> le_bytes 4 a @ le_bytes 4 b @ le_bytes 4 c @ le_bytes 4 d)"

lemma absorb_rfc: "regs_of (absorb_blocks r m) = rfc_blocks (regs_of r) m"
proof (induction r m rule: absorb_blocks.induct)
  case (1 r m)
  then show ?case
    by (simp add: absorb_blocks.simps [of r m] rfc_blocks.simps [of _ m] body_block_rfc)
qed

lemma digest_rfc: "digest (absorb_blocks init_regs (md5_pad m)) = rfc_md5 m"
  using absorb_rfc [of init_regs "md5_pad m", symmetric]
  by (simp add: rfc_md5_def digest_def regs_of_def init_regs_def)

text \<open>Updating with the parts of a message one after the other.\<close>

primrec updates :: "byte list list \<Rightarrow> MD5_CTX \<Rightarrow> MD5_CTX option" where
  "updates [] ctx = Some ctx"
| "updates (d # ds) ctx = Option.bind (MD5_Update ctx d) (updates ds)"

lemma updates_ok: "holds ctx m \<Longrightarrow> \<exists>ctx'. updates ds ctx = Some ctx' \<and> holds ctx' (m @ concat ds)"
proof (induction ds arbitrary: ctx m)
  case Nil
  then show ?case by simp
next
  case (Cons d ds)
  from MD5_Update_ok [OF Cons.prems, of d] obtain ctx1 where
    "MD5_Update ctx d = Some ctx1" "holds ctx1 (m @ d)" by blast
  with Cons.IH [of ctx1 "m @ d"] show ?case by simp
qed

section \<open>Properties\<close>

text \<open>C19: Whatever the parts a message is passed in, and whatever the context held before it was
  initialised, \<open>MD5_Final\<close> returns the MD5 digest of RFC 1321 of their concatenation: the buffering
  across calls, the split 61-bit byte count and the optimised round functions are not observable,
  and no block is read outside of its data.\<close>
theorem md5_streaming:
  assumes "length (buffer ctx) = 64"
  shows "map_option fst (Option.bind (updates parts (MD5_Init ctx)) MD5_Final) = Some (rfc_md5 (concat parts))"
proof -
  from updates_ok [OF MD5_Init_holds [OF assms], of parts] obtain ctx' where
    "updates parts (MD5_Init ctx) = Some ctx'" "holds ctx' (concat parts)" by auto
  with MD5_Final_ok [of ctx' "concat parts"] show ?thesis
    by (auto simp: digest_rfc)
qed

definition blank_ctx :: MD5_CTX where
  "blank_ctx = \<lparr>lo = 7, hi = 9, abcd = init_regs, buffer = replicate 64 0xcc\<rparr>"

theorem md5_streaming_witness:
  "map_option fst (Option.bind (updates [[97], [], [98, 99]] (MD5_Init blank_ctx)) MD5_Final)
    = Some (rfc_md5 [97, 98, 99])"
  by (simp only: md5_streaming blank_ctx_def MD5_CTX.select_convs length_replicate)
    (simp add: MD5_CTX.simps)

text \<open>C40: \<open>hash_md5\<close> is the first word of the MD5 digest of the key, the low byte first.\<close>
theorem hash_md5_is_rfc:
  assumes "length (buffer my_md5) = 64"
  shows "hash_md5 my_md5 key = Some (le_word (take 4 (rfc_md5 key)))"
proof -
  obtain ctx1 where 1: "MD5_Update (MD5_Init my_md5) key = Some ctx1" "holds ctx1 key"
    using MD5_Update_ok [OF MD5_Init_holds [OF assms], of key] by auto
  obtain ctx2 where 2: "MD5_Final ctx1 = Some (rfc_md5 key, ctx2)"
    using MD5_Final_ok [OF 1(2)] by (auto simp: digest_rfc)
  obtain p q r s rest where d: "rfc_md5 key = p # q # r # s # rest"
    by (cases "rfc_blocks (0x67452301, 0xefcdab89, 0x98badcfe, 0x10325476) (md5_pad key)")
      (simp add: rfc_md5_def mem_eval)
  have "x AND 0xFF = x AND (- 1)" for x :: byte
    by (rule arg_cong [where f = "\<lambda>m. x AND m"]) simp
  then have "x AND 0xFF = x" for x :: byte by simp
  with 1 2 d show ?thesis
    by (simp add: hash_md5_def md5_signature_def push_bit_or push_bit_push_bit) (simp add: ac_simps)
qed

theorem hash_md5_is_rfc_witness:
  "length (buffer blank_ctx) = 64 \<and> hash_md5 blank_ctx [97] = Some (le_word (take 4 (rfc_md5 [97])))"
  using hash_md5_is_rfc [of blank_ctx "[97]"] by (simp add: blank_ctx_def)

end
