(* ===== verification/Decimal.thy ===== *)
theory Decimal
  imports Prelude
begin

text \<open>
  Decimal numerals as the C library prints them (\<open>%d\<close> of \<open>snprintf\<close>): no leading zeros, and reading them back gives the number.
\<close>

fun digits :: "nat \<Rightarrow> byte list" where
  "digits n = (if n < 10 then [word_of_nat (48 + n)] else digits (n div 10) @ [word_of_nat (48 + n mod 10)])"

declare digits.simps [simp del]

definition number_of :: "byte list \<Rightarrow> nat" where
  "number_of = foldl (\<lambda>n d. 10 * n + (unat d - 48)) 0"

lemma number_of_snoc: "number_of (xs @ [d]) = 10 * number_of xs + (unat d - 48)"
  by (simp add: number_of_def)

lemma number_of_digits: "number_of (digits n) = n"
proof (induction n rule: digits.induct)
  case (1 n)
  show ?case
  proof (cases "n < 10")
    case True
    then show ?thesis by (simp add: digits.simps [of n] number_of_def unat_small del: of_nat_add)
  next
    case False
    then have "digits n = digits (n div 10) @ [word_of_nat (48 + n mod 10)]" by (simp add: digits.simps [of n])
    then show ?thesis using 1 False
      by (simp add: number_of_snoc unat_small trans_less_add2 del: of_nat_add)
  qed
qed

lemma length_digits: "n < 10 ^ k \<Longrightarrow> 0 < k \<Longrightarrow> length (digits n) \<le> k"
proof (induction k arbitrary: n)
  case (Suc k)
  show ?case
  proof (cases "n < 10")
    case True
    then show ?thesis by (simp add: digits.simps [of n])
  next
    case False
    with Suc.prems have "n div 10 < 10 ^ k" "0 < k" by (auto simp: less_mult_imp_div_less mult.commute intro: gr0I)
    with Suc.IH [of "n div 10"] False show ?thesis by (simp add: digits.simps [of n])
  qed
qed simp

lemma digits_at_least: "10 ^ k \<le> n \<Longrightarrow> k < length (digits n)"
proof (induction k arbitrary: n)
  case 0
  then show ?case by (subst digits.simps) simp
next
  case (Suc k)
  then have "10 ^ k \<le> n div 10" by (simp add: less_eq_div_iff_mult_less_eq mult.commute)
  then have "k < length (digits (n div 10))" by (rule Suc.IH)
  moreover have "\<not> n < 10" using Suc.prems by (simp add: not_less order_trans [OF _ Suc.prems])
  ultimately show ?case by (subst digits.simps) simp
qed

lemma digits_not_Nil [simp]: "digits n \<noteq> []"
  by (subst digits.simps) simp

lemma digits_inj: "digits m = digits n \<longleftrightarrow> m = n"
  using number_of_digits by metis

end
