(* ===== verification/StdMap.thy ===== *)
theory StdMap
  imports Prelude
begin

text \<open>
  \<open>std::map\<close>: a list of pairs in ascending order of the keys. \<open>find\<close>, \<open>operator[]\<close> with an
  assignment, \<open>erase\<close> and \<open>begin\<close> are the operations the components use.
\<close>

type_synonym ('k, 'v) std_map = "('k \<times> 'v) list"

definition map_find :: "'k \<Rightarrow> ('k, 'v) std_map \<Rightarrow> 'v option" where
  "map_find k m = map_of m k"

fun map_set :: "'k::linorder \<Rightarrow> 'v \<Rightarrow> ('k, 'v) std_map \<Rightarrow> ('k, 'v) std_map" where
  "map_set k v [] = [(k, v)]"
| "map_set k v ((l, w) # m) =
     (if k < l then (k, v) # (l, w) # m
      else if k = l then (k, v) # m
      else (l, w) # map_set k v m)"

definition map_erase :: "'k \<Rightarrow> ('k, 'v) std_map \<Rightarrow> ('k, 'v) std_map" where
  "map_erase k m = filter (\<lambda>p. fst p \<noteq> k) m"

definition map_begin :: "('k, 'v) std_map \<Rightarrow> ('k \<times> 'v) option" where
  "map_begin m = (case m of [] \<Rightarrow> None | p # ps \<Rightarrow> Some p)"

definition map_ok :: "('k::linorder, 'v) std_map \<Rightarrow> bool" where
  "map_ok m \<longleftrightarrow> sorted_wrt (<) (map fst m)"

section \<open>The contract\<close>

text \<open>
  What the components rely on: a container stands for a map, and each operation for one on maps.
\<close>

locale ordered_map =
  fixes find :: "'k::linorder \<Rightarrow> 'm \<Rightarrow> 'v option"
    and upd :: "'k \<Rightarrow> 'v \<Rightarrow> 'm \<Rightarrow> 'm"
    and erase :: "'k \<Rightarrow> 'm \<Rightarrow> 'm"
    and least :: "'m \<Rightarrow> ('k \<times> 'v) option"
    and ok :: "'m \<Rightarrow> bool"
  assumes find_set: "ok m \<Longrightarrow> find l (upd k v m) = (if l = k then Some v else find l m)"
    and find_erase: "ok m \<Longrightarrow> find l (erase k m) = (if l = k then None else find l m)"
    and ok_set: "ok m \<Longrightarrow> ok (upd k v m)"
    and ok_erase: "ok m \<Longrightarrow> ok (erase k m)"
    and least_Some: "ok m \<Longrightarrow> least m = Some (k, v) \<Longrightarrow> find k m = Some v"
    and least_None: "ok m \<Longrightarrow> least m = None \<Longrightarrow> find l m = None"
begin

text \<open>The map a container stands for.\<close>

definition represents :: "'m \<Rightarrow> ('k \<Rightarrow> 'v option) \<Rightarrow> bool" where
  "represents m f \<longleftrightarrow> ok m \<and> (\<forall>k. find k m = f k)"

lemma represents_find: "represents m f \<Longrightarrow> find k m = f k"
  by (simp add: represents_def)

lemma represents_set: "represents m f \<Longrightarrow> g = f(k \<mapsto> v) \<Longrightarrow> represents (upd k v m) g"
  by (simp add: represents_def find_set ok_set)

lemma represents_erase: "represents m f \<Longrightarrow> g = f(k := None) \<Longrightarrow> represents (erase k m) g"
  by (simp add: represents_def find_erase ok_erase)

lemma represents_least: "represents m f \<Longrightarrow> least m = Some (k, v) \<Longrightarrow> f k = Some v"
  using least_Some by (fastforce simp: represents_def)

lemma represents_none: "represents m f \<Longrightarrow> least m = None \<longleftrightarrow> (\<forall>k. f k = None)"
proof
  assume r: "represents m f" and "\<forall>k. f k = None"
  then show "least m = None" using represents_least [OF r] by (cases "least m") auto
next
  assume "represents m f" "least m = None"
  then show "\<forall>k. f k = None" using least_None [of m] by (auto simp: represents_def)
qed

lemma represents_inj: "represents m f \<Longrightarrow> represents m g \<Longrightarrow> f = g"
  by (auto simp: represents_def)

end

section \<open>The association list is an ordered map\<close>

lemma fst_set_map_set: "fst ` set (map_set k v m) = insert k (fst ` set m)"
  by (induction k v m rule: map_set.induct) auto

lemma sorted_map_set: "sorted_wrt (<) (map fst m) \<Longrightarrow> sorted_wrt (<) (map fst (map_set k v m))"
proof (induction k v m rule: map_set.induct)
  case (2 k v l w m)
  have "set (map fst (map_set k v m)) = insert k (set (map fst m))"
    using fst_set_map_set [of k v m] by simp
  with 2 show ?case by (auto simp: not_less order.strict_iff_order)
qed simp

lemma map_find_set: "sorted_wrt (<) (map fst m) \<Longrightarrow> map_find l (map_set k v m) = (if l = k then Some v else map_find l m)"
  by (induction k v m rule: map_set.induct) (auto simp: map_find_def)

lemma map_find_erase: "map_find l (map_erase k m) = (if l = k then None else map_find l m)"
  by (induction m) (auto simp: map_find_def map_erase_def)

lemma sorted_map_erase: "sorted_wrt (<) (map fst m) \<Longrightarrow> sorted_wrt (<) (map fst (map_erase k m))"
  by (induction m) (auto simp: map_erase_def)

interpretation smap: ordered_map map_find map_set map_erase map_begin map_ok
proof unfold_locales
  fix m :: "('a \<times> 'b) list" and l k v
  assume "map_ok m"
  then show "map_find l (map_set k v m) = (if l = k then Some v else map_find l m)"
    "map_find l (map_erase k m) = (if l = k then None else map_find l m)"
    "map_ok (map_set k v m)" "map_ok (map_erase k m)"
    by (simp_all add: map_ok_def map_find_set map_find_erase sorted_map_set sorted_map_erase)
qed (auto simp: map_begin_def map_find_def split: list.splits)

lemma map_ok_Nil [simp]: "map_ok []"
  by (simp add: map_ok_def)

lemma map_find_Nil [simp]: "map_find k [] = None"
  by (simp add: map_find_def)

text \<open>\<open>begin\<close> is the entry of the least key.\<close>

lemma map_begin_least:
  "map_ok m \<Longrightarrow> map_begin m = Some (k, v) \<Longrightarrow> map_find l m = Some w \<Longrightarrow> k \<le> l"
  by (auto simp: map_ok_def map_begin_def map_find_def split: list.splits if_splits
      dest!: map_of_SomeD intro: less_imp_le)

end
