(* ===== verification/Hiredis.thy ===== *)
theory Hiredis
  imports StdMap
begin

text \<open>
  The redis client of \<open>ProxyServer/DAL/Hiredis.h\<close> and \<open>Hiredis.cc\<close>: several connections to one
  server, each in one of three maps by its id: not connected, free, or busy with a command. A
  \<open>ServerConn*\<close> is an index into the list of the connections that were allocated. Of the hiredis
  library the model keeps what the code reads: the descriptor, the address it was connected to, the
  connected flag, which the library sets before it reports the connection, and the callbacks of the
  commands a context has not answered. What the library does inside a call is an argument or a step
  of its own. \<open>None\<close> is a failed \<open>assert\<close> or the use of a null pointer.
\<close>

section \<open>Unique connection ids\<close>

text \<open>\<open>conId\<close> is widened with its sign.\<close>

definition genUniqueConId :: "u32 \<Rightarrow> u32 \<Rightarrow> u64" where
  "genUniqueConId serverId conId = push_bit 32 (scast serverId) OR scast conId"

section \<open>State\<close>

record channel =
  ch_fd :: int
  ch_reading :: bool
  ch_writing :: bool

text \<open>\<open>muduo::net::InetAddress\<close>, by its text and its port.\<close>

record InetAddress =
  ip :: "byte list"
  port :: u16

record 'cb redisAsyncContext =
  c_fd :: int
  c_peer :: InetAddress
  c_connected :: bool
  c_callbacks :: "'cb list"

record 'cb ServerConn =
  connId :: int
  ctx :: "'cb redisAsyncContext"
  chan :: "channel option"

record 'cb hiredis =
  serverId :: int
  serverAddr :: InetAddress
  context_ptr :: "'cb redisAsyncContext option"
  nconns :: int
  inactiveConns :: "(int, nat) std_map"
  activeFreeConns :: "(int, nat) std_map"
  activeBusyConn :: "(int, nat) std_map"
  scons :: "'cb ServerConn list"
  connectCb :: bool
  disconnectCb :: bool

definition REDIS_OK :: int where "REDIS_OK = 0"

definition REDIS_ERR :: int where "REDIS_ERR = - 1"

definition new_hiredis :: "InetAddress \<Rightarrow> int \<Rightarrow> 'cb hiredis" where
  "new_hiredis addr n = \<lparr>serverId = - 1, serverAddr = addr, context_ptr = None, nconns = n, inactiveConns = [],
     activeFreeConns = [], activeBusyConn = [], scons = [], connectCb = False, disconnectCb = False\<rparr>"

definition setServerId :: "int \<Rightarrow> 'cb hiredis \<Rightarrow> 'cb hiredis" where
  "setServerId sid h = h\<lparr>serverId := sid\<rparr>"

definition setConnectCallback :: "'cb hiredis \<Rightarrow> 'cb hiredis" where
  "setConnectCallback h = h\<lparr>connectCb := True\<rparr>"

definition setDisconnectCallback :: "'cb hiredis \<Rightarrow> 'cb hiredis" where
  "setDisconnectCallback h = h\<lparr>disconnectCb := True\<rparr>"

definition connected :: "'cb hiredis \<Rightarrow> bool" where
  "connected h \<longleftrightarrow> \<not> (activeBusyConn h = [] \<and> activeFreeConns h = [])"

text \<open>A context carries its \<open>ServerConn\<close> as \<open>ev.data\<close>; a null context is \<open>None\<close>.\<close>

definition connected_context :: "nat option \<Rightarrow> 'cb hiredis \<Rightarrow> bool" where
  "connected_context ac h =
     (case ac of
        None \<Rightarrow> False
      | Some p \<Rightarrow> chan (scons h ! p) \<noteq> None \<and> c_connected (ctx (scons h ! p)))"

definition errstr :: "'cb hiredis \<Rightarrow> 'cb redisAsyncContext option" where
  "errstr h = do {
     assert_that (context_ptr h \<noteq> None);
     context_ptr h
   }"

section \<open>Channels\<close>

definition upd_scon :: "nat \<Rightarrow> ('cb ServerConn \<Rightarrow> 'cb ServerConn) \<Rightarrow> 'cb hiredis \<Rightarrow> 'cb hiredis" where
  "upd_scon p f h = h\<lparr>scons := (scons h)[p := f (scons h ! p)]\<rparr>"

definition setChannel :: "nat \<Rightarrow> 'cb hiredis \<Rightarrow> 'cb hiredis option" where
  "setChannel p h = do {
     assert_that (p < length (scons h));
     assert_that (chan (scons h ! p) = None);
     let fd = c_fd (ctx (scons h ! p));
     Some (upd_scon p (\<lambda>s. s\<lparr>chan := Some \<lparr>ch_fd = fd, ch_reading = False, ch_writing = False\<rparr>\<rparr>) h)
   }"

definition removeChannel :: "nat \<Rightarrow> 'cb hiredis \<Rightarrow> 'cb hiredis option" where
  "removeChannel p h = do {
     ch \<leftarrow> chan (scons h ! p);
     Some (upd_scon p (\<lambda>s. s\<lparr>chan := None\<rparr>) h)
   }"

definition on_channel :: "(channel \<Rightarrow> channel) \<Rightarrow> nat \<Rightarrow> 'cb hiredis \<Rightarrow> 'cb hiredis option" where
  "on_channel f p h = do {
     ch \<leftarrow> chan (scons h ! p);
     Some (upd_scon p (\<lambda>s. s\<lparr>chan := Some (f ch)\<rparr>) h)
   }"

definition addRead :: "nat \<Rightarrow> 'cb hiredis \<Rightarrow> 'cb hiredis option" where
  "addRead = on_channel (\<lambda>ch. ch\<lparr>ch_reading := True\<rparr>)"

definition delRead :: "nat \<Rightarrow> 'cb hiredis \<Rightarrow> 'cb hiredis option" where
  "delRead = on_channel (\<lambda>ch. ch\<lparr>ch_reading := False\<rparr>)"

definition addWrite :: "nat \<Rightarrow> 'cb hiredis \<Rightarrow> 'cb hiredis option" where
  "addWrite = on_channel (\<lambda>ch. ch\<lparr>ch_writing := True\<rparr>)"

definition delWrite :: "nat \<Rightarrow> 'cb hiredis \<Rightarrow> 'cb hiredis option" where
  "delWrite = on_channel (\<lambda>ch. ch\<lparr>ch_writing := False\<rparr>)"

text \<open>
  While the context is not connected its channel is dropped, before the library is handed the
  context; \<open>redisAsyncHandleWrite\<close> stands for what the library then does, in callbacks.
\<close>

definition handleWrite :: "(nat \<Rightarrow> 'cb hiredis \<Rightarrow> 'cb hiredis option) \<Rightarrow> nat \<Rightarrow> 'cb hiredis \<Rightarrow> 'cb hiredis option" where
  "handleWrite redisAsyncHandleWrite p h = do {
     h \<leftarrow> (if \<not> c_connected (ctx (scons h ! p)) then removeChannel p h else Some h);
     redisAsyncHandleWrite p h
   }"

section \<open>Connecting\<close>

text \<open>\<open>redisAsyncConnect addr i\<close> is the descriptor of the context the library returns for call \<open>i\<close>.\<close>

definition connect_one :: "(InetAddress \<Rightarrow> int \<Rightarrow> int) \<Rightarrow> int \<Rightarrow> 'cb hiredis \<Rightarrow> 'cb hiredis option" where
  "connect_one redisAsyncConnect i h = do {
     let p = length (scons h);
     let cx = \<lparr>c_fd = redisAsyncConnect (serverAddr h) i, c_peer = serverAddr h, c_connected = False, c_callbacks = []\<rparr>;
     let h = h\<lparr>scons := scons h @ [\<lparr>connId = i, ctx = cx, chan = None\<rparr>]\<rparr>;
     h \<leftarrow> setChannel p h;
     Some (h\<lparr>inactiveConns := map_set i p (inactiveConns h)\<rparr>)
   }"

primrec connect_loop :: "(InetAddress \<Rightarrow> int \<Rightarrow> int) \<Rightarrow> nat \<Rightarrow> int \<Rightarrow> 'cb hiredis \<Rightarrow> 'cb hiredis option" where
  "connect_loop rac 0 i h = Some h"
| "connect_loop rac (Suc n) i h = Option.bind (connect_one rac i h) (connect_loop rac n (i + 1))"

definition connect :: "(InetAddress \<Rightarrow> int \<Rightarrow> int) \<Rightarrow> 'cb hiredis \<Rightarrow> 'cb hiredis option" where
  "connect rac h = do {
     assert_that (context_ptr h = None);
     assert_that (inactiveConns h = []);
     connect_loop rac (nat (nconns h)) 0 h
   }"

text \<open>\<open>redisAsyncDisconnect\<close> dereferences its argument.\<close>

definition disconnect :: "'cb hiredis \<Rightarrow> 'cb hiredis option" where
  "disconnect h = (if connected h then map_option (\<lambda>c. h) (context_ptr h) else Some h)"

section \<open>Callbacks of the library\<close>

text \<open>The calls of the user's connect and disconnect callbacks, when they are set.\<close>

datatype user_call = connectCb_call int | disconnectCb_call int

definition userConnectCallback :: "nat \<Rightarrow> int \<Rightarrow> 'cb hiredis \<Rightarrow> (user_call list \<times> 'cb hiredis) option" where
  "userConnectCallback p status h = do {
     h \<leftarrow> (if status \<noteq> REDIS_OK then Some h
           else do {
             let i = connId (scons h ! p);
             q \<leftarrow> map_find i (inactiveConns h);
             let h = h\<lparr>activeFreeConns := map_set i q (activeFreeConns h),
                       inactiveConns := map_erase i (inactiveConns h)\<rparr>;
             setChannel p h
           });
     Some (if connectCb h then [connectCb_call status] else [], h)
   }"

definition userDisconnectCallback :: "nat \<Rightarrow> int \<Rightarrow> 'cb hiredis \<Rightarrow> (user_call list \<times> 'cb hiredis) option" where
  "userDisconnectCallback p status h = do {
     h \<leftarrow> removeChannel p h;
     let i = connId (scons h ! p);
     q \<leftarrow> map_find i (activeBusyConn h);
     assert_that (map_find i (inactiveConns h) = None);
     let h = h\<lparr>inactiveConns := map_set i q (inactiveConns h),
               activeBusyConn := map_erase i (activeBusyConn h)\<rparr>;
     Some (if disconnectCb h then [disconnectCb_call status] else [], h)
   }"

section \<open>Commands\<close>

text \<open>
  \<open>redisvAsyncCommand\<close> returns its status; when it is \<open>REDIS_OK\<close> the library has queued the callback.
  The result is the status, what \<open>*connId\<close> holds afterwards, and what was handed to the library with
  its connection. \<open>cmd\<close> is a format in the sense of \<open>printf\<close>, which the library expands with the
  arguments that follow it; every caller in the program passes none, so what redis is asked is the
  format itself as long as it has no directive. The model hands over the format.
\<close>

definition command ::
  "(nat \<Rightarrow> byte list \<Rightarrow> int) \<Rightarrow> int \<Rightarrow> 'cb \<Rightarrow> byte list \<Rightarrow> 'cb hiredis
     \<Rightarrow> int \<times> int \<times> (nat \<times> byte list) option \<times> 'cb hiredis" where
  "command redisvAsyncCommand conId cb cmd h =
     (if \<not> connected h then (REDIS_ERR, conId, None, h)
      else case map_begin (activeFreeConns h) of
        Some (i, p) \<Rightarrow>
          let conId = connId (scons h ! p);
              h = h\<lparr>activeFreeConns := map_erase i (activeFreeConns h),
                    activeBusyConn := map_set conId p (activeBusyConn h)\<rparr>;
              ret = redisvAsyncCommand p cmd;
              h = (if ret = REDIS_OK
                   then upd_scon p (\<lambda>s. s\<lparr>ctx := (ctx s)\<lparr>c_callbacks := c_callbacks (ctx s) @ [cb]\<rparr>\<rparr>) h
                   else h)
          in (ret, conId, Some (p, cmd), h)
      | None \<Rightarrow> (- 1, - 1, None, h))"

text \<open>The library takes the oldest callback of the context and calls it with the reply.\<close>

definition commandCallback :: "nat \<Rightarrow> 'cb hiredis \<Rightarrow> (('cb \<times> u64) \<times> 'cb hiredis) option" where
  "commandCallback p h =
     (case c_callbacks (ctx (scons h ! p)) of
        [] \<Rightarrow> None
      | cb # cbs \<Rightarrow> do {
          let h = upd_scon p (\<lambda>s. s\<lparr>ctx := (ctx s)\<lparr>c_callbacks := cbs\<rparr>\<rparr>) h;
          let i = connId (scons h ! p);
          let call = (cb, genUniqueConId (word_of_int (serverId h)) (word_of_int i));
          q \<leftarrow> map_find i (activeBusyConn h);
          assert_that (map_find i (activeFreeConns h) = None);
          Some (call, h\<lparr>activeFreeConns := map_set i q (activeFreeConns h),
                        activeBusyConn := map_erase i (activeBusyConn h)\<rparr>)
        })"

section \<open>The life of a connection\<close>

text \<open>
  The abstract machine: each connection is inactive, free or busy. \<open>lifecycle\<close> relates a client to
  the phases of its \<open>n\<close> connections: every connection is in the map of its phase and in no other, and
  only a busy one has a command that is not answered; one that is not inactive has its channel.
\<close>

datatype phase = Inactive | Free | Busy

definition conns_in :: "nat \<Rightarrow> (nat \<Rightarrow> phase) \<Rightarrow> phase \<Rightarrow> int \<Rightarrow> nat option" where
  "conns_in n f ph = (\<lambda>k. if 0 \<le> k \<and> nat k < n \<and> f (nat k) = ph then Some (nat k) else None)"

definition lifecycle :: "'cb hiredis \<Rightarrow> nat \<Rightarrow> (nat \<Rightarrow> phase) \<Rightarrow> bool" where
  "lifecycle h n f \<longleftrightarrow>
     length (scons h) = n
     \<and> (\<forall>p<n. connId (scons h ! p) = int p)
     \<and> smap.represents (inactiveConns h) (conns_in n f Inactive)
     \<and> smap.represents (activeFreeConns h) (conns_in n f Free)
     \<and> smap.represents (activeBusyConn h) (conns_in n f Busy)
     \<and> (\<forall>p<n. f p \<noteq> Busy \<longrightarrow> c_callbacks (ctx (scons h ! p)) = [])
     \<and> (\<forall>p<n. length (c_callbacks (ctx (scons h ! p))) \<le> 1)
     \<and> (\<forall>p<n. f p \<noteq> Inactive \<longrightarrow> chan (scons h ! p) \<noteq> None \<and> c_connected (ctx (scons h ! p)))"

lemma conns_in_set: "p < n \<Longrightarrow> conns_in n (f(p := ph)) ph = (conns_in n f ph)(int p \<mapsto> p)"
  by (auto simp: conns_in_def fun_eq_iff)

lemma conns_in_erase: "p < n \<Longrightarrow> ph \<noteq> qh \<Longrightarrow> conns_in n (f(p := ph)) qh = (conns_in n f qh)(int p := None)"
  by (auto simp: conns_in_def fun_eq_iff)

lemma conns_in_other: "f p \<noteq> qh \<Longrightarrow> ph \<noteq> qh \<Longrightarrow> conns_in n (f(p := ph)) qh = conns_in n f qh"
  by (auto simp: conns_in_def fun_eq_iff)

lemma conns_in_at: "conns_in n f ph (int p) = (if p < n \<and> f p = ph then Some p else None)"
  by (simp add: conns_in_def)

lemma conns_in_Some: "conns_in n f ph k = Some p \<longleftrightarrow> k = int p \<and> p < n \<and> f p = ph"
  by (cases k) (auto simp: conns_in_def)

lemma conns_in_empty: "(\<forall>k. conns_in n f ph k = None) \<longleftrightarrow> (\<forall>p<n. f p \<noteq> ph)"
  by (metis conns_in_Some not_None_eq)

lemma nil_least: "m = [] \<longleftrightarrow> map_begin m = None"
  by (simp add: map_begin_def split: list.splits)

lemma lifecycle_connected:
  assumes "lifecycle h n f"
  shows "connected h \<longleftrightarrow> (\<exists>p<n. f p \<noteq> Inactive)"
proof -
  have "activeBusyConn h = [] \<longleftrightarrow> (\<forall>p<n. f p \<noteq> Busy)" "activeFreeConns h = [] \<longleftrightarrow> (\<forall>p<n. f p \<noteq> Free)"
    using assms smap.represents_none [of "activeBusyConn h" "conns_in n f Busy"]
      smap.represents_none [of "activeFreeConns h" "conns_in n f Free"]
    by (simp_all add: lifecycle_def nil_least conns_in_empty)
  moreover have "ph \<noteq> Inactive \<longleftrightarrow> ph = Free \<or> ph = Busy" for ph by (cases ph) auto
  ultimately show ?thesis by (auto simp: connected_def)
qed

text \<open>One transition of the abstract machine at one connection, with the maps moved accordingly.\<close>

lemma lifecycle_free:
  assumes "lifecycle h n f" "p < n" "f p = Inactive" "chan (scons h ! p) \<noteq> None" "c_connected (ctx (scons h ! p))"
  shows "lifecycle (h\<lparr>activeFreeConns := map_set (int p) p (activeFreeConns h),
      inactiveConns := map_erase (int p) (inactiveConns h)\<rparr>) n (f(p := Free))"
  using assms unfolding lifecycle_def
  by (auto simp: conns_in_other intro: smap.represents_set smap.represents_erase conns_in_set conns_in_erase)

lemma upd_scon_simps [simp]:
  "inactiveConns (upd_scon p g h) = inactiveConns h" "activeFreeConns (upd_scon p g h) = activeFreeConns h"
  "activeBusyConn (upd_scon p g h) = activeBusyConn h" "length (scons (upd_scon p g h)) = length (scons h)"
  "serverId (upd_scon p g h) = serverId h" "context_ptr (upd_scon p g h) = context_ptr h"
  "p < length (scons h) \<Longrightarrow> scons (upd_scon p g h) ! q = (if q = p then g (scons h ! p) else scons h ! q)"
  by (simp_all add: upd_scon_def nth_list_update)

lemma setChannel_lifecycle:
  "setChannel p h = Some h' \<Longrightarrow> lifecycle h n f \<Longrightarrow> lifecycle h' n f"
  by (auto simp: setChannel_def lifecycle_def)

lemma removeChannel_lifecycle:
  "removeChannel p h = Some h' \<Longrightarrow> p < n \<Longrightarrow> f p = Inactive \<Longrightarrow> lifecycle h n f \<Longrightarrow> lifecycle h' n f"
  by (auto simp: removeChannel_def lifecycle_def split: Option.bind_splits)

lemma on_channel_lifecycle:
  "on_channel g p h = Some h' \<Longrightarrow> p < n \<Longrightarrow> lifecycle h n f \<Longrightarrow> lifecycle h' n f"
  by (auto simp: on_channel_def lifecycle_def split: Option.bind_splits)

lemma connect_callback_refines:
  assumes l: "lifecycle h n f" and p: "p < n" and u: "userConnectCallback p status h = Some (calls, h')"
    and con: "status = REDIS_OK \<Longrightarrow> c_connected (ctx (scons h ! p))"
  shows "if status = REDIS_OK then f p = Inactive \<and> lifecycle h' n (f(p := Free)) else h' = h"
proof (cases "status = REDIS_OK")
  case True
  have id: "connId (scons h ! p) = int p" "p < length (scons h)"
    and "smap.represents (inactiveConns h) (conns_in n f Inactive)"
    using l p by (simp_all add: lifecycle_def)
  then have find: "map_find (int p) (inactiveConns h) = (if f p = Inactive then Some p else None)"
    using p by (simp add: smap.represents_find conns_in_at)
  with True u have ina: "f p = Inactive"
    by (auto simp: userConnectCallback_def id split: if_splits)
  let ?s = "\<lambda>s. s\<lparr>chan := Some \<lparr>ch_fd = c_fd (ctx (scons h ! p)), ch_reading = False, ch_writing = False\<rparr>\<rparr>"
  have h': "h' = (upd_scon p ?s h)\<lparr>activeFreeConns := map_set (int p) p (activeFreeConns h),
      inactiveConns := map_erase (int p) (inactiveConns h)\<rparr>"
    using u True find ina id
    by (auto simp: userConnectCallback_def setChannel_def upd_scon_def Let_def split: Option.bind_splits)
  have "lifecycle (upd_scon p ?s h) n f" using l id(2) by (auto simp: lifecycle_def)
  from lifecycle_free [OF this p ina] con [OF True] id(2) have "lifecycle h' n (f(p := Free))" by (simp add: h')
  with True ina show ?thesis by simp
next
  case False
  with u show ?thesis by (simp add: userConnectCallback_def)
qed

lemma disconnect_callback_iff:
  assumes l: "lifecycle h n f" and p: "p < n" and none: "c_callbacks (ctx (scons h ! p)) = []"
  shows "if f p = Busy
    then \<exists>us h'. userDisconnectCallback p status h = Some (us, h') \<and> lifecycle h' n (f(p := Inactive))
    else userDisconnectCallback p status h = None"
proof (cases "chan (scons h ! p)")
  case None
  then show ?thesis using l p by (auto simp: userDisconnectCallback_def removeChannel_def lifecycle_def)
next
  case (Some ch)
  define h1 where "h1 = upd_scon p (\<lambda>s. s\<lparr>chan := None\<rparr>) h"
  have rm: "removeChannel p h = Some h1" using Some by (simp add: removeChannel_def h1_def)
  have len: "p < length (scons h)" and id: "connId (scons h1 ! p) = int p"
    using l p by (simp_all add: lifecycle_def h1_def)
  have rep: "smap.represents (activeBusyConn h1) (conns_in n f Busy)" "smap.represents (inactiveConns h1) (conns_in n f Inactive)"
    using l by (simp_all add: lifecycle_def h1_def)
  then have find: "map_find (int p) (activeBusyConn h1) = (if f p = Busy then Some p else None)"
    "map_find (int p) (inactiveConns h1) = (if f p = Inactive then Some p else None)"
    using p by (simp_all add: smap.represents_find conns_in_at)
  have l1: "f p = Busy \<Longrightarrow> lifecycle (h1\<lparr>inactiveConns := map_set (int p) p (inactiveConns h1),
      activeBusyConn := map_erase (int p) (activeBusyConn h1)\<rparr>) n (f(p := Inactive))"
    using l p none rep len unfolding lifecycle_def
    by (auto simp: h1_def conns_in_other intro: smap.represents_set smap.represents_erase conns_in_set conns_in_erase)
  show ?thesis
    using rm find l1 by (auto simp: userDisconnectCallback_def id Let_def)
qed

lemma command_refines:
  assumes "lifecycle h n f" "command send conId cb cmd h = (ret, conId', sent, h')"
  shows "(case sent of
      None \<Rightarrow> (\<forall>p<n. f p \<noteq> Free) \<and> h' = h \<and> ret \<noteq> REDIS_OK
    | Some (p, cmd') \<Rightarrow> p < n \<and> f p = Free \<and> (\<forall>q<n. f q = Free \<longrightarrow> p \<le> q) \<and> cmd' = cmd \<and> conId' = int p
        \<and> ret = send p cmd \<and> lifecycle h' n (f(p := Busy))
        \<and> c_callbacks (ctx (scons h' ! p)) = (if ret = REDIS_OK then [cb] else []))"
proof (cases "map_begin (activeFreeConns h)")
  case None
  have "\<forall>p<n. f p \<noteq> Free"
    using assms(1) None unfolding lifecycle_def by (metis smap.represents_none conns_in_empty)
  with None assms show ?thesis
    by (auto simp: command_def REDIS_ERR_def REDIS_OK_def split: if_splits)
next
  case (Some kp)
  then obtain k p where kp: "map_begin (activeFreeConns h) = Some (k, p)" by (cases kp) auto
  have rep: "smap.represents (activeFreeConns h) (conns_in n f Free)" using assms(1) by (simp add: lifecycle_def)
  from smap.represents_least [OF rep kp] have p: "k = int p" "p < n" "f p = Free"
    by (simp_all add: conns_in_Some)
  have least: "\<forall>q<n. f q = Free \<longrightarrow> p \<le> q"
  proof (intro allI impI)
    fix q assume "q < n" "f q = Free"
    then have "map_find (int q) (activeFreeConns h) = Some q"
      using smap.represents_find [OF rep] by (simp add: conns_in_at)
    then have "k \<le> int q" using map_begin_least [OF _ kp] rep by (auto simp: smap.represents_def)
    then show "p \<le> q" using p by simp
  qed
  have con: "connected h" using lifecycle_connected [OF assms(1)] p by force
  have id: "connId (scons h ! p) = int p" "c_callbacks (ctx (scons h ! p)) = []" "length (scons h) = n"
    using assms(1) p by (auto simp: lifecycle_def)
  let ?h1 = "h\<lparr>activeFreeConns := map_erase k (activeFreeConns h), activeBusyConn := map_set (int p) p (activeBusyConn h)\<rparr>"
  have l1: "lifecycle ?h1 n (f(p := Busy))"
    using assms(1) p unfolding lifecycle_def
    by (auto simp: conns_in_other intro: smap.represents_set smap.represents_erase conns_in_set conns_in_erase)
  have l2: "lifecycle (upd_scon p (\<lambda>s. s\<lparr>ctx := (ctx s)\<lparr>c_callbacks := c_callbacks (ctx s) @ [cb]\<rparr>\<rparr>) ?h1) n (f(p := Busy))"
    using l1 id p(2) by (auto simp: lifecycle_def)
  show ?thesis
    using assms(2) con kp p l1 l2 least id
    by (auto simp: command_def Let_def split: if_splits)
qed

lemma reply_refines:
  assumes "lifecycle h n f" "p < n" "c_callbacks (ctx (scons h ! p)) = [cb]"
  shows "\<exists>h'. f p = Busy
    \<and> commandCallback p h = Some ((cb, genUniqueConId (word_of_int (serverId h)) (word_of_nat p)), h')
    \<and> lifecycle h' n (f(p := Free)) \<and> c_callbacks (ctx (scons h' ! p)) = []"
proof -
  let ?h1 = "upd_scon p (\<lambda>s. s\<lparr>ctx := (ctx s)\<lparr>c_callbacks := []\<rparr>\<rparr>) h"
  have l: "length (scons h) = n" "connId (scons h ! p) = int p" using assms by (simp_all add: lifecycle_def)
  have busy: "f p = Busy" using assms by (auto simp: lifecycle_def)
  have rep: "smap.represents (activeBusyConn h) (conns_in n f Busy)"
    "smap.represents (activeFreeConns h) (conns_in n f Free)" using assms by (simp_all add: lifecycle_def)
  then have find: "map_find (int p) (activeBusyConn h) = Some p" "map_find (int p) (activeFreeConns h) = None"
    using assms(2) busy by (simp_all add: smap.represents_find conns_in_at)
  let ?h2 = "?h1\<lparr>activeFreeConns := map_set (int p) p (activeFreeConns h),
      activeBusyConn := map_erase (int p) (activeBusyConn h)\<rparr>"
  have "commandCallback p h = Some ((cb, genUniqueConId (word_of_int (serverId h)) (word_of_nat p)), ?h2)"
    using assms(2,3) l find by (simp add: commandCallback_def Let_def)
  moreover have "lifecycle ?h2 n (f(p := Free))"
    using assms(1,2) l busy unfolding lifecycle_def
    by (auto simp: conns_in_other intro: smap.represents_set smap.represents_erase conns_in_set conns_in_erase)
  ultimately show ?thesis using busy l assms(2) by auto
qed

text \<open>Connecting a new client: all of its connections are inactive, each with a channel.\<close>

text \<open>Every connection of a client was asked for at its own server.\<close>

definition peers_ok :: "'cb hiredis \<Rightarrow> bool" where
  "peers_ok h \<longleftrightarrow> (\<forall>s\<in>set (scons h). c_peer (ctx s) = serverAddr h)"

lemma connect_one_ok:
  assumes "lifecycle h n (\<lambda>p. Inactive)" "peers_ok h"
  shows "\<exists>h'. connect_one rac (int n) h = Some h' \<and> lifecycle h' (Suc n) (\<lambda>p. Inactive) \<and> serverId h' = serverId h
    \<and> serverAddr h' = serverAddr h \<and> peers_ok h'"
proof -
  let ?cx = "\<lparr>c_fd = rac (serverAddr h) (int n), c_peer = serverAddr h, c_connected = False, c_callbacks = []\<rparr>"
  let ?ch = "\<lparr>ch_fd = rac (serverAddr h) (int n), ch_reading = False, ch_writing = False\<rparr>"
  let ?s = "\<lparr>connId = int n, ctx = ?cx, chan = Some ?ch\<rparr>"
  let ?h = "h\<lparr>scons := scons h @ [?s], inactiveConns := map_set (int n) n (inactiveConns h)\<rparr>"
  have n: "length (scons h) = n" using assms(1) by (simp add: lifecycle_def)
  then have "connect_one rac (int n) h = Some ?h"
    by (simp add: connect_one_def setChannel_def upd_scon_def Let_def list_update_append nth_append flip: n)
  moreover have "conns_in (Suc n) (\<lambda>p. Inactive) Inactive = (conns_in n (\<lambda>p. Inactive) Inactive)(int n \<mapsto> n)"
    "conns_in (Suc n) (\<lambda>p. Inactive) Free = conns_in n (\<lambda>p. Inactive) Free"
    "conns_in (Suc n) (\<lambda>p. Inactive) Busy = conns_in n (\<lambda>p. Inactive) Busy"
    by (auto simp: conns_in_def fun_eq_iff less_Suc_eq)
  then have "lifecycle ?h (Suc n) (\<lambda>p. Inactive)"
    using assms(1) n unfolding lifecycle_def
    by (auto simp: nth_append less_Suc_eq intro: smap.represents_set)
  moreover have "peers_ok ?h" using assms(2) by (simp add: peers_ok_def)
  ultimately show ?thesis by auto
qed

lemma connect_loop_ok:
  "lifecycle h n (\<lambda>p. Inactive) \<Longrightarrow> peers_ok h \<Longrightarrow>
    \<exists>h'. connect_loop rac m (int n) h = Some h' \<and> lifecycle h' (n + m) (\<lambda>p. Inactive) \<and> serverId h' = serverId h
      \<and> serverAddr h' = serverAddr h \<and> peers_ok h'"
proof (induction m arbitrary: h n)
  case 0
  then show ?case by simp
next
  case (Suc m)
  from connect_one_ok [OF Suc.prems, of rac] obtain h1 where
    h1: "connect_one rac (int n) h = Some h1" "lifecycle h1 (Suc n) (\<lambda>p. Inactive)" "serverId h1 = serverId h"
      "serverAddr h1 = serverAddr h" "peers_ok h1"
    by blast
  from Suc.IH [OF h1(2,5)] h1 show ?case by (auto simp: add.commute)
qed

lemma connect_ok:
  "\<exists>h'. connect rac (setServerId sid (new_hiredis addr n)) = Some h' \<and> lifecycle h' (nat n) (\<lambda>p. Inactive) \<and> serverId h' = sid
    \<and> serverAddr h' = addr \<and> peers_ok h'"
proof -
  let ?h = "setServerId sid (new_hiredis addr n)"
  have "lifecycle ?h 0 (\<lambda>p. Inactive)" "peers_ok ?h"
    by (simp_all add: lifecycle_def setServerId_def new_hiredis_def conns_in_def smap.represents_def peers_ok_def)
  from connect_loop_ok [OF this, of rac "nat n"] show ?thesis
    by (simp add: connect_def setServerId_def new_hiredis_def)
qed

section \<open>Runs of a client\<close>

text \<open>
  When the library gives up a context it calls back: with a null reply for a command that was not
  answered, and to say that the connection is gone. Which calls it makes is its own affair and an
  argument here. The order that it documents is \<open>answers_first\<close>: every pending command is answered with
  null, then the disconnect callback is called once.
\<close>

datatype lib_call = NullReply | Gone int

primrec library_calls ::
  "lib_call list \<Rightarrow> nat \<Rightarrow> 'cb hiredis \<Rightarrow> (('cb \<times> u64) list \<times> user_call list \<times> 'cb hiredis) option" where
  "library_calls [] p h = Some ([], [], h)"
| "library_calls (c # cs) p h = (case c of
     NullReply \<Rightarrow> do {
       (call, h) \<leftarrow> commandCallback p h;
       (calls, us, h) \<leftarrow> library_calls cs p h;
       Some (call # calls, us, h)
     }
   | Gone status \<Rightarrow> do {
       (u, h) \<leftarrow> userDisconnectCallback p status h;
       (calls, us, h) \<leftarrow> library_calls cs p h;
       Some (calls, u @ us, h)
     })"

definition answers_first :: "lib_call list \<Rightarrow> nat \<Rightarrow> 'cb hiredis \<Rightarrow> bool" where
  "answers_first plan p h \<longleftrightarrow>
     (\<exists>status. plan = replicate (length (c_callbacks (ctx (scons h ! p)))) NullReply @ [Gone status])"

text \<open>The library marks a context as connected before it reports the success.\<close>

definition mark_connected :: "nat \<Rightarrow> int \<Rightarrow> 'cb hiredis \<Rightarrow> 'cb hiredis" where
  "mark_connected p status h =
     (if status = REDIS_OK then upd_scon p (\<lambda>s. s\<lparr>ctx := (ctx s)\<lparr>c_connected := True\<rparr>\<rparr>) h else h)"

text \<open>
  The steps of a client: what the library reports, what the user issues, and the events of the
  channels. The callbacks that the library makes while it handles an event are steps that follow it.
\<close>

datatype 'cb hevent = Connected nat int | Disconnected nat "lib_call list" | Issue 'cb "byte list" int
  | Answer nat | Writable nat | Interest "channel \<Rightarrow> channel" nat

inductive hstep :: "'cb hiredis \<Rightarrow> 'cb hevent \<Rightarrow> 'cb hiredis \<Rightarrow> bool" where
  connected: "p < length (scons h) \<Longrightarrow> userConnectCallback p st (mark_connected p st h) = Some (us, h')
    \<Longrightarrow> hstep h (Connected p st) h'"
| disconnected: "p < length (scons h) \<Longrightarrow> answers_first plan p h \<Longrightarrow> library_calls plan p h = Some (calls, us, h')
    \<Longrightarrow> hstep h (Disconnected p plan) h'"
| issued: "command (\<lambda>p cmd. status) c cb cmd h = (ret, c', sent, h') \<Longrightarrow> hstep h (Issue cb cmd status) h'"
| answered: "p < length (scons h) \<Longrightarrow> commandCallback p h = Some (call, h') \<Longrightarrow> hstep h (Answer p) h'"
| writable: "p < length (scons h) \<Longrightarrow> handleWrite (\<lambda>q. Some) p h = Some h' \<Longrightarrow> hstep h (Writable p) h'"
| interest: "p < length (scons h) \<Longrightarrow> on_channel g p h = Some h' \<Longrightarrow> hstep h (Interest g p) h'"

inductive_cases hstep_connected: "hstep h (Connected p st) h'"
inductive_cases hstep_disconnected: "hstep h (Disconnected p plan) h'"
inductive_cases hstep_issued: "hstep h (Issue cb cmd status) h'"
inductive_cases hstep_answered: "hstep h (Answer p) h'"

inductive hreach :: "int \<Rightarrow> 'cb hiredis \<Rightarrow> bool" for n where
  start: "connect rac (setServerId sid (new_hiredis addr n)) = Some h \<Longrightarrow> hreach n h"
| step: "hreach n h \<Longrightarrow> hstep h e h' \<Longrightarrow> hreach n h'"

lemma callbacks_cases:
  assumes "lifecycle h n f" "p < n"
  shows "c_callbacks (ctx (scons h ! p)) = [] \<or> (\<exists>cb. c_callbacks (ctx (scons h ! p)) = [cb])"
  using assms by (cases "c_callbacks (ctx (scons h ! p))") (auto simp: lifecycle_def)

text \<open>Losing a connection in the documented order fails unless it is busy with a command that the
  library never took: a null reply frees the connection before it is reported as gone.\<close>

lemma library_calls_ok:
  assumes l: "lifecycle h n f" and p: "p < n" and plan: "answers_first plan p h"
  shows "if f p = Busy \<and> c_callbacks (ctx (scons h ! p)) = []
    then \<exists>us h'. library_calls plan p h = Some ([], us, h') \<and> lifecycle h' n (f(p := Inactive))
    else library_calls plan p h = None"
  using callbacks_cases [OF l p]
proof (elim disjE exE)
  assume none: "c_callbacks (ctx (scons h ! p)) = []"
  with plan obtain status where "plan = [Gone status]" by (auto simp: answers_first_def)
  with disconnect_callback_iff [OF l p none, of status] none show ?thesis
    by (auto split: if_splits)
next
  fix cb
  assume cb: "c_callbacks (ctx (scons h ! p)) = [cb]"
  with plan obtain status where pl: "plan = [NullReply, Gone status]" by (auto simp: answers_first_def)
  from reply_refines [OF l p cb] obtain call h1 where
    h1: "commandCallback p h = Some (call, h1)" "lifecycle h1 n (f(p := Free))" "c_callbacks (ctx (scons h1 ! p)) = []"
    by auto
  from disconnect_callback_iff [OF h1(2) p h1(3), of status] have "userDisconnectCallback p status h1 = None" by simp
  with pl h1(1) cb show ?thesis by simp
qed

lemma mark_connected_lifecycle: "lifecycle h n f \<Longrightarrow> p < n \<Longrightarrow> lifecycle (mark_connected p st h) n f"
  by (auto simp: mark_connected_def lifecycle_def)

lemma hstep_lifecycle: "hstep h e h' \<Longrightarrow> lifecycle h n f \<Longrightarrow> \<exists>f'. lifecycle h' n f'"
proof (induction rule: hstep.induct)
  case (connected p h st us h')
  then have p: "p < n" by (simp add: lifecycle_def)
  have "st = REDIS_OK \<Longrightarrow> c_connected (ctx (scons (mark_connected p st h) ! p))"
    using connected.hyps(1) by (simp add: mark_connected_def)
  from connect_callback_refines [OF mark_connected_lifecycle [OF connected.prems p] p connected.hyps(2) this]
    mark_connected_lifecycle [OF connected.prems p]
  show ?case by (auto split: if_splits)
next
  case (disconnected p h plan calls us h')
  then have p: "p < n" by (simp add: lifecycle_def)
  from library_calls_ok [OF disconnected.prems p disconnected.hyps(2)] disconnected.hyps(3) show ?case
    by (auto split: if_splits)
next
  case (issued status c cb cmd h ret c' sent h')
  from command_refines [OF issued.prems issued.hyps] issued.prems show ?case
    by (auto split: option.splits)
next
  case (answered p h call h')
  then have p: "p < n" by (simp add: lifecycle_def)
  from callbacks_cases [OF answered.prems p] show ?case
  proof (elim disjE exE)
    assume "c_callbacks (ctx (scons h ! p)) = []"
    with answered.hyps(2) show ?thesis by (simp add: commandCallback_def)
  next
    fix cb
    assume "c_callbacks (ctx (scons h ! p)) = [cb]"
    from reply_refines [OF answered.prems p this] answered.hyps(2) show ?thesis by auto
  qed
next
  case (writable p h h')
  then have p: "p < n" by (simp add: lifecycle_def)
  show ?case
  proof (cases "c_connected (ctx (scons h ! p))")
    case True
    with writable show ?thesis by (auto simp: handleWrite_def)
  next
    case False
    then have "f p = Inactive" using writable.prems p by (auto simp: lifecycle_def)
    moreover have "removeChannel p h = Some h'"
      using writable.hyps False by (auto simp: handleWrite_def split: Option.bind_splits)
    ultimately show ?thesis using removeChannel_lifecycle [OF _ p] writable.prems by blast
  qed
next
  case (interest p h g h')
  then have "p < n" by (simp add: lifecycle_def)
  with interest on_channel_lifecycle show ?case by blast
qed

lemma hreach_lifecycle: "hreach n h \<Longrightarrow> \<exists>f. lifecycle h (nat n) f"
proof (induction rule: hreach.induct)
  case (start rac sid addr h)
  obtain h1 :: "'a hiredis" where "connect rac (setServerId sid (new_hiredis addr n)) = Some h1"
    "lifecycle h1 (nat n) (\<lambda>p. Inactive)"
    using connect_ok by blast
  with start show ?case by auto
next
  case (step h e h')
  then show ?case using hstep_lifecycle by blast
qed

lemma keys_in: "smap.represents m (conns_in n f ph) \<Longrightarrow> fst ` set m = {int p |p. p < n \<and> f p = ph}"
proof -
  assume r: "smap.represents m (conns_in n f ph)"
  have "k \<in> fst ` set m \<longleftrightarrow> conns_in n f ph k \<noteq> None" for k
    using smap.represents_find [OF r, of k] map_of_eq_None_iff [of m k] by (simp add: map_find_def)
  then show ?thesis by (auto simp: conns_in_Some)
qed

section \<open>Properties\<close>

text \<open>C11: In every reachable state of a redis client, each of its connections is in exactly one of the
  three maps: none is lost, none appears twice, whatever the order in which the library calls back,
  commands are issued and fail, and connections go up and down.\<close>
theorem connections_conserved:
  assumes "hreach n h"
  shows "distinct (map fst (inactiveConns h) @ map fst (activeFreeConns h) @ map fst (activeBusyConn h))
    \<and> set (map fst (inactiveConns h) @ map fst (activeFreeConns h) @ map fst (activeBusyConn h)) = {0..<n}"
proof -
  obtain f where l: "lifecycle h (nat n) f" using hreach_lifecycle [OF assms] by blast
  let ?k = "\<lambda>ph. {int p |p. p < nat n \<and> f p = ph}"
  have k: "fst ` set (inactiveConns h) = ?k Inactive" "fst ` set (activeFreeConns h) = ?k Free"
    "fst ` set (activeBusyConn h) = ?k Busy"
    using l by (simp_all add: lifecycle_def keys_in)
  have d: "distinct (map fst (inactiveConns h))" "distinct (map fst (activeFreeConns h))"
    "distinct (map fst (activeBusyConn h))"
    using l by (auto simp: lifecycle_def smap.represents_def map_ok_def strict_sorted_iff)
  have "?k Inactive \<union> ?k Free \<union> ?k Busy = {0..<n}"
  proof (intro equalityI subsetI)
    fix i assume i: "i \<in> {0..<n}"
    then have "i = int (nat i)" "nat i < nat n" by auto
    then show "i \<in> ?k Inactive \<union> ?k Free \<union> ?k Busy" by (cases "f (nat i)") blast+
  qed auto
  with d k show ?thesis by auto
qed

text \<open>C24: A command goes to the free connection with the least id and to no other: one that is busy is
  never given a second command, and the callback that is called with the reply is the one the
  command was issued with.\<close>
theorem command_uses_free_connection:
  assumes "hreach n h" "command send conId cb cmd h = (ret, conId', Some (p, cmd'), h')" "ret = REDIS_OK"
  shows "map_find conId' (activeFreeConns h) = Some p \<and> map_find conId' (activeBusyConn h) = None
    \<and> (\<forall>i\<in>fst ` set (activeFreeConns h). conId' \<le> i)
    \<and> map_find conId' (activeBusyConn h') = Some p
    \<and> (\<exists>h''. commandCallback p h' = Some ((cb, genUniqueConId (word_of_int (serverId h')) (word_of_int conId')), h''))"
proof -
  obtain f where l: "lifecycle h (nat n) f" using hreach_lifecycle [OF assms(1)] by blast
  from command_refines [OF l assms(2)] assms(3)
  have c: "p < nat n" "f p = Free" "\<forall>q<nat n. f q = Free \<longrightarrow> p \<le> q" "conId' = int p"
    "lifecycle h' (nat n) (f(p := Busy))" "c_callbacks (ctx (scons h' ! p)) = [cb]" by auto
  have "fst ` set (activeFreeConns h) = {int p |p. p < nat n \<and> f p = Free}"
    using l by (simp add: lifecycle_def keys_in)
  moreover have "map_find conId' (activeFreeConns h) = Some p" "map_find conId' (activeBusyConn h) = None"
    "map_find conId' (activeBusyConn h') = Some p"
    using l c by (auto simp: lifecycle_def smap.represents_find conns_in_at)
  ultimately show ?thesis
    using c reply_refines [OF c(5,1,6)] by auto
qed


section \<open>A run\<close>

text \<open>A client of two connections, whose first one comes up.\<close>

definition addr0 :: InetAddress where
  "addr0 = \<lparr>ip = [49], port = 6379\<rparr>"

definition client0 :: "nat hiredis" where
  "client0 =
     \<lparr>serverId = 3, serverAddr = addr0, context_ptr = None, nconns = 2, inactiveConns = [(0, 0), (1, 1)],
      activeFreeConns = [], activeBusyConn = [],
      scons =
        [\<lparr>connId = 0, ctx = \<lparr>c_fd = 10, c_peer = addr0, c_connected = False, c_callbacks = []\<rparr>,
          chan = Some \<lparr>ch_fd = 10, ch_reading = False, ch_writing = False\<rparr>\<rparr>,
         \<lparr>connId = 1, ctx = \<lparr>c_fd = 11, c_peer = addr0, c_connected = False, c_callbacks = []\<rparr>,
          chan = Some \<lparr>ch_fd = 11, ch_reading = False, ch_writing = False\<rparr>\<rparr>],
      connectCb = False, disconnectCb = False\<rparr>"

definition client1 :: "nat hiredis" where
  "client1 = client0\<lparr>inactiveConns := [(1, 1)], activeFreeConns := [(0, 0)],
     scons := (scons client0)[0 := (scons client0 ! 0)\<lparr>ctx := (ctx (scons client0 ! 0))\<lparr>c_connected := True\<rparr>\<rparr>]\<rparr>"

lemma client0_reach: "hreach 2 client0"
proof (rule hreach.start)
  show "connect (\<lambda>a i. i + 10) (setServerId 3 (new_hiredis addr0 2)) = Some client0"
    by (simp add: connect_def new_hiredis_def setServerId_def connect_one_def setChannel_def upd_scon_def
        client0_def numeral_2_eq_2)
qed

lemma client1_reach: "hreach 2 client1"
proof -
  let ?w = "client0\<lparr>scons := (scons client0)[0 := (scons client0 ! 0)\<lparr>chan := None\<rparr>]\<rparr>"
  have "hstep client0 (Writable 0) ?w"
    by (rule hstep.writable) (simp_all add: client0_def handleWrite_def removeChannel_def upd_scon_def)
  then have w: "hreach 2 ?w" by (rule hreach.step [OF client0_reach])
  have "hstep ?w (Connected 0 0) client1"
    by (rule hstep.connected [where us = "[]"])
      (simp_all add: client0_def client1_def userConnectCallback_def mark_connected_def REDIS_OK_def map_find_def map_erase_def
        setChannel_def upd_scon_def)
  then show ?thesis by (rule hreach.step [OF w])
qed

theorem connections_conserved_witness:
  "hreach 2 client1 \<and> set (map fst (inactiveConns client1)) \<union> set (map fst (activeFreeConns client1))
    \<union> set (map fst (activeBusyConn client1)) = {0..<2}"
  using client1_reach connections_conserved [OF client1_reach] by auto

theorem command_uses_free_connection_witness:
  "\<exists>h'. command (\<lambda>p cmd. 0) (-1) 7 [103] client1 = (0, 0, Some (0, [103]), h')
    \<and> map_find 0 (activeBusyConn h') = Some 0"
proof -
  obtain h' where c: "command (\<lambda>p cmd. 0) (-1) 7 [103] client1 = (0, 0, Some (0, [103]), h')"
    by (simp add: command_def client1_def client0_def connected_def map_begin_def REDIS_OK_def Let_def)
  from command_uses_free_connection [OF client1_reach c] c show ?thesis by (simp add: REDIS_OK_def)
qed


end
