(* ===== verification/HashKit.thy ===== *)
theory HashKit
  imports Prelude
begin

text \<open>
  The byte-at-a-time hash functions of \<open>ProxyServer/HashKit\<close>: \<open>fnv.c\<close>, \<open>one_at_a_time.c\<close>,
  \<open>crc16.c\<close> and \<open>crc32.c\<close>. A key is the list of its bytes (\<open>key_length\<close> is its length); each
  loop is a fold of its body over the key. \<open>char\<close> is signed on the host, so a byte of the key is
  sign-extended where the source converts \<open>key[x]\<close>.
\<close>

section \<open>FNV\<close>

definition FNV_64_INIT :: u64 where "FNV_64_INIT = 0xcbf29ce484222325"

definition FNV_64_PRIME :: u64 where "FNV_64_PRIME = 0x100000001b3"

definition FNV_32_INIT :: u32 where "FNV_32_INIT = 2166136261"

definition FNV_32_PRIME :: u32 where "FNV_32_PRIME = 16777619"

definition fnv1_64_step :: "u64 \<Rightarrow> byte \<Rightarrow> u64" where
  "fnv1_64_step hash c = (hash * FNV_64_PRIME) XOR char_to c"

definition hash_fnv1_64 :: "byte list \<Rightarrow> u32" where
  "hash_fnv1_64 key = ucast (foldl fnv1_64_step FNV_64_INIT key)"

definition fnv1a_64_step :: "u32 \<Rightarrow> byte \<Rightarrow> u32" where
  "fnv1a_64_step hash c = (let val = char_to c in (hash XOR val) * ucast FNV_64_PRIME)"

definition hash_fnv1a_64 :: "byte list \<Rightarrow> u32" where
  "hash_fnv1a_64 key = foldl fnv1a_64_step (ucast FNV_64_INIT) key"

definition fnv1_32_step :: "u32 \<Rightarrow> byte \<Rightarrow> u32" where
  "fnv1_32_step hash c = (let val = char_to c in (hash * FNV_32_PRIME) XOR val)"

definition hash_fnv1_32 :: "byte list \<Rightarrow> u32" where
  "hash_fnv1_32 key = foldl fnv1_32_step FNV_32_INIT key"

definition fnv1a_32_step :: "u32 \<Rightarrow> byte \<Rightarrow> u32" where
  "fnv1a_32_step hash c = (let val = char_to c in (hash XOR val) * FNV_32_PRIME)"

definition hash_fnv1a_32 :: "byte list \<Rightarrow> u32" where
  "hash_fnv1a_32 key = foldl fnv1a_32_step FNV_32_INIT key"

section \<open>One at a time\<close>

definition oaat_step :: "u32 \<Rightarrow> byte \<Rightarrow> u32" where
  "oaat_step value c =
     (let val = char_to c;
          value = value + val;
          value = value + push_bit 10 value
      in value XOR drop_bit 6 value)"

definition oaat_final :: "u32 \<Rightarrow> u32" where
  "oaat_final value =
     (let value = value + push_bit 3 value;
          value = value XOR drop_bit 11 value
      in value + push_bit 15 value)"

definition hash_one_at_a_time :: "byte list \<Rightarrow> u32" where
  "hash_one_at_a_time key = oaat_final (foldl oaat_step 0 key)"

section \<open>CRC-16\<close>

definition crc16tab :: "u16 list" where
  "crc16tab =
    [
     0x0000, 0x1021, 0x2042, 0x3063, 0x4084, 0x50a5, 0x60c6, 0x70e7,
     0x8108, 0x9129, 0xa14a, 0xb16b, 0xc18c, 0xd1ad, 0xe1ce, 0xf1ef,
     0x1231, 0x0210, 0x3273, 0x2252, 0x52b5, 0x4294, 0x72f7, 0x62d6,
     0x9339, 0x8318, 0xb37b, 0xa35a, 0xd3bd, 0xc39c, 0xf3ff, 0xe3de,
     0x2462, 0x3443, 0x0420, 0x1401, 0x64e6, 0x74c7, 0x44a4, 0x5485,
     0xa56a, 0xb54b, 0x8528, 0x9509, 0xe5ee, 0xf5cf, 0xc5ac, 0xd58d,
     0x3653, 0x2672, 0x1611, 0x0630, 0x76d7, 0x66f6, 0x5695, 0x46b4,
     0xb75b, 0xa77a, 0x9719, 0x8738, 0xf7df, 0xe7fe, 0xd79d, 0xc7bc,
     0x48c4, 0x58e5, 0x6886, 0x78a7, 0x0840, 0x1861, 0x2802, 0x3823,
     0xc9cc, 0xd9ed, 0xe98e, 0xf9af, 0x8948, 0x9969, 0xa90a, 0xb92b,
     0x5af5, 0x4ad4, 0x7ab7, 0x6a96, 0x1a71, 0x0a50, 0x3a33, 0x2a12,
     0xdbfd, 0xcbdc, 0xfbbf, 0xeb9e, 0x9b79, 0x8b58, 0xbb3b, 0xab1a,
     0x6ca6, 0x7c87, 0x4ce4, 0x5cc5, 0x2c22, 0x3c03, 0x0c60, 0x1c41,
     0xedae, 0xfd8f, 0xcdec, 0xddcd, 0xad2a, 0xbd0b, 0x8d68, 0x9d49,
     0x7e97, 0x6eb6, 0x5ed5, 0x4ef4, 0x3e13, 0x2e32, 0x1e51, 0x0e70,
     0xff9f, 0xefbe, 0xdfdd, 0xcffc, 0xbf1b, 0xaf3a, 0x9f59, 0x8f78,
     0x9188, 0x81a9, 0xb1ca, 0xa1eb, 0xd10c, 0xc12d, 0xf14e, 0xe16f,
     0x1080, 0x00a1, 0x30c2, 0x20e3, 0x5004, 0x4025, 0x7046, 0x6067,
     0x83b9, 0x9398, 0xa3fb, 0xb3da, 0xc33d, 0xd31c, 0xe37f, 0xf35e,
     0x02b1, 0x1290, 0x22f3, 0x32d2, 0x4235, 0x5214, 0x6277, 0x7256,
     0xb5ea, 0xa5cb, 0x95a8, 0x8589, 0xf56e, 0xe54f, 0xd52c, 0xc50d,
     0x34e2, 0x24c3, 0x14a0, 0x0481, 0x7466, 0x6447, 0x5424, 0x4405,
     0xa7db, 0xb7fa, 0x8799, 0x97b8, 0xe75f, 0xf77e, 0xc71d, 0xd73c,
     0x26d3, 0x36f2, 0x0691, 0x16b0, 0x6657, 0x7676, 0x4615, 0x5634,
     0xd94c, 0xc96d, 0xf90e, 0xe92f, 0x99c8, 0x89e9, 0xb98a, 0xa9ab,
     0x5844, 0x4865, 0x7806, 0x6827, 0x18c0, 0x08e1, 0x3882, 0x28a3,
     0xcb7d, 0xdb5c, 0xeb3f, 0xfb1e, 0x8bf9, 0x9bd8, 0xabbb, 0xbb9a,
     0x4a75, 0x5a54, 0x6a37, 0x7a16, 0x0af1, 0x1ad0, 0x2ab3, 0x3a92,
     0xfd2e, 0xed0f, 0xdd6c, 0xcd4d, 0xbdaa, 0xad8b, 0x9de8, 0x8dc9,
     0x7c26, 0x6c07, 0x5c64, 0x4c45, 0x3ca2, 0x2c83, 0x1ce0, 0x0cc1,
     0xef1f, 0xff3e, 0xcf5d, 0xdf7c, 0xaf9b, 0xbfba, 0x8fd9, 0x9ff8,
     0x6e17, 0x7e36, 0x4e55, 0x5e74, 0x2e93, 0x3eb2, 0x0ed1, 0x1ef0]"

definition crc16_step :: "u32 \<Rightarrow> byte \<Rightarrow> u32" where
  "crc16_step crc c =
     push_bit 8 crc XOR ucast (crc16tab ! unat ((drop_bit 8 crc XOR char_to c) AND 0x00ff))"

definition hash_crc16 :: "byte list \<Rightarrow> u32" where
  "hash_crc16 key = foldl crc16_step 0 key"

section \<open>CRC-32\<close>

definition crc32tab :: "u32 list" where
  "crc32tab =
    [
     0x00000000, 0x77073096, 0xee0e612c, 0x990951ba,
     0x076dc419, 0x706af48f, 0xe963a535, 0x9e6495a3,
     0x0edb8832, 0x79dcb8a4, 0xe0d5e91e, 0x97d2d988,
     0x09b64c2b, 0x7eb17cbd, 0xe7b82d07, 0x90bf1d91,
     0x1db71064, 0x6ab020f2, 0xf3b97148, 0x84be41de,
     0x1adad47d, 0x6ddde4eb, 0xf4d4b551, 0x83d385c7,
     0x136c9856, 0x646ba8c0, 0xfd62f97a, 0x8a65c9ec,
     0x14015c4f, 0x63066cd9, 0xfa0f3d63, 0x8d080df5,
     0x3b6e20c8, 0x4c69105e, 0xd56041e4, 0xa2677172,
     0x3c03e4d1, 0x4b04d447, 0xd20d85fd, 0xa50ab56b,
     0x35b5a8fa, 0x42b2986c, 0xdbbbc9d6, 0xacbcf940,
     0x32d86ce3, 0x45df5c75, 0xdcd60dcf, 0xabd13d59,
     0x26d930ac, 0x51de003a, 0xc8d75180, 0xbfd06116,
     0x21b4f4b5, 0x56b3c423, 0xcfba9599, 0xb8bda50f,
     0x2802b89e, 0x5f058808, 0xc60cd9b2, 0xb10be924,
     0x2f6f7c87, 0x58684c11, 0xc1611dab, 0xb6662d3d,
     0x76dc4190, 0x01db7106, 0x98d220bc, 0xefd5102a,
     0x71b18589, 0x06b6b51f, 0x9fbfe4a5, 0xe8b8d433,
     0x7807c9a2, 0x0f00f934, 0x9609a88e, 0xe10e9818,
     0x7f6a0dbb, 0x086d3d2d, 0x91646c97, 0xe6635c01,
     0x6b6b51f4, 0x1c6c6162, 0x856530d8, 0xf262004e,
     0x6c0695ed, 0x1b01a57b, 0x8208f4c1, 0xf50fc457,
     0x65b0d9c6, 0x12b7e950, 0x8bbeb8ea, 0xfcb9887c,
     0x62dd1ddf, 0x15da2d49, 0x8cd37cf3, 0xfbd44c65,
     0x4db26158, 0x3ab551ce, 0xa3bc0074, 0xd4bb30e2,
     0x4adfa541, 0x3dd895d7, 0xa4d1c46d, 0xd3d6f4fb,
     0x4369e96a, 0x346ed9fc, 0xad678846, 0xda60b8d0,
     0x44042d73, 0x33031de5, 0xaa0a4c5f, 0xdd0d7cc9,
     0x5005713c, 0x270241aa, 0xbe0b1010, 0xc90c2086,
     0x5768b525, 0x206f85b3, 0xb966d409, 0xce61e49f,
     0x5edef90e, 0x29d9c998, 0xb0d09822, 0xc7d7a8b4,
     0x59b33d17, 0x2eb40d81, 0xb7bd5c3b, 0xc0ba6cad,
     0xedb88320, 0x9abfb3b6, 0x03b6e20c, 0x74b1d29a,
     0xead54739, 0x9dd277af, 0x04db2615, 0x73dc1683,
     0xe3630b12, 0x94643b84, 0x0d6d6a3e, 0x7a6a5aa8,
     0xe40ecf0b, 0x9309ff9d, 0x0a00ae27, 0x7d079eb1,
     0xf00f9344, 0x8708a3d2, 0x1e01f268, 0x6906c2fe,
     0xf762575d, 0x806567cb, 0x196c3671, 0x6e6b06e7,
     0xfed41b76, 0x89d32be0, 0x10da7a5a, 0x67dd4acc,
     0xf9b9df6f, 0x8ebeeff9, 0x17b7be43, 0x60b08ed5,
     0xd6d6a3e8, 0xa1d1937e, 0x38d8c2c4, 0x4fdff252,
     0xd1bb67f1, 0xa6bc5767, 0x3fb506dd, 0x48b2364b,
     0xd80d2bda, 0xaf0a1b4c, 0x36034af6, 0x41047a60,
     0xdf60efc3, 0xa867df55, 0x316e8eef, 0x4669be79,
     0xcb61b38c, 0xbc66831a, 0x256fd2a0, 0x5268e236,
     0xcc0c7795, 0xbb0b4703, 0x220216b9, 0x5505262f,
     0xc5ba3bbe, 0xb2bd0b28, 0x2bb45a92, 0x5cb36a04,
     0xc2d7ffa7, 0xb5d0cf31, 0x2cd99e8b, 0x5bdeae1d,
     0x9b64c2b0, 0xec63f226, 0x756aa39c, 0x026d930a,
     0x9c0906a9, 0xeb0e363f, 0x72076785, 0x05005713,
     0x95bf4a82, 0xe2b87a14, 0x7bb12bae, 0x0cb61b38,
     0x92d28e9b, 0xe5d5be0d, 0x7cdcefb7, 0x0bdbdf21,
     0x86d3d2d4, 0xf1d4e242, 0x68ddb3f8, 0x1fda836e,
     0x81be16cd, 0xf6b9265b, 0x6fb077e1, 0x18b74777,
     0x88085ae6, 0xff0f6a70, 0x66063bca, 0x11010b5c,
     0x8f659eff, 0xf862ae69, 0x616bffd3, 0x166ccf45,
     0xa00ae278, 0xd70dd2ee, 0x4e048354, 0x3903b3c2,
     0xa7672661, 0xd06016f7, 0x4969474d, 0x3e6e77db,
     0xaed16a4a, 0xd9d65adc, 0x40df0b66, 0x37d83bf0,
     0xa9bcae53, 0xdebb9ec5, 0x47b2cf7f, 0x30b5ffe9,
     0xbdbdf21c, 0xcabac28a, 0x53b39330, 0x24b4a3a6,
     0xbad03605, 0xcdd70693, 0x54de5729, 0x23d967bf,
     0xb3667a2e, 0xc4614ab8, 0x5d681b02, 0x2a6f2b94,
     0xb40bbe37, 0xc30c8ea1, 0x5a05df1b, 0x2d02ef8d]"

definition crc32_step :: "u32 \<Rightarrow> byte \<Rightarrow> u32" where
  "crc32_step crc c =
     drop_bit 8 crc XOR crc32tab ! unat ((ucast crc XOR (char_to c :: u64)) AND 0xff)"

definition hash_crc32 :: "byte list \<Rightarrow> u32" where
  "hash_crc32 key = drop_bit 16 (NOT (foldl crc32_step (- 1) key)) AND 0x7fff"

definition crc32a_step :: "u32 \<Rightarrow> byte \<Rightarrow> u32" where
  "crc32a_step crc p = crc32tab ! unat ((crc XOR uchar_to p) AND 0xFF) XOR drop_bit 8 crc"

definition hash_crc32a :: "byte list \<Rightarrow> u32" where
  "hash_crc32a key = foldl crc32a_step (NOT 0) key XOR NOT 0"

section \<open>Mixing steps\<close>

text \<open>
  The contract the loops share: the body is one-to-one in the state for every byte and in the
  byte for every state, and so is the finalisation. Then two keys that differ in one byte never
  collide, however long what follows it.
\<close>

locale mixing_hash =
  fixes step :: "'s \<Rightarrow> byte \<Rightarrow> 's" and fin :: "'s \<Rightarrow> 'h"
  assumes step_state: "step s c = step t c \<Longrightarrow> s = t"
    and step_byte: "step s c = step s d \<Longrightarrow> c = d"
    and fin_inj: "fin s = fin t \<Longrightarrow> s = t"
begin

lemma foldl_state: "foldl step s cs = foldl step t cs \<Longrightarrow> s = t"
  by (induction cs arbitrary: s t) (auto dest: step_state)

lemma one_byte:
  assumes "fin (foldl step s (xs @ c # ys)) = fin (foldl step s (xs @ d # ys))"
  shows "c = d"
proof -
  from fin_inj [OF assms] have
    "foldl step (step (foldl step s xs) c) ys = foldl step (step (foldl step s xs) d) ys"
    by simp
  then have "step (foldl step s xs) c = step (foldl step s xs) d" by (rule foldl_state)
  then show ?thesis by (rule step_byte)
qed

text \<open>A common suffix neither makes nor hides a collision of keys.\<close>

lemma suffix_iff:
  "fin (foldl step s (xs @ zs)) = fin (foldl step s (ys @ zs))
    \<longleftrightarrow> foldl step s xs = foldl step s ys"
  by (auto dest!: fin_inj dest: foldl_state)

end

subsection \<open>FNV\<close>

lemma FNV_32_PRIME_odd: "FNV_32_PRIME * 899433627 = 1"
  by (simp add: FNV_32_PRIME_def)

lemma FNV_64_PRIME_low_odd: "(ucast FNV_64_PRIME :: u32) * 2952172923 = 1"
  by (simp add: FNV_64_PRIME_def)

text \<open>The low half of the 64-bit FNV-1 state, computed on its own.\<close>

definition fnv1_64_low_step :: "u32 \<Rightarrow> byte \<Rightarrow> u32" where
  "fnv1_64_low_step hash c = (hash * ucast FNV_64_PRIME) XOR char_to c"

lemma hash_fnv1_64_low:
  "hash_fnv1_64 key = foldl fnv1_64_low_step (ucast FNV_64_INIT) key"
  unfolding hash_fnv1_64_def
  by (rule foldl_cong_step [symmetric])
    (simp add: fnv1_64_low_step_def fnv1_64_step_def ucast_mult ucast_xor ucast_scast)

interpretation fnv1_64: mixing_hash fnv1_64_low_step id
  by unfold_locales
    (auto simp: fnv1_64_low_step_def intro: mult_inj [OF FNV_64_PRIME_low_odd])

interpretation fnv1a_64: mixing_hash fnv1a_64_step id
  by unfold_locales
    (auto simp: fnv1a_64_step_def dest!: mult_inj [OF FNV_64_PRIME_low_odd])

interpretation fnv1_32: mixing_hash fnv1_32_step id
  by unfold_locales
    (auto simp: fnv1_32_step_def intro: mult_inj [OF FNV_32_PRIME_odd])

interpretation fnv1a_32: mixing_hash fnv1a_32_step id
  by unfold_locales
    (auto simp: fnv1a_32_step_def dest!: mult_inj [OF FNV_32_PRIME_odd])

subsection \<open>One at a time\<close>

lemma add_push_bit_inj: "(2 ^ k + 1) * (i::u32) = 1 \<Longrightarrow> x + push_bit k x = y + push_bit k y \<Longrightarrow> x = y"
  for x y :: u32
  using mult_inj [of "2 ^ k + 1" i x y] by (simp add: push_bit_mult algebra_simps)

lemma oaat_10: "x + push_bit 10 x = y + push_bit 10 y \<Longrightarrow> x = y" for x y :: u32
  by (rule add_push_bit_inj [where i = 3222273025]) simp_all

lemma oaat_3: "x + push_bit 3 x = y + push_bit 3 y \<Longrightarrow> x = y" for x y :: u32
  by (rule add_push_bit_inj [where i = 954437177]) simp_all

lemma oaat_15: "x + push_bit 15 x = y + push_bit 15 y \<Longrightarrow> x = y" for x y :: u32
  by (rule add_push_bit_inj [where i = 1073709057]) simp_all

lemma oaat_mix: "oaat_step s c = oaat_step t d \<Longrightarrow> s + scast c = t + scast d"
  unfolding oaat_step_def Let_def by (drule xor_drop_bit_inj [rotated]) (auto dest: oaat_10)

lemma oaat_final_inj: "oaat_final s = oaat_final t \<Longrightarrow> s = t"
  unfolding oaat_final_def Let_def
  by (drule oaat_15, drule xor_drop_bit_inj [rotated]) (auto dest: oaat_3)

interpretation oaat: mixing_hash oaat_step oaat_final
  by unfold_locales (auto dest: oaat_mix oaat_final_inj)

section \<open>The CRC tables\<close>

text \<open>
  A CRC table is linear: it is the doubling of its eight entries at powers of two. The reference
  divides bit by bit, with no table.
\<close>

primrec double_table :: "'a::len word list \<Rightarrow> 'a word list" where
  "double_table [] = [0]"
| "double_table (b # bs) = (let t = double_table bs in t @ map (\<lambda>x. x XOR b) t)"

lemma of_nat_add_pow:
  assumes "n < 2 ^ k" "k < LENGTH('a)"
  shows "(word_of_nat (n + 2 ^ k) :: 'a::len word) = word_of_nat n XOR 2 ^ k"
proof -
  have "n AND 2 ^ k = 0"
    using assms(1) by (metis and_exp_eq_0_iff_not_bit bit_nat_iff bit_take_bit_iff less_irrefl take_bit_nat_eq_self)
  then have "n + 2 ^ k = n XOR 2 ^ k"
    by (simp add: disjunctive_add_eq_xor)
  then show ?thesis
    by (intro bit_word_eqI) (auto simp: bit_simps)
qed

lemma double_table_linear:
  fixes f :: "'a::len word \<Rightarrow> 'b::len word"
  assumes lin: "\<And>x y. f (x XOR y) = f x XOR f y"
  shows "k \<le> LENGTH('a) \<Longrightarrow> double_table (map (\<lambda>i. f (2 ^ i)) (rev [0..<k])) = map (\<lambda>n. f (word_of_nat n)) [0..<2 ^ k]"
proof (induction k)
  case 0
  have "f 0 = 0" using lin [of 0 0] by simp
  then show ?case by simp
next
  case (Suc k)
  let ?t = "map (\<lambda>n. f (word_of_nat n)) [0..<2 ^ k]"
  have "[0..<2 ^ Suc k] = [0..<2 ^ k] @ [2 ^ k..<2 ^ k + 2 ^ k]"
    by (simp only: power_Suc mult_2) (rule upt_add_eq_append, simp)
  also have "[2 ^ k..<2 ^ k + 2 ^ k] = map (\<lambda>n. n + 2 ^ k) [0..<2 ^ k]"
    by (simp add: map_add_upt)
  finally have "map (\<lambda>n. f (word_of_nat n)) [0..<2 ^ Suc k]
      = ?t @ map (\<lambda>n. f (word_of_nat (n + 2 ^ k))) [0..<2 ^ k]"
    by (simp only: map_append map_map o_def)
  also have "map (\<lambda>n. f (word_of_nat (n + 2 ^ k))) [0..<2 ^ k] = map (\<lambda>x. x XOR f (2 ^ k)) ?t"
    using Suc.prems by (simp add: of_nat_add_pow lin del: of_nat_add)
  finally show ?case using Suc by (simp add: Let_def)
qed

lemma funpow_linear:
  fixes f :: "'a::len word \<Rightarrow> 'a word"
  assumes "\<And>x y. f (x XOR y) = f x XOR f y"
  shows "(f ^^ k) (x XOR y) = (f ^^ k) x XOR (f ^^ k) y"
  by (induction k) (simp_all add: assms)

lemma funpow_8: "(f ^^ 8) x = f (f (f (f (f (f (f (f x)))))))"
  by (simp add: eval_nat_numeral)

lemma upt_8: "rev [0..<8] = [7, 6, 5, 4, 3, 2, 1, 0]"
  by code_simp

lemma table_entry:
  fixes f :: "'a::len word \<Rightarrow> 'b::len word"
  assumes "\<And>x y. f (x XOR y) = f x XOR f y" "8 \<le> LENGTH('a)" "n < 256"
  shows "double_table (map (\<lambda>i. f (2 ^ i)) (rev [0..<8])) ! n = f (word_of_nat n)"
  using double_table_linear [where f = f and k = 8] assms by simp

subsection \<open>CRC-32\<close>

text \<open>One bit of the division by the reflected polynomial.\<close>

definition crc32_bit :: "u32 \<Rightarrow> u32" where
  "crc32_bit c = (if bit c 0 then drop_bit 1 c XOR 0xEDB88320 else drop_bit 1 c)"

lemma crc32_bit_xor: "crc32_bit (x XOR y) = crc32_bit x XOR crc32_bit y"
  by (simp add: crc32_bit_def bit_xor_iff ac_simps)

lemma crc32_basis:
  "map (\<lambda>i. (crc32_bit ^^ 8) (2 ^ i)) (rev [0..<8])
    = [0xedb88320, 0x76dc4190, 0x3b6e20c8, 0x1db71064, 0x0edb8832, 0x076dc419, 0xee0e612c, 0x77073096]"
  by (simp add: upt_8 funpow_8 crc32_bit_def)

lemma crc32tab_double: "crc32tab = double_table
  [0xedb88320, 0x76dc4190, 0x3b6e20c8, 0x1db71064, 0x0edb8832, 0x076dc419, 0xee0e612c, 0x77073096]"
  by (simp add: crc32tab_def Let_def)

lemma crc32tab_bits: "n < 256 \<Longrightarrow> crc32tab ! n = (crc32_bit ^^ 8) (word_of_nat n)"
  unfolding crc32tab_double crc32_basis [symmetric]
  by (rule table_entry) (simp_all add: funpow_linear [OF crc32_bit_xor])

lemma crc32_bits_shift:
  "take_bit k x = 0 \<Longrightarrow> (crc32_bit ^^ k) x = drop_bit k x"
proof (induction k arbitrary: x)
  case 0
  then show ?case by simp
next
  case (Suc k)
  have "\<not> bit (take_bit (Suc k) x) 0" using Suc.prems by simp
  then have "\<not> bit x 0" by (simp only: bit_take_bit_iff) simp
  then have even: "crc32_bit x = drop_bit 1 x" by (simp only: crc32_bit_def if_False)
  have "take_bit k (drop_bit 1 x) = drop_bit 1 (take_bit (Suc k) x)"
    by (simp add: drop_bit_take_bit)
  then have "(crc32_bit ^^ k) (drop_bit 1 x) = drop_bit k (drop_bit 1 x)"
    using Suc.IH Suc.prems by simp
  then show ?case by (simp only: funpow_Suc_right o_apply even) simp
qed

lemma byte_split: "x = ucast (ucast x :: byte) XOR (x AND NOT (mask 8))" for x :: u32
  by (rule bit_word_eqI) (auto simp: bit_simps)

lemma low_byte_index: "unat (x AND 0xFF) = unat (ucast x :: byte)" for x :: "'a::len word"
proof -
  have "x AND 0xFF = take_bit 8 x" by (simp add: take_bit_eq_mask mask_numeral)
  then show ?thesis by (simp only: unsigned_take_bit_eq unsigned_ucast_eq) simp
qed

lemma byte_index: "unat (b :: byte) < 256"
  using unsigned_less [of b] by simp

text \<open>One table step is eight bit steps.\<close>

lemma crc32a_step_bits: "crc32a_step crc p = (crc32_bit ^^ 8) (crc XOR ucast p)"
proof -
  let ?x = "crc XOR ucast p :: u32"
  let ?h = "?x AND NOT (mask 8)"
  have "(crc32_bit ^^ 8) ?x = (crc32_bit ^^ 8) (ucast (ucast ?x :: byte) XOR ?h)"
    using byte_split [of ?x] by simp
  also have "\<dots> = (crc32_bit ^^ 8) (ucast (ucast ?x :: byte)) XOR (crc32_bit ^^ 8) ?h"
    by (rule funpow_linear [OF crc32_bit_xor])
  also have "(crc32_bit ^^ 8) ?h = drop_bit 8 ?h"
    by (rule crc32_bits_shift) (rule bit_word_eqI, auto simp: bit_simps)
  also have "\<dots> = drop_bit 8 crc"
    by (rule bit_word_eqI) (auto simp: bit_simps dest: bit_imp_le_length)
  also have "(crc32_bit ^^ 8) (ucast (ucast ?x :: byte)) = crc32tab ! unat (?x AND 0xFF)"
    by (simp only: low_byte_index crc32tab_bits [OF byte_index]) simp
  finally show ?thesis by (simp add: crc32a_step_def)
qed

lemma crc32_step_eq: "crc32_step crc c = crc32a_step crc c"
proof -
  have "unat ((ucast crc XOR (scast c :: u64)) AND 0xff) = unat ((crc XOR ucast c) AND 0xFF)"
    unfolding low_byte_index
    by (rule arg_cong [where f = unat]) (rule bit_word_eqI, auto simp: bit_simps)
  then show ?thesis by (simp add: crc32_step_def crc32a_step_def xor.commute)
qed

lemma crc32_bit_inj: "crc32_bit x = crc32_bit y \<Longrightarrow> x = y"
proof -
  assume e: "crc32_bit x = crc32_bit y"
  have top: "bit (crc32_bit z) 31 \<longleftrightarrow> bit z 0" for z
    by (auto simp: crc32_bit_def bit_simps dest: bit_imp_le_length)
  from e have low: "bit x 0 \<longleftrightarrow> bit y 0" using top [of x] top [of y] by simp
  with e have "drop_bit 1 x = drop_bit 1 y" by (simp add: crc32_bit_def split: if_splits)
  then have "bit x (Suc n) \<longleftrightarrow> bit y (Suc n)" for n
    by (metis bit_drop_bit_eq o_apply plus_1_eq_Suc)
  with low show "x = y" by (intro bit_word_eqI) (metis not0_implies_Suc)
qed

lemma crc32_bits_inj: "(crc32_bit ^^ k) x = (crc32_bit ^^ k) y \<Longrightarrow> x = y"
  by (induction k) (auto dest: crc32_bit_inj)

interpretation crc32a: mixing_hash crc32a_step "\<lambda>crc. crc XOR NOT 0"
  by unfold_locales (auto simp: crc32a_step_bits dest!: crc32_bits_inj)

subsection \<open>CRC-16\<close>

definition crc16_bit :: "u16 \<Rightarrow> u16" where
  "crc16_bit c = (if bit c 15 then push_bit 1 c XOR 0x1021 else push_bit 1 c)"

lemma crc16_bit_xor: "crc16_bit (x XOR y) = crc16_bit x XOR crc16_bit y"
  by (simp add: crc16_bit_def bit_xor_iff ac_simps push_bit_xor)

lemma crc16_basis:
  "map (\<lambda>i. (crc16_bit ^^ 8) (push_bit 8 (2 ^ i))) (rev [0..<8])
    = [0x9188, 0x48c4, 0x2462, 0x1231, 0x8108, 0x4084, 0x2042, 0x1021]"
  by (simp add: upt_8 funpow_8 crc16_bit_def)

lemma crc16tab_double: "crc16tab = double_table [0x9188, 0x48c4, 0x2462, 0x1231, 0x8108, 0x4084, 0x2042, 0x1021]"
  by (simp add: crc16tab_def Let_def)

lemma crc16tab_bits: "n < 256 \<Longrightarrow> crc16tab ! n = (crc16_bit ^^ 8) (push_bit 8 (word_of_nat n))"
  unfolding crc16tab_double crc16_basis [symmetric]
  by (rule table_entry) (simp_all add: funpow_linear [OF crc16_bit_xor] push_bit_xor)

lemma crc16_bits_shift:
  "drop_bit (16 - k) x = 0 \<Longrightarrow> k \<le> 16 \<Longrightarrow> (crc16_bit ^^ k) x = push_bit k x"
proof (induction k arbitrary: x)
  case 0
  then show ?case by simp
next
  case (Suc k)
  have top: "\<not> bit x n" if "16 - Suc k \<le> n" for n
  proof -
    have "\<not> bit (drop_bit (16 - Suc k) x) (n - (16 - Suc k))" using Suc.prems by simp
    with that show ?thesis by (simp add: bit_drop_bit_eq)
  qed
  then have even: "crc16_bit x = push_bit 1 x" using Suc.prems by (simp add: crc16_bit_def)
  have "drop_bit (16 - k) (push_bit 1 x) = 0"
    using top Suc.prems
    by (intro bit_word_eqI) (simp only: bit_drop_bit_eq o_apply bit_push_bit_iff, simp)
  then have "(crc16_bit ^^ k) (push_bit 1 x) = push_bit k (push_bit 1 x)"
    using Suc.IH Suc.prems by simp
  then show ?case by (simp only: funpow_Suc_right o_apply even) (simp add: push_bit_push_bit)
qed

text \<open>The 16-bit checksum: shift the register left, bit by bit, over the next byte.\<close>

definition crc16_ref :: "u16 \<Rightarrow> byte \<Rightarrow> u16" where
  "crc16_ref crc c = (crc16_bit ^^ 8) (crc XOR push_bit 8 (ucast c))"

lemma crc16_step_ref: "(ucast (crc16_step crc c) :: u16) = crc16_ref (ucast crc) c"
proof -
  let ?y = "ucast crc XOR push_bit 8 (ucast c) :: u16"
  let ?b = "ucast (drop_bit 8 ?y) :: byte"
  have idx: "unat ((drop_bit 8 crc XOR scast c) AND 0x00ff) = unat ?b"
    unfolding low_byte_index
    by (rule arg_cong [where f = unat]) (rule bit_word_eqI, auto simp: bit_simps)
  have split: "?y = push_bit 8 (ucast ?b) XOR (ucast crc AND mask 8)"
    by (rule bit_word_eqI) (auto simp: bit_simps not_less)
  have "crc16_ref (ucast crc) c = (crc16_bit ^^ 8) (push_bit 8 (ucast ?b)) XOR (crc16_bit ^^ 8) (ucast crc AND mask 8)"
    unfolding crc16_ref_def by (subst split) (rule funpow_linear [OF crc16_bit_xor])
  also have "(crc16_bit ^^ 8) (ucast crc AND mask 8) = push_bit 8 (ucast crc AND mask 8)"
    by (rule crc16_bits_shift) (rule bit_word_eqI, auto simp: bit_simps)
  also have "(crc16_bit ^^ 8) (push_bit 8 (ucast ?b)) = crc16tab ! unat ?b"
    by (simp only: crc16tab_bits [OF byte_index]) simp
  finally show ?thesis
    unfolding crc16_step_def idx
    by (intro bit_word_eqI) (auto simp: bit_simps)
qed

section \<open>Properties\<close>

text \<open>For the four FNV variants, one-at-a-time and CRC-32, two keys that agree everywhere but in
  one byte always have different hash values, whatever the position of the byte and the rest.\<close>
theorem one_byte_never_collides:
  "(hash_fnv1_64 (xs @ c # ys) = hash_fnv1_64 (xs @ d # ys) \<longleftrightarrow> c = d)
   \<and> (hash_fnv1a_64 (xs @ c # ys) = hash_fnv1a_64 (xs @ d # ys) \<longleftrightarrow> c = d)
   \<and> (hash_fnv1_32 (xs @ c # ys) = hash_fnv1_32 (xs @ d # ys) \<longleftrightarrow> c = d)
   \<and> (hash_fnv1a_32 (xs @ c # ys) = hash_fnv1a_32 (xs @ d # ys) \<longleftrightarrow> c = d)
   \<and> (hash_one_at_a_time (xs @ c # ys) = hash_one_at_a_time (xs @ d # ys) \<longleftrightarrow> c = d)
   \<and> (hash_crc32a (xs @ c # ys) = hash_crc32a (xs @ d # ys) \<longleftrightarrow> c = d)"
  unfolding hash_fnv1_64_low hash_fnv1a_64_def hash_fnv1_32_def hash_fnv1a_32_def
    hash_one_at_a_time_def hash_crc32a_def
  using fnv1_64.one_byte [of _ xs c ys d] fnv1a_64.one_byte [of _ xs c ys d]
    fnv1_32.one_byte [of _ xs c ys d] fnv1a_32.one_byte [of _ xs c ys d]
    oaat.one_byte [of _ xs c ys d] crc32a.one_byte [of _ xs c ys d]
  by (auto simp del: foldl_append)

text \<open>C32: \<open>hash_crc32a\<close> is the CRC-32 of the key by bitwise polynomial division: the 256 table
  entries are the eight-bit remainders. \<open>hash_crc32\<close>, which indexes the table with sign-extended
  bytes and shifts, is bits 16 to 30 of it.\<close>
theorem crc32_is_division:
  "hash_crc32a key = foldl (\<lambda>crc c. (crc32_bit ^^ 8) (crc XOR ucast c)) (NOT 0) key XOR NOT 0
   \<and> hash_crc32 key = drop_bit 16 (hash_crc32a key) AND 0x7fff"
proof
  have step: "crc32a_step = (\<lambda>crc c. (crc32_bit ^^ 8) (crc XOR ucast c))"
    by (intro ext) (rule crc32a_step_bits)
  show "hash_crc32a key = foldl (\<lambda>crc c. (crc32_bit ^^ 8) (crc XOR ucast c)) (NOT 0) key XOR NOT 0"
    by (simp only: hash_crc32a_def step)
  have "crc32_step = crc32a_step" by (intro ext) (rule crc32_step_eq)
  then show "hash_crc32 key = drop_bit 16 (hash_crc32a key) AND 0x7fff"
    by (simp add: hash_crc32_def hash_crc32a_def)
qed

text \<open>The low 16 bits of \<open>hash_crc16\<close> are the CRC-16 of the key with polynomial 0x1021, computed
  bit by bit; the table and the unmasked 32-bit register do not change them.\<close>
theorem crc16_is_division:
  "(ucast (hash_crc16 key) :: u16) = foldl crc16_ref 0 key"
  unfolding hash_crc16_def
  using foldl_cong_step [where h = "ucast :: u32 \<Rightarrow> u16" and step' = crc16_step and step = crc16_ref
      and s = 0 and cs = key]
  by (simp add: crc16_step_ref)

end
