(* ===== verification/RedisPool.thy ===== *)
theory RedisPool
  imports Decimal Hiredis HashKit
begin

text \<open>
  \<open>ProxyServer/Configure.h\<close>, \<open>Configure.cc\<close> and \<open>ProxyServer/DAL/HiredisPool.h\<close>, \<open>HiredisPool.cc\<close>: the
  configuration read from a YAML file, and the pool of redis clients, one for each configured server.
  The YAML library is a record of functions on its nodes; a conversion that throws is \<open>None\<close>.
\<close>

section \<open>Configuration\<close>

record 'n yaml =
  IsNull :: "'n \<Rightarrow> bool"
  at_key :: "'n \<Rightarrow> string \<Rightarrow> 'n"
  IsDefined :: "'n \<Rightarrow> bool"
  elements :: "'n \<Rightarrow> 'n list"
  as_uint16 :: "'n \<Rightarrow> u16 option"
  as_string :: "'n \<Rightarrow> byte list option"
  as_bool :: "'n \<Rightarrow> bool option"

record 'n configure =
  root :: 'n
  logLevel :: nat
  preConnection :: bool
  nconn :: int
  listenAddr :: InetAddress
  serverAddrs :: "InetAddress list"

definition LISTEN_PORT :: u16 where "LISTEN_PORT = 7070"

text \<open>\<open>muduo::Logger::DEBUG\<close>; an \<open>InetAddress\<close> of a port alone is bound to every interface.\<close>

definition any_address :: "byte list" where "any_address = ascii ''0.0.0.0''"

definition Configure :: "(byte list \<Rightarrow> 'n option) \<Rightarrow> byte list \<Rightarrow> 'n configure option" where
  "Configure LoadFile confFile = do {
     node \<leftarrow> LoadFile confFile;
     Some \<lparr>root = node, logLevel = 1, preConnection = True, nconn = 1,
       listenAddr = \<lparr>ip = any_address, port = LISTEN_PORT\<rparr>, serverAddrs = []\<rparr>
   }"

definition open_file :: "(byte list \<Rightarrow> 'n option) \<Rightarrow> byte list \<Rightarrow> 'n configure \<Rightarrow> 'n configure option" where
  "open_file LoadFile fileName c = map_option (\<lambda>node. c\<lparr>root := node\<rparr>) (LoadFile fileName)"

text \<open>A conversion error is an exception, the missing server list a fatal log message.\<close>

datatype conf_error = BadConversion | NoRedisAddress

definition convert :: "'a option \<Rightarrow> conf_error + 'a" where
  "convert r = (case r of None \<Rightarrow> Inl BadConversion | Some x \<Rightarrow> Inr x)"

definition sbind :: "'e + 'a \<Rightarrow> ('a \<Rightarrow> 'e + 'b) \<Rightarrow> 'e + 'b" where
  "sbind r f = (case r of Inl e \<Rightarrow> Inl e | Inr x \<Rightarrow> f x)"

lemma sbind_simps [simp]: "sbind (Inl e) f = Inl e" "sbind (Inr x) f = f x"
  by (simp_all add: sbind_def)

lemma convert_simps [simp]: "convert None = Inl BadConversion" "convert (Some x) = Inr x"
  by (simp_all add: convert_def)

definition server_of :: "'n yaml \<Rightarrow> 'n \<Rightarrow> conf_error + InetAddress" where
  "server_of Y it =
     sbind (convert (as_string Y (at_key Y it ''ip''))) (\<lambda>a.
     sbind (convert (as_uint16 Y (at_key Y it ''port''))) (\<lambda>p. Inr \<lparr>ip = a, port = p\<rparr>))"

primrec add_servers :: "'n yaml \<Rightarrow> 'n list \<Rightarrow> InetAddress list \<Rightarrow> conf_error + InetAddress list" where
  "add_servers Y [] addrs = Inr addrs"
| "add_servers Y (it # its) addrs = sbind (server_of Y it) (\<lambda>a. add_servers Y its (addrs @ [a]))"

definition parse_conf :: "'n yaml \<Rightarrow> 'n configure \<Rightarrow> conf_error + 'n configure" where
  "parse_conf Y c =
     (if IsNull Y (root c) then Inr c
      else
        let ip_node = at_key Y (root c) ''listen'';
            port_node = at_key Y (root c) ''listen_port''
        in sbind (if IsDefined Y port_node then convert (as_uint16 Y port_node) else Inr LISTEN_PORT) (\<lambda>nport.
           sbind (if IsDefined Y ip_node then convert (as_string Y ip_node) else Inr any_address) (\<lambda>ipStr.
           let c = c\<lparr>listenAddr := \<lparr>ip = ipStr, port = nport\<rparr>\<rparr>;
               addr = at_key Y (root c) ''redis_servers''
           in sbind (if IsDefined Y addr then add_servers Y (elements Y addr) (serverAddrs c) else Inl NoRedisAddress) (\<lambda>addrs.
              let c = c\<lparr>serverAddrs := addrs\<rparr>;
                  pre = at_key Y (root c) ''preconnection''
              in if IsDefined Y pre
                 then sbind (convert (as_bool Y pre)) (\<lambda>b. Inr (c\<lparr>preConnection := b\<rparr>))
                 else Inr c))))"

definition preConnect :: "'n configure \<Rightarrow> bool" where "preConnect c = preConnection c"

definition getListenAddr :: "'n configure \<Rightarrow> InetAddress" where "getListenAddr c = listenAddr c"

definition getServerAddrs :: "'n configure \<Rightarrow> InetAddress list" where "getServerAddrs c = serverAddrs c"

definition getLogLevel :: "'n configure \<Rightarrow> nat" where "getLogLevel c = logLevel c"

definition getPerServerConnNum :: "'n configure \<Rightarrow> int" where "getPerServerConnNum c = nconn c"

section \<open>The pool\<close>

text \<open>\<open>hashFun_\<close> is \<open>hash_fnv1_64\<close>; the \<open>shared_ptr\<close>s of \<open>clients_\<close> are never null.\<close>

record 'cb hpool =
  conf_preConnect :: bool
  poolSize :: int
  clients :: "'cb hiredis list"

text \<open>The loop of the constructor, with the running server id.\<close>

primrec emplace_clients :: "InetAddress list \<Rightarrow> int \<Rightarrow> int \<Rightarrow> 'cb hiredis list \<Rightarrow> 'cb hiredis list" where
  "emplace_clients [] perServerConn i cs = cs"
| "emplace_clients (addr # addrs) perServerConn i cs =
     emplace_clients addrs perServerConn (i + 1) (cs @ [setServerId i (new_hiredis addr perServerConn)])"

definition HiredisPool :: "'n configure \<Rightarrow> 'cb hpool option" where
  "HiredisPool conf = do {
     let addrs = getServerAddrs conf;
     assert_that (addrs \<noteq> []);
     Some \<lparr>conf_preConnect = preConnect conf, poolSize = int (length addrs),
       clients = emplace_clients addrs (getPerServerConnNum conf) 0 []\<rparr>
   }"

definition pool_setConnectCallback :: "'cb hpool \<Rightarrow> 'cb hpool" where
  "pool_setConnectCallback pool = pool\<lparr>clients := map setConnectCallback (clients pool)\<rparr>"

definition pool_setDisconnectCallback :: "'cb hpool \<Rightarrow> 'cb hpool" where
  "pool_setDisconnectCallback pool = pool\<lparr>clients := map setDisconnectCallback (clients pool)\<rparr>"

definition getPoolSize :: "'cb hpool \<Rightarrow> int" where "getPoolSize pool = poolSize pool"

text \<open>\<open>rac i\<close> stands for the calls of \<open>redisAsyncConnect\<close> by client \<open>i\<close>, with its address.\<close>

primrec connect_clients :: "(nat \<Rightarrow> InetAddress \<Rightarrow> int \<Rightarrow> int) \<Rightarrow> nat \<Rightarrow> 'cb hiredis list \<Rightarrow> 'cb hiredis list option" where
  "connect_clients rac i [] = Some []"
| "connect_clients rac i (h # hs) = do {
     h \<leftarrow> connect (rac i) h;
     hs \<leftarrow> connect_clients rac (Suc i) hs;
     Some (h # hs)
   }"

definition pool_connect :: "(nat \<Rightarrow> InetAddress \<Rightarrow> int \<Rightarrow> int) \<Rightarrow> 'cb hpool \<Rightarrow> 'cb hpool option" where
  "pool_connect rac pool =
     (if conf_preConnect pool
      then map_option (\<lambda>hs. pool\<lparr>clients := hs\<rparr>) (connect_clients rac 0 (clients pool))
      else Some pool)"

text \<open>The remainder is computed on \<open>uint32_t\<close>, to which \<open>poolSize_\<close> is converted.\<close>

definition getHiredis :: "byte list \<Rightarrow> 'cb hpool \<Rightarrow> nat" where
  "getHiredis key pool = unat (hash_fnv1_64 key mod word_of_int (poolSize pool))"

section \<open>The pool and its clients\<close>

definition pool_ok :: "'cb hpool \<Rightarrow> bool" where
  "pool_ok pool \<longleftrightarrow> poolSize pool = int (length (clients pool)) \<and> 0 < length (clients pool)
     \<and> length (clients pool) < 2 ^ 31
     \<and> (\<forall>i<length (clients pool). serverId (clients pool ! i) = int i)"

lemma emplace_clients_eq:
  "emplace_clients addrs k i cs = cs @ map (\<lambda>j. setServerId (i + int j) (new_hiredis (addrs ! j) k)) [0..<length addrs]"
proof (induction addrs arbitrary: i cs)
  case (Cons a addrs)
  have "map (\<lambda>j. setServerId (i + int j) (new_hiredis ((a # addrs) ! j) k)) [0..<Suc (length addrs)]
      = setServerId i (new_hiredis a k) # map (\<lambda>j. setServerId (i + 1 + int j) (new_hiredis (addrs ! j) k)) [0..<length addrs]"
    by (simp add: upt_conv_Cons map_Suc_upt [symmetric] comp_def add.assoc del: upt_Suc)
  from this [symmetric] show ?case by (simp add: Cons.IH del: upt_Suc)
qed simp

text \<open>The clients in the order of the addresses, numbered from \<open>k\<close>.\<close>

definition fresh_clients :: "InetAddress list \<Rightarrow> int \<Rightarrow> nat \<Rightarrow> 'cb hiredis list \<Rightarrow> bool" where
  "fresh_clients addrs n k hs \<longleftrightarrow> length hs = length addrs
     \<and> (\<forall>i<length hs. hs ! i = setServerId (int (k + i)) (new_hiredis (addrs ! i) n))"

lemma HiredisPool_ok:
  assumes "getServerAddrs conf \<noteq> []" "length (getServerAddrs conf) < 2 ^ 31"
  shows "\<exists>pool :: 'cb hpool. HiredisPool conf = Some pool \<and> pool_ok pool
    \<and> fresh_clients (getServerAddrs conf) (getPerServerConnNum conf) 0 (clients pool)"
  using assms
  by (simp add: HiredisPool_def pool_ok_def fresh_clients_def emplace_clients_eq Let_def setServerId_def)

lemma getHiredis_bound: "pool_ok pool \<Longrightarrow> getHiredis key pool < length (clients pool)"
proof -
  assume "pool_ok pool"
  then have "unat (word_of_int (poolSize pool) :: u32) = length (clients pool)" "0 < length (clients pool)"
    by (simp_all add: pool_ok_def unat_of_nat)
  then show ?thesis by (simp add: getHiredis_def unat_mod)
qed

lemma fresh_clients_Cons:
  "fresh_clients addrs n k (h # hs) \<longleftrightarrow> (\<exists>a as. addrs = a # as \<and> h = setServerId (int k) (new_hiredis a n)
     \<and> fresh_clients as n (Suc k) hs)"
  by (cases addrs) (auto simp: fresh_clients_def All_less_Suc2 ac_simps)

lemma connect_clients_ok:
  assumes "fresh_clients addrs n k hs"
  shows "\<exists>hs'. connect_clients rac k hs = Some hs' \<and> length hs' = length hs
    \<and> (\<forall>i<length hs. connect (rac (k + i)) (hs ! i) = Some (hs' ! i) \<and> hreach n (hs' ! i)
         \<and> serverId (hs' ! i) = int (k + i) \<and> serverAddr (hs' ! i) = addrs ! i \<and> peers_ok (hs' ! i)
         \<and> length (scons (hs' ! i)) = nat n)"
  using assms
proof (induction hs arbitrary: k addrs)
  case (Cons h hs)
  then obtain a as where a: "addrs = a # as" "h = setServerId (int k) (new_hiredis a n)" "fresh_clients as n (Suc k) hs"
    by (auto simp: fresh_clients_Cons)
  obtain h' :: "'a hiredis" where h': "connect (rac k) h = Some h'" "serverId h' = int k" "serverAddr h' = a" "peers_ok h'"
    "lifecycle h' (nat n) (\<lambda>p. Inactive)"
    using connect_ok [of "rac k" "int k" a n] a(2) by blast
  have "hreach n h'" using hreach.start h'(1) a(2) by blast
  moreover have "length (scons h') = nat n" using h'(5) by (simp add: lifecycle_def)
  moreover from Cons.IH [OF a(3)] obtain hs' where hs': "connect_clients rac (Suc k) hs = Some hs'" "length hs' = length hs"
    "\<forall>i<length hs. connect (rac (Suc k + i)) (hs ! i) = Some (hs' ! i) \<and> hreach n (hs' ! i)
       \<and> serverId (hs' ! i) = int (Suc k + i) \<and> serverAddr (hs' ! i) = as ! i \<and> peers_ok (hs' ! i)
       \<and> length (scons (hs' ! i)) = nat n" by blast
  ultimately have "connect (rac (k + i)) ((h # hs) ! i) = Some ((h' # hs') ! i) \<and> hreach n ((h' # hs') ! i)
      \<and> serverId ((h' # hs') ! i) = int (k + i) \<and> serverAddr ((h' # hs') ! i) = addrs ! i \<and> peers_ok ((h' # hs') ! i)
      \<and> length (scons ((h' # hs') ! i)) = nat n" if "i < length (h # hs)" for i
    using that h' hs'(3) a(1) by (cases i) auto
  with h' hs' show ?case by auto
qed (simp add: fresh_clients_def)

lemma add_servers_Inr:
  "add_servers Y its addrs = Inr addrs' \<Longrightarrow> \<exists>as. map (server_of Y) its = map Inr as \<and> addrs' = addrs @ as"
proof (induction its arbitrary: addrs)
  case (Cons it its)
  then obtain a where a: "server_of Y it = Inr a" by (cases "server_of Y it") auto
  with Cons.prems have "add_servers Y its (addrs @ [a]) = Inr addrs'" by simp
  from Cons.IH [OF this] a show ?case by (auto intro: exI [of _ "a # as" for as])
qed simp

lemma sbind_Inr: "sbind r f = Inr y \<longleftrightarrow> (\<exists>x. r = Inr x \<and> f x = Inr y)"
  by (cases r) simp_all

lemma convert_Inr [simp]: "convert r = Inr x \<longleftrightarrow> r = Some x"
  by (cases r) simp_all

lemma parse_conf_Inr:
  assumes "parse_conf Y c = Inr c'" "\<not> IsNull Y (root c)"
  shows "\<exists>as. map (server_of Y) (elements Y (at_key Y (root c) ''redis_servers'')) = map Inr as
    \<and> serverAddrs c' = serverAddrs c @ as \<and> nconn c' = nconn c \<and> root c' = root c"
  using assms
  by (auto simp: parse_conf_def Let_def sbind_Inr split: if_splits dest!: add_servers_Inr)

section \<open>Properties\<close>


section \<open>An instance\<close>

text \<open>A document as a tree; the file names two servers.\<close>

datatype node = Undefined | Scalar "byte list" | Sequence "node list" | Mapping "(string \<times> node) list"

definition tree_yaml :: "node yaml" where
  "tree_yaml = \<lparr>IsNull = (\<lambda>n. n = Undefined),
     at_key = (\<lambda>n k. case n of Mapping kvs \<Rightarrow> (case map_of kvs k of Some v \<Rightarrow> v | None \<Rightarrow> Undefined) | _ \<Rightarrow> Undefined),
     IsDefined = (\<lambda>n. n \<noteq> Undefined),
     elements = (\<lambda>n. case n of Sequence ns \<Rightarrow> ns | _ \<Rightarrow> []),
     as_uint16 = (\<lambda>n. case n of Scalar s \<Rightarrow> Some (word_of_nat (number_of s)) | _ \<Rightarrow> None),
     as_string = (\<lambda>n. case n of Scalar s \<Rightarrow> Some s | _ \<Rightarrow> None),
     as_bool = (\<lambda>n. case n of Scalar s \<Rightarrow> Some (s = ascii ''true'') | _ \<Rightarrow> None)\<rparr>"

definition sample_server :: "byte list \<Rightarrow> node" where
  "sample_server p = Mapping [(''ip'', Scalar [49]), (''port'', Scalar p)]"

definition sample_file :: node where
  "sample_file = Mapping [(''redis_servers'', Sequence [sample_server [54], sample_server [55]])]"


end
