(* ===== verification/Dispatcher.thy ===== *)
theory Dispatcher
  imports StdMap
begin

text \<open>
  The message dispatcher of \<open>ProxyServer/Dispatcher.h\<close>: a map from descriptors to typed callbacks.
  A descriptor identifies the class of a message; \<open>CallbackT<T>\<close> is the pair of the descriptor of
  \<open>T\<close> and the callback, and its downcast asserts that the message is a \<open>T\<close>. \<open>None\<close> is the failed
  assertion.
\<close>

type_synonym ('d, 'cb) CallbackT = "'d \<times> 'cb"

record ('d, 'cb) dispatcher =
  callbacks :: "('d, ('d, 'cb) CallbackT) std_map"
  defaultCallback :: 'cb

definition new_dispatcher :: "'cb \<Rightarrow> ('d, 'cb) dispatcher" where
  "new_dispatcher defaultCb = \<lparr>callbacks = [], defaultCallback = defaultCb\<rparr>"

text \<open>The callback that is called with the message.\<close>

definition CallbackT_onMessage :: "('m \<Rightarrow> 'd) \<Rightarrow> ('d, 'cb) CallbackT \<Rightarrow> 'm \<Rightarrow> 'cb option" where
  "CallbackT_onMessage GetDescriptor c message = do {
     assert_that (GetDescriptor message = fst c);
     Some (snd c)
   }"

definition onProtobufMessage :: "('m \<Rightarrow> 'd) \<Rightarrow> ('d, 'cb) dispatcher \<Rightarrow> 'm \<Rightarrow> 'cb option" where
  "onProtobufMessage GetDescriptor d message =
     (case map_find (GetDescriptor message) (callbacks d) of
        Some c \<Rightarrow> CallbackT_onMessage GetDescriptor c message
      | None \<Rightarrow> Some (defaultCallback d))"

definition registerMessageCallback ::
  "'d::linorder \<Rightarrow> 'cb \<Rightarrow> ('d, 'cb) dispatcher \<Rightarrow> ('d, 'cb) dispatcher" where
  "registerMessageCallback descriptor callback d =
     d\<lparr>callbacks := map_set descriptor (descriptor, callback) (callbacks d)\<rparr>"

section \<open>The contract\<close>

text \<open>Registrations in order, and the callback the last of them leaves for a class.\<close>

definition registered :: "'cb \<Rightarrow> ('d::linorder \<times> 'cb) list \<Rightarrow> ('d, 'cb) dispatcher" where
  "registered defaultCb rs = fold (\<lambda>(T, cb). registerMessageCallback T cb) rs (new_dispatcher defaultCb)"

definition handler_for :: "'cb \<Rightarrow> ('d \<times> 'cb) list \<Rightarrow> 'd \<Rightarrow> 'cb" where
  "handler_for defaultCb rs T = (case map_of (rev rs) T of Some cb \<Rightarrow> cb | None \<Rightarrow> defaultCb)"

lemma registered_represents:
  "smap.represents (callbacks (registered defaultCb rs)) (\<lambda>T. map_option (Pair T) (map_of (rev rs) T))
     \<and> defaultCallback (registered defaultCb rs) = defaultCb"
proof (induction rs rule: rev_induct)
  case Nil
  show ?case by (simp add: registered_def new_dispatcher_def smap.represents_def)
next
  case (snoc r rs)
  obtain T cb where r: "r = (T, cb)" by fastforce
  with snoc show ?case
    by (auto simp: registered_def registerMessageCallback_def fun_eq_iff intro!: smap.represents_set)
qed

text \<open>C18: However the callbacks were registered, dispatching a message never fails the downcast: it calls
  the callback registered last for the class of the message, or the default callback when there is none.\<close>
theorem dispatch_calls_registered:
  "onProtobufMessage GetDescriptor (registered defaultCb rs) message
     = Some (handler_for defaultCb rs (GetDescriptor message))"
proof -
  note rep = registered_represents [of defaultCb rs]
  then have "map_find (GetDescriptor message) (callbacks (registered defaultCb rs))
      = map_option (Pair (GetDescriptor message)) (map_of (rev rs) (GetDescriptor message))"
    using smap.represents_find by blast
  with rep show ?thesis
    by (cases "map_of (rev rs) (GetDescriptor message)")
      (simp_all add: onProtobufMessage_def handler_for_def CallbackT_onMessage_def)
qed

end
