(* ===== verification/Endian.thy ===== *)
theory Endian
  imports Prelude
begin

text \<open>
  Byte order conversion, after \<open>muduo/net/Endian.h\<close>. The host is little-endian x86, so
  \<open>htobe32\<close> and \<open>be32toh\<close> reverse the bytes of the integer. Integers are words of their
  width; a signed \<open>int32_t\<close> is the same word, read with \<open>sint\<close>.
\<close>

section \<open>Conversions\<close>

definition hostToNetwork64 :: "u64 \<Rightarrow> u64" where
  "hostToNetwork64 host64 = le_word (rev (le_bytes 8 host64))"

definition hostToNetwork32 :: "u32 \<Rightarrow> u32" where
  "hostToNetwork32 host32 = le_word (rev (le_bytes 4 host32))"

definition hostToNetwork16 :: "u16 \<Rightarrow> u16" where
  "hostToNetwork16 host16 = le_word (rev (le_bytes 2 host16))"

definition networkToHost64 :: "u64 \<Rightarrow> u64" where
  "networkToHost64 net64 = le_word (rev (le_bytes 8 net64))"

definition networkToHost32 :: "u32 \<Rightarrow> u32" where
  "networkToHost32 net32 = le_word (rev (le_bytes 4 net32))"

definition networkToHost16 :: "u16 \<Rightarrow> u16" where
  "networkToHost16 net16 = le_word (rev (le_bytes 2 net16))"

section \<open>The byte-order contract\<close>

text \<open>
  What the buffer and the codecs rely on: what is stored after a host-to-network conversion is
  the integer with its most significant byte first, and what is loaded from such bytes and
  converted back is the integer.
\<close>

locale byte_order =
  fixes hton :: "'a::len word \<Rightarrow> 'a word" and ntoh :: "'a word \<Rightarrow> 'a word" and size :: nat
  assumes store: "le_bytes size (hton x) = rev (le_bytes size x)"
    and load: "length bs = size \<Longrightarrow> ntoh (le_word bs) = le_word (rev bs)"
    and width: "LENGTH('a) = 8 * size"
begin

lemma ntoh_hton [simp]: "ntoh (hton x) = x"
proof -
  have "hton x = le_word (le_bytes size (hton x))" by (simp add: width)
  then have "ntoh (hton x) = ntoh (le_word (rev (le_bytes size x)))" by (simp add: store)
  also have "\<dots> = le_word (le_bytes size x)" using load [of "rev (le_bytes size x)"] by simp
  finally show ?thesis by (simp add: width)
qed

lemma load_stored: "ntoh (le_word (rev (le_bytes size x))) = x"
  using load [of "rev (le_bytes size x)"] by (simp add: width)

end

lemma swap_store:
  "LENGTH('a) = 8 * k \<Longrightarrow> le_bytes k (le_word (rev (le_bytes k (x::'a::len word))) :: 'a word)
    = rev (le_bytes k x)"
  by (rule le_bytes_inverse) simp_all

lemma swap_load:
  "LENGTH('a) = 8 * k \<Longrightarrow> length bs = k \<Longrightarrow>
    (le_word (rev (le_bytes k (le_word bs :: 'a::len word))) :: 'a word) = le_word (rev bs)"
  by (simp add: le_bytes_inverse)

interpretation order64: byte_order hostToNetwork64 networkToHost64 8
  by unfold_locales
    (simp_all add: hostToNetwork64_def networkToHost64_def swap_store swap_load)

interpretation order32: byte_order hostToNetwork32 networkToHost32 4
  by unfold_locales
    (simp_all add: hostToNetwork32_def networkToHost32_def swap_store swap_load)

interpretation order16: byte_order hostToNetwork16 networkToHost16 2
  by unfold_locales
    (simp_all add: hostToNetwork16_def networkToHost16_def swap_store swap_load)

lemma networkToHost32_example:
  "networkToHost32 (le_word [0, 0, 1, 44]) = 300"
  by (simp add: networkToHost32_def mem_eval)

end
