(* ===== verification/Buffer.thy ===== *)
theory Buffer
  imports Endian
begin

text \<open>
  The byte buffer of \<open>muduo/net/Buffer.h\<close> and \<open>Buffer.cc\<close>: a vector with a read and a write
  index. Operations are checked (\<open>None\<close> is a failed \<open>assert\<close>); pointers into the vector are
  indices. The abstraction \<open>content\<close> is the byte string between the indices: \<open>append_data\<close>
  adds at its end, \<open>retrieve\<close> takes from its front and \<open>prepend\<close> adds at its front, whatever the
  vector does (grow, or move the bytes to the front). Members lose the trailing underscore of the
  source; \<open>vec\<close> is \<open>buffer_\<close>.

  Lengths are \<open>size_t\<close>. The length of bytes that lie in memory is a natural number that no sum of
  the code takes past 2 to the 64; a length that a caller makes up (\<open>ensureWritableBytes\<close>,
  \<open>shrink\<close>) is not, and the sums made from it wrap. Both go through the same code, so the sums of
  \<open>makeSpace\<close> are read by an argument: \<open>size_t\<close> or \<open>in_memory\<close>. Allocation does not fail.
\<close>

section \<open>State\<close>

record buffer =
  vec :: "byte list"
  readerIndex :: nat
  writerIndex :: nat

definition kCheapPrepend :: nat where
  "kCheapPrepend = 8"

definition kInitialSize :: nat where
  "kInitialSize = 1024"

definition kCRLF :: "byte list" where
  "kCRLF = [13, 10]"

definition new_buffer :: buffer where
  "new_buffer = \<lparr>vec = replicate (kCheapPrepend + kInitialSize) 0,
                 readerIndex = kCheapPrepend, writerIndex = kCheapPrepend\<rparr>"

definition swap :: "buffer \<Rightarrow> buffer \<Rightarrow> buffer \<times> buffer" where
  "swap this rhs =
     (this\<lparr>vec := vec rhs, readerIndex := readerIndex rhs, writerIndex := writerIndex rhs\<rparr>,
      rhs\<lparr>vec := vec this, readerIndex := readerIndex this, writerIndex := writerIndex this\<rparr>)"

section \<open>Sizes and pointers\<close>

definition readableBytes :: "buffer \<Rightarrow> nat" where
  "readableBytes b = writerIndex b - readerIndex b"

definition writableBytes :: "buffer \<Rightarrow> nat" where
  "writableBytes b = length (vec b) - writerIndex b"

definition prependableBytes :: "buffer \<Rightarrow> nat" where
  "prependableBytes b = readerIndex b"

definition peek :: "buffer \<Rightarrow> nat" where
  "peek b = readerIndex b"

definition beginWrite :: "buffer \<Rightarrow> nat" where
  "beginWrite b = writerIndex b"

text \<open>The bytes \<open>[p, p + n)\<close> of the vector, as a pointer and a length denote them.\<close>

definition bytes_at :: "buffer \<Rightarrow> nat \<Rightarrow> nat \<Rightarrow> byte list" where
  "bytes_at b p n = window p (p + n) (vec b)"

definition toStringPiece :: "buffer \<Rightarrow> byte list" where
  "toStringPiece b = bytes_at b (peek b) (readableBytes b)"

text \<open>\<open>std::search\<close> for \<open>kCRLF\<close>: the offset of the first occurrence, or the length.\<close>

fun search_crlf :: "byte list \<Rightarrow> nat" where
  "search_crlf (x # y # xs) = (if [x, y] = kCRLF then 0 else Suc (search_crlf (y # xs)))"
| "search_crlf xs = length xs"

definition findCRLF :: "buffer \<Rightarrow> nat option" where
  "findCRLF b =
     (let crlf = peek b + search_crlf (bytes_at b (peek b) (beginWrite b - peek b))
      in if crlf = beginWrite b then None else Some crlf)"

definition findCRLF_from :: "nat \<Rightarrow> buffer \<Rightarrow> nat option option" where
  "findCRLF_from start b = do {
     assert_that (peek b \<le> start);
     assert_that (start \<le> beginWrite b);
     let crlf = start + search_crlf (bytes_at b start (beginWrite b - start));
     Some (if crlf = beginWrite b then None else Some crlf)
   }"

section \<open>Retrieving\<close>

definition retrieveAll :: "buffer \<Rightarrow> buffer" where
  "retrieveAll b = b\<lparr>readerIndex := kCheapPrepend, writerIndex := kCheapPrepend\<rparr>"

definition retrieve :: "nat \<Rightarrow> buffer \<Rightarrow> buffer option" where
  "retrieve len b = do {
     assert_that (len \<le> readableBytes b);
     Some (if len < readableBytes b then b\<lparr>readerIndex := readerIndex b + len\<rparr> else retrieveAll b)
   }"

definition retrieveUntil :: "nat \<Rightarrow> buffer \<Rightarrow> buffer option" where
  "retrieveUntil e b = do {
     assert_that (peek b \<le> e);
     assert_that (e \<le> beginWrite b);
     retrieve (e - peek b) b
   }"

definition retrieveInt32 :: "buffer \<Rightarrow> buffer option" where
  "retrieveInt32 b = retrieve 4 b"

definition retrieveInt16 :: "buffer \<Rightarrow> buffer option" where
  "retrieveInt16 b = retrieve 2 b"

definition retrieveInt8 :: "buffer \<Rightarrow> buffer option" where
  "retrieveInt8 b = retrieve 1 b"

definition retrieveAsString :: "nat \<Rightarrow> buffer \<Rightarrow> (byte list \<times> buffer) option" where
  "retrieveAsString len b = do {
     assert_that (len \<le> readableBytes b);
     let result = bytes_at b (peek b) len;
     b' \<leftarrow> retrieve len b;
     Some (result, b')
   }"

definition retrieveAllAsString :: "buffer \<Rightarrow> (byte list \<times> buffer) option" where
  "retrieveAllAsString b = retrieveAsString (readableBytes b) b"

section \<open>Writing\<close>

definition size_t :: "nat \<Rightarrow> nat" where
  "size_t n = n mod 2 ^ 64"

abbreviation (input) in_memory :: "nat \<Rightarrow> nat" where
  "in_memory \<equiv> \<lambda>n. n"

text \<open>
  Where the wrapped sum would cut the vector below its write index the code goes on with an index
  past the end of the vector; the model stops there, as at a failed \<open>assert\<close>.
\<close>

definition makeSpace :: "(nat \<Rightarrow> nat) \<Rightarrow> nat \<Rightarrow> buffer \<Rightarrow> buffer option" where
  "makeSpace sz len b =
     (if writableBytes b + prependableBytes b < sz (len + kCheapPrepend)
      then do {
        let n = sz (writerIndex b + len);
        assert_that (writerIndex b \<le> n);
        Some (b\<lparr>vec := resize n (vec b)\<rparr>)
      }
      else do {
        assert_that (kCheapPrepend < readerIndex b);
        let readable = readableBytes b;
        let b' = b\<lparr>vec := blit kCheapPrepend (window (readerIndex b) (writerIndex b) (vec b)) (vec b),
                   readerIndex := kCheapPrepend,
                   writerIndex := kCheapPrepend + readable\<rparr>;
        assert_that (readable = readableBytes b');
        Some b'
      })"

definition ensureWritableBytes :: "(nat \<Rightarrow> nat) \<Rightarrow> nat \<Rightarrow> buffer \<Rightarrow> buffer option" where
  "ensureWritableBytes sz len b = do {
     b' \<leftarrow> (if writableBytes b < len then makeSpace sz len b else Some b);
     assert_that (len \<le> writableBytes b');
     Some b'
   }"

definition hasWritten :: "nat \<Rightarrow> buffer \<Rightarrow> buffer" where
  "hasWritten len b = b\<lparr>writerIndex := writerIndex b + len\<rparr>"

definition append_data :: "byte list \<Rightarrow> buffer \<Rightarrow> buffer option" where
  "append_data data b = do {
     b' \<leftarrow> ensureWritableBytes in_memory (length data) b;
     Some (hasWritten (length data) (b'\<lparr>vec := blit (beginWrite b') data (vec b')\<rparr>))
   }"

definition appendInt32 :: "u32 \<Rightarrow> buffer \<Rightarrow> buffer option" where
  "appendInt32 x b = append_data (le_bytes 4 (hostToNetwork32 x)) b"

definition appendInt16 :: "u16 \<Rightarrow> buffer \<Rightarrow> buffer option" where
  "appendInt16 x b = append_data (le_bytes 2 (hostToNetwork16 x)) b"

definition appendInt8 :: "byte \<Rightarrow> buffer \<Rightarrow> buffer option" where
  "appendInt8 x b = append_data [x] b"

definition prepend :: "byte list \<Rightarrow> buffer \<Rightarrow> buffer option" where
  "prepend data b = do {
     assert_that (length data \<le> prependableBytes b);
     let r = readerIndex b - length data;
     Some (b\<lparr>readerIndex := r, vec := blit r data (vec b)\<rparr>)
   }"

definition prependInt32 :: "u32 \<Rightarrow> buffer \<Rightarrow> buffer option" where
  "prependInt32 x b = prepend (le_bytes 4 (hostToNetwork32 x)) b"

definition prependInt16 :: "u16 \<Rightarrow> buffer \<Rightarrow> buffer option" where
  "prependInt16 x b = prepend (le_bytes 2 (hostToNetwork16 x)) b"

definition prependInt8 :: "byte \<Rightarrow> buffer \<Rightarrow> buffer option" where
  "prependInt8 x b = prepend [x] b"

section \<open>Reading integers\<close>

definition peekInt32 :: "buffer \<Rightarrow> u32 option" where
  "peekInt32 b = do {
     assert_that (4 \<le> readableBytes b);
     let be32 = le_word (bytes_at b (peek b) 4);
     Some (networkToHost32 be32)
   }"

definition peekInt16 :: "buffer \<Rightarrow> u16 option" where
  "peekInt16 b = do {
     assert_that (2 \<le> readableBytes b);
     let be16 = le_word (bytes_at b (peek b) 2);
     Some (networkToHost16 be16)
   }"

definition peekInt8 :: "buffer \<Rightarrow> byte option" where
  "peekInt8 b = do {
     assert_that (1 \<le> readableBytes b);
     Some (vec b ! peek b)
   }"

definition readInt32 :: "buffer \<Rightarrow> (u32 \<times> buffer) option" where
  "readInt32 b = do { result \<leftarrow> peekInt32 b; b' \<leftarrow> retrieveInt32 b; Some (result, b') }"

definition readInt16 :: "buffer \<Rightarrow> (u16 \<times> buffer) option" where
  "readInt16 b = do { result \<leftarrow> peekInt16 b; b' \<leftarrow> retrieveInt16 b; Some (result, b') }"

definition readInt8 :: "buffer \<Rightarrow> (byte \<times> buffer) option" where
  "readInt8 b = do { result \<leftarrow> peekInt8 b; b' \<leftarrow> retrieveInt8 b; Some (result, b') }"

text \<open>
  \<open>toStringPiece\<close> casts the number of readable bytes to \<open>int\<close>: from 2 to the 31 on the copy of
  \<open>shrink\<close> would not be of those bytes.
\<close>

definition shrink :: "nat \<Rightarrow> buffer \<Rightarrow> buffer option" where
  "shrink reserve b = do {
     other \<leftarrow> ensureWritableBytes size_t (size_t (readableBytes b + reserve)) new_buffer;
     assert_that (readableBytes b < 2 ^ 31);
     other' \<leftarrow> append_data (toStringPiece b) other;
     Some (fst (swap b other'))
   }"

text \<open>
  \<open>readv\<close> is the kernel's: it returns an errno, or the bytes it received, at most the writable
  bytes and the 65536 bytes of \<open>extrabuf\<close> together. It fills the writable space first.
\<close>

definition readFd :: "'errno + byte list \<Rightarrow> buffer \<Rightarrow> (('errno + nat) \<times> buffer) option" where
  "readFd readv b =
     (let writable = writableBytes b
      in case readv of
           Inl e \<Rightarrow> Some (Inl e, b)
         | Inr data \<Rightarrow>
             let n = length data;
                 b' = b\<lparr>vec := blit (writerIndex b) (take writable data) (vec b)\<rparr>
             in if n \<le> writable then Some (Inr n, b'\<lparr>writerIndex := writerIndex b' + n\<rparr>)
                else do {
                  b'' \<leftarrow> append_data (drop writable data) (b'\<lparr>writerIndex := length (vec b')\<rparr>);
                  Some (Inr n, b'')
                })"

section \<open>Abstraction and invariant\<close>

definition content :: "buffer \<Rightarrow> byte list" where
  "content b = window (readerIndex b) (writerIndex b) (vec b)"

definition buf_inv :: "buffer \<Rightarrow> bool" where
  "buf_inv b \<longleftrightarrow> readerIndex b \<le> writerIndex b \<and> writerIndex b \<le> length (vec b)
     \<and> kCheapPrepend \<le> length (vec b)"

text \<open>The space for a header in front: every operation but \<open>prepend\<close> keeps it.\<close>

definition cheap :: "buffer \<Rightarrow> bool" where
  "cheap b \<longleftrightarrow> kCheapPrepend \<le> prependableBytes b"

lemmas buf_defs = buf_inv_def content_def cheap_def readableBytes_def writableBytes_def
  prependableBytes_def peek_def beginWrite_def

lemma new_buffer_ok: "buf_inv new_buffer" "content new_buffer = []" "cheap new_buffer"
  by (simp_all add: buf_defs new_buffer_def kCheapPrepend_def kInitialSize_def)

lemma readable_content: "buf_inv b \<Longrightarrow> readableBytes b = length (content b)"
  by (simp add: buf_defs)

lemma bytes_at_content:
  "buf_inv b \<Longrightarrow> n \<le> length (content b) \<Longrightarrow> bytes_at b (peek b) n = take n (content b)"
  by (simp add: buf_defs bytes_at_def take_window)

lemma toStringPiece_content [abs_simps]: "buf_inv b \<Longrightarrow> toStringPiece b = content b"
  by (simp add: toStringPiece_def bytes_at_content readable_content)

lemma makeSpace_grow:
  assumes "buf_inv b" "writableBytes b < len"
  shows "buf_inv (b\<lparr>vec := resize (writerIndex b + len) (vec b)\<rparr>)"
    and "content (b\<lparr>vec := resize (writerIndex b + len) (vec b)\<rparr>) = content b"
  using assms by (auto simp: buf_defs window_resize)

lemma makeSpace_move:
  assumes inv: "buf_inv b" and room: "kCheapPrepend < readerIndex b"
  defines "b' \<equiv> b\<lparr>vec := blit kCheapPrepend (window (readerIndex b) (writerIndex b) (vec b)) (vec b),
      readerIndex := kCheapPrepend, writerIndex := kCheapPrepend + readableBytes b\<rparr>"
  shows "buf_inv b'" "content b' = content b" "length (vec b') = length (vec b)"
proof -
  let ?d = "window (readerIndex b) (writerIndex b) (vec b)"
  have len: "length ?d = readableBytes b" using inv by (simp add: buf_defs)
  have fits: "kCheapPrepend + length ?d \<le> length (vec b)"
    using inv room by (auto simp: buf_defs)
  then show "length (vec b') = length (vec b)" by (simp add: b'_def)
  show "buf_inv b'" using inv fits by (simp add: b'_def buf_inv_def len)
  show "content b' = content b"
    using window_blit_same [OF fits] by (simp add: b'_def content_def len)
qed

text \<open>What making room keeps: the bytes, and as much of the room in front as a fresh buffer has.\<close>

definition keeps :: "nat \<Rightarrow> buffer \<Rightarrow> buffer \<Rightarrow> bool" where
  "keeps n b b' \<longleftrightarrow> buf_inv b' \<and> min kCheapPrepend (prependableBytes b) \<le> prependableBytes b'
     \<and> length (vec b') \<le> length (vec b) + n"

lemma keeps_cheap: "keeps n b b' \<Longrightarrow> cheap b \<longrightarrow> cheap b'"
  by (auto simp: keeps_def cheap_def min_def)

lemma makeSpace_keeps:
  assumes "buf_inv b" "writableBytes b < len"
  shows "\<exists>b'. makeSpace in_memory len b = Some b' \<and> content b' = content b
    \<and> len \<le> writableBytes b' \<and> keeps len b b'"
proof (cases "writableBytes b + prependableBytes b < len + kCheapPrepend")
  case True
  with assms makeSpace_grow [OF assms] show ?thesis
    by (auto simp: makeSpace_def keeps_def Let_def) (auto simp: buf_defs)
next
  case False
  then have room: "kCheapPrepend < readerIndex b" using assms by (auto simp: buf_defs)
  from False assms makeSpace_move [OF assms(1) room] room show ?thesis
    by (auto simp: makeSpace_def Let_def readableBytes_def keeps_def)
      (auto simp: buf_defs)
qed

lemma ensure_in_memory:
  assumes "buf_inv b"
  shows "\<exists>b'. ensureWritableBytes in_memory len b = Some b' \<and> content b' = content b
    \<and> len \<le> writableBytes b' \<and> keeps len b b'"
proof (cases "writableBytes b < len")
  case True
  with makeSpace_keeps [OF assms] obtain b' where
    "makeSpace in_memory len b = Some b'" "content b' = content b"
    "len \<le> writableBytes b'" "keeps len b b'" by blast
  with True show ?thesis by (auto simp: ensureWritableBytes_def)
next
  case False
  with assms show ?thesis by (auto simp: ensureWritableBytes_def keeps_def)
qed

text \<open>Where the sums stay below 2 to the 64, a length that is made up is one like any other.\<close>

lemma ensure_size_t:
  assumes "buf_inv b" "length (vec b) + len + kCheapPrepend < 2 ^ 64"
  shows "ensureWritableBytes size_t len b = ensureWritableBytes in_memory len b"
proof -
  have "size_t (len + kCheapPrepend) = len + kCheapPrepend" "size_t (writerIndex b + len) = writerIndex b + len"
    using assms by (simp_all add: size_t_def buf_inv_def)
  then show ?thesis by (simp add: ensureWritableBytes_def makeSpace_def)
qed

lemma ensure_wraps:
  assumes inv: "buf_inv b" and huge: "2 ^ 64 \<le> len + kCheapPrepend" "len < 2 ^ 64"
    and small: "16 \<le> length (vec b)" "length (vec b) < 2 ^ 63"
  shows "ensureWritableBytes size_t len b = None"
proof (cases "writableBytes b + prependableBytes b < size_t (len + kCheapPrepend)")
  case True
  moreover have "size_t (len + kCheapPrepend) = len + kCheapPrepend - 2 ^ 64"
    using huge by (simp add: size_t_def mod_if kCheapPrepend_def)
  ultimately have wr: "writableBytes b < 8"
    using huge by (simp add: kCheapPrepend_def)
  show ?thesis
  proof (cases "writerIndex b + len < 2 ^ 64")
    case False
    then have "size_t (writerIndex b + len) < writerIndex b"
      using huge inv small by (auto simp: size_t_def mod_if buf_inv_def)
    with True huge wr show ?thesis
      by (simp add: ensureWritableBytes_def makeSpace_def kCheapPrepend_def Let_def)
  next
    case below: True
    then have "writerIndex b < 8" using huge by (simp add: kCheapPrepend_def)
    with wr inv small show ?thesis by (simp add: buf_inv_def writableBytes_def)
  qed
next
  case False
  show ?thesis
  proof (cases "makeSpace size_t len b")
    case (Some b')
    then have "writableBytes b' < 2 ^ 63"
      using False inv small
      by (auto simp: makeSpace_def Let_def buf_defs split: if_splits)
    with Some huge inv small show ?thesis
      by (simp add: ensureWritableBytes_def kCheapPrepend_def writableBytes_def)
  qed (use huge inv small in \<open>simp add: ensureWritableBytes_def kCheapPrepend_def writableBytes_def\<close>)
qed

lemma write_ok:
  assumes inv: "buf_inv b" and room: "length d \<le> writableBytes b"
  defines "b' \<equiv> hasWritten (length d) (b\<lparr>vec := blit (beginWrite b) d (vec b)\<rparr>)"
  shows "buf_inv b'" "content b' = content b @ d" "cheap b \<longrightarrow> cheap b'"
proof -
  let ?v = "blit (writerIndex b) d (vec b)"
  have fits: "writerIndex b + length d \<le> length (vec b)" using inv room by (auto simp: buf_defs)
  then show "buf_inv b'" "cheap b \<longrightarrow> cheap b'"
    using inv by (simp_all add: b'_def hasWritten_def buf_defs)
  have "content b' = window (readerIndex b) (writerIndex b) ?v
      @ window (writerIndex b) (writerIndex b + length d) ?v"
    using inv by (simp add: b'_def hasWritten_def buf_defs window_append)
  also have "\<dots> = content b @ d"
    using inv fits by (simp add: window_blit_same window_blit_below content_def buf_inv_def)
  finally show "content b' = content b @ d" .
qed

lemma append_data_keeps:
  assumes "buf_inv b"
  shows "\<exists>b'. append_data d b = Some b' \<and> content b' = content b @ d \<and> keeps (length d) b b'"
proof -
  from ensure_in_memory [OF assms] obtain b1 where
    b1: "ensureWritableBytes in_memory (length d) b = Some b1" "content b1 = content b"
    "length d \<le> writableBytes b1" "keeps (length d) b b1" by blast
  then have inv: "buf_inv b1" by (simp add: keeps_def)
  with b1(3) have fits: "beginWrite b1 + length d \<le> length (vec b1)" by (auto simp: buf_defs)
  let ?b = "hasWritten (length d) (b1\<lparr>vec := blit (beginWrite b1) d (vec b1)\<rparr>)"
  have "keeps (length d) b ?b"
    using b1(4) write_ok(1) [OF inv b1(3)] fits
    by (simp add: keeps_def hasWritten_def prependableBytes_def)
  with b1 write_ok(2) [OF inv b1(3)] show ?thesis by (simp add: append_data_def)
qed

lemma append_data_ok:
  assumes "buf_inv b"
  shows "\<exists>b'. append_data d b = Some b' \<and> buf_inv b' \<and> content b' = content b @ d
    \<and> (cheap b \<longrightarrow> cheap b')"
  using append_data_keeps [OF assms, of d] keeps_cheap by (auto simp: keeps_def)

lemma retrieve_ok:
  assumes "buf_inv b" "n \<le> length (content b)"
  shows "\<exists>b'. retrieve n b = Some b' \<and> buf_inv b' \<and> content b' = drop n (content b)
    \<and> (cheap b \<longrightarrow> cheap b')"
  using assms by (auto simp: retrieve_def retrieveAll_def buf_defs drop_window kCheapPrepend_def)

lemma retrieve_assert: "buf_inv b \<Longrightarrow> length (content b) < n \<Longrightarrow> retrieve n b = None"
  by (simp add: retrieve_def readable_content)

lemma prepend_ok:
  assumes inv: "buf_inv b" and room: "length d \<le> prependableBytes b"
  shows "\<exists>b'. prepend d b = Some b' \<and> buf_inv b' \<and> content b' = d @ content b"
proof -
  let ?r = "readerIndex b - length d" and ?w = "writerIndex b"
  have r: "?r + length d = readerIndex b" using room by (simp add: buf_defs)
  have fits: "?r + length d \<le> length (vec b)" using inv r by (simp add: buf_defs)
  have "window ?r ?w (blit ?r d (vec b))
      = window ?r (?r + length d) (blit ?r d (vec b)) @ window (?r + length d) ?w (blit ?r d (vec b))"
    using inv r by (intro window_append [symmetric]) (auto simp: buf_defs)
  also have "\<dots> = d @ window (?r + length d) ?w (vec b)"
    by (simp only: window_blit_same [OF fits] window_blit_above [OF order_refl fits])
  also have "\<dots> = d @ content b" by (simp only: r content_def)
  finally show ?thesis
    using inv room fits by (auto simp: prepend_def Let_def buf_defs)
qed

section \<open>Integers in network byte order\<close>

lemma peekInt32_ok [wp_simps]:
  "buf_inv b \<Longrightarrow> 4 \<le> length (content b) \<Longrightarrow> peekInt32 b = Some (le_word (rev (take 4 (content b))))"
  by (simp add: peekInt32_def readable_content bytes_at_content order32.load)

lemma peekInt16_ok [wp_simps]:
  "buf_inv b \<Longrightarrow> 2 \<le> length (content b) \<Longrightarrow> peekInt16 b = Some (le_word (rev (take 2 (content b))))"
  by (simp add: peekInt16_def readable_content bytes_at_content order16.load)

lemma peekInt8_ok [wp_simps]:
  assumes "buf_inv b" "1 \<le> length (content b)"
  shows "peekInt8 b = Some (hd (content b))"
  using assms by (auto simp: peekInt8_def buf_defs window_def hd_drop_conv_nth)

lemma peekInt32_assert: "buf_inv b \<Longrightarrow> length (content b) < 4 \<Longrightarrow> peekInt32 b = None"
  by (simp add: peekInt32_def readable_content)

text \<open>The network image of an integer: the bytes from the most significant one down.\<close>

abbreviation (input) be_bytes :: "nat \<Rightarrow> 'a::len word \<Rightarrow> byte list" where
  "be_bytes k x \<equiv> rev (le_bytes k x)"

lemma appendInt32_eq [abs_simps]: "appendInt32 x b = append_data (be_bytes 4 x) b"
  by (simp add: appendInt32_def order32.store)

lemma appendInt16_eq [abs_simps]: "appendInt16 x b = append_data (be_bytes 2 x) b"
  by (simp add: appendInt16_def order16.store)

lemma prependInt32_eq [abs_simps]: "prependInt32 x b = prepend (be_bytes 4 x) b"
  by (simp add: prependInt32_def order32.store)

lemma prependInt16_eq [abs_simps]: "prependInt16 x b = prepend (be_bytes 2 x) b"
  by (simp add: prependInt16_def order16.store)

lemma readInt32_content:
  assumes "buf_inv b" "content b = be_bytes 4 x @ rest"
  shows "\<exists>b'. readInt32 b = Some (x, b') \<and> buf_inv b' \<and> content b' = rest"
  using assms retrieve_ok [of b 4] by (auto simp: readInt32_def retrieveInt32_def wp_simps)

lemma readInt16_content:
  assumes "buf_inv b" "content b = be_bytes 2 x @ rest"
  shows "\<exists>b'. readInt16 b = Some (x, b') \<and> buf_inv b' \<and> content b' = rest"
  using assms retrieve_ok [of b 2] by (auto simp: readInt16_def retrieveInt16_def wp_simps)

lemma readInt8_content:
  assumes "buf_inv b" "content b = x # rest"
  shows "\<exists>b'. readInt8 b = Some (x, b') \<and> buf_inv b' \<and> content b' = rest"
  using assms retrieve_ok [of b 1] by (auto simp: readInt8_def retrieveInt8_def wp_simps)

section \<open>The line search\<close>

lemma search_crlf_le: "search_crlf xs \<le> length xs"
  by (induction xs rule: search_crlf.induct) auto

lemma search_crlf_found:
  "search_crlf xs < length xs \<Longrightarrow> take 2 (drop (search_crlf xs) xs) = kCRLF"
  by (induction xs rule: search_crlf.induct) (auto simp: kCRLF_def split: if_splits)

lemma search_crlf_append:
  "search_crlf xs < length xs \<Longrightarrow> search_crlf (xs @ ys) = search_crlf xs"
  by (induction xs rule: search_crlf.induct) (auto split: if_splits)

lemma search_crlf_first:
  "i < search_crlf xs \<Longrightarrow> take 2 (drop i xs) \<noteq> kCRLF"
proof (induction xs arbitrary: i rule: search_crlf.induct)
  case (1 x y xs)
  then show ?case
    by (cases i) (auto simp: kCRLF_def split: if_splits)
qed (auto simp: kCRLF_def)

section \<open>Receiving and shrinking\<close>

lemma readFd_small:
  assumes inv: "buf_inv b" and fits: "length d \<le> writableBytes b"
  shows "\<exists>b'. readFd (Inr d) b = Some (Inr (length d), b') \<and> content b' = content b @ d
    \<and> keeps (length d) b b'"
  using write_ok [OF assms] fits inv
  by (auto simp: readFd_def hasWritten_def beginWrite_def Let_def keeps_def prependableBytes_def buf_inv_def writableBytes_def)

lemma readFd_large:
  assumes inv: "buf_inv b" and big: "writableBytes b < length d"
  shows "\<exists>b'. readFd (Inr d) b = Some (Inr (length d), b') \<and> content b' = content b @ d
    \<and> keeps (length d) b b'"
proof -
  let ?w = "writableBytes b"
  let ?b1 = "b\<lparr>vec := blit (writerIndex b) (take ?w d) (vec b)\<rparr>"
  let ?b2 = "?b1\<lparr>writerIndex := length (vec ?b1)\<rparr>"
  have len: "length (take ?w d) = ?w" using big by simp
  have full: "length (vec ?b1) = writerIndex b + ?w" "length (vec ?b1) = length (vec b)"
    using inv len by (auto simp: buf_defs)
  have b2: "?b2 = hasWritten (length (take ?w d)) (b\<lparr>vec := blit (beginWrite b) (take ?w d) (vec b)\<rparr>)"
    using full len by (simp add: hasWritten_def beginWrite_def)
  have ok: "buf_inv ?b2" "content ?b2 = content b @ take ?w d"
    unfolding b2 using inv len by (intro write_ok; simp)+
  from append_data_keeps [OF ok(1), of "drop ?w d"] obtain b3 where
    b3: "append_data (drop ?w d) ?b2 = Some b3" "content b3 = content b @ d" "keeps (length (drop ?w d)) ?b2 b3"
    using ok by auto
  from b3(3) full(2) have "keeps (length d) b b3" by (auto simp: keeps_def prependableBytes_def)
  with b3 big show ?thesis by (simp add: readFd_def Let_def)
qed

lemma readFd_keeps:
  assumes "buf_inv b"
  shows "\<exists>b'. readFd (Inr d) b = Some (Inr (length d), b') \<and> content b' = content b @ d
    \<and> keeps (length d) b b'"
proof (cases "length d \<le> writableBytes b")
  case True
  with assms show ?thesis by (rule readFd_small)
next
  case False
  then show ?thesis by (intro readFd_large [OF assms]) simp
qed

lemma readFd_ok:
  assumes "buf_inv b"
  shows "\<exists>b'. readFd (Inr d) b = Some (Inr (length d), b') \<and> buf_inv b' \<and> content b' = content b @ d
    \<and> (cheap b \<longrightarrow> cheap b')"
  using readFd_keeps [OF assms, of d] keeps_cheap by (force simp: keeps_def)

lemma new_buffer_size: "length (vec new_buffer) = 1032" "prependableBytes new_buffer = kCheapPrepend"
  by (simp_all add: new_buffer_def kCheapPrepend_def kInitialSize_def prependableBytes_def)

lemma shrink_keeps:
  assumes inv: "buf_inv b" and small: "length (vec b) + n + 1032 < 2 ^ 31"
  shows "\<exists>b'. shrink n b = Some b' \<and> content b' = content b \<and> keeps (1032 + n) b b'
    \<and> kCheapPrepend \<le> prependableBytes b'"
proof -
  let ?n = "readableBytes b + n"
  have r: "readableBytes b \<le> length (vec b)" using inv by (auto simp: buf_defs)
  then have sz: "size_t ?n = ?n" using small by (simp add: size_t_def)
  have "ensureWritableBytes size_t ?n new_buffer = ensureWritableBytes in_memory ?n new_buffer"
    using r small by (intro ensure_size_t [OF new_buffer_ok(1)]) (simp add: new_buffer_size kCheapPrepend_def)
  with ensure_in_memory [OF new_buffer_ok(1), of ?n] obtain o1 where
    o1: "ensureWritableBytes size_t (size_t ?n) new_buffer = Some o1" "content o1 = []" "?n \<le> writableBytes o1"
      "keeps ?n new_buffer o1"
    using sz new_buffer_ok(2) by auto
  then have inv1: "buf_inv o1" and fits: "length (content b) \<le> writableBytes o1"
    using readable_content [OF inv] by (simp_all add: keeps_def)
  let ?o2 = "hasWritten (length (content b)) (o1\<lparr>vec := blit (beginWrite o1) (content b) (vec o1)\<rparr>)"
  have o2: "append_data (content b) o1 = Some ?o2"
    using fits inv1 by (simp add: append_data_def ensureWritableBytes_def)
  have len: "length (vec ?o2) = length (vec o1)"
    using fits inv1 by (auto simp: hasWritten_def buf_defs)
  have "keeps (1032 + n) b (fst (swap b ?o2))"
    using o1(4) write_ok(1) [OF inv1 fits] len r new_buffer_size
    by (auto simp: keeps_def swap_def buf_inv_def prependableBytes_def hasWritten_def)
  moreover have "content (fst (swap b ?o2)) = content b"
    using write_ok(2) [OF inv1 fits] o1(2) by (simp add: swap_def content_def)
  moreover have "kCheapPrepend \<le> prependableBytes (fst (swap b ?o2))"
    using o1(4) new_buffer_size by (simp add: keeps_def swap_def prependableBytes_def hasWritten_def)
  ultimately show ?thesis
    using o1(1) o2 r small inv by (simp add: shrink_def toStringPiece_content)
qed

section \<open>The interface\<close>

text \<open>
  What the codecs rely on: a buffer is a byte string with room for a small header in front. The
  lemmas hold for any provider of the operations; \<open>mbuf\<close> below is the one of this theory.
\<close>

locale byte_buffer =
  fixes new :: 'b
    and inv :: "'b \<Rightarrow> bool"
    and cont :: "'b \<Rightarrow> byte list"
    and room :: "'b \<Rightarrow> bool"
    and app :: "byte list \<Rightarrow> 'b \<Rightarrow> 'b option"
    and ret :: "nat \<Rightarrow> 'b \<Rightarrow> 'b option"
    and prep :: "byte list \<Rightarrow> 'b \<Rightarrow> 'b option"
  assumes new_ok: "inv new" "cont new = []" "room new"
    and app_ok: "inv b \<Longrightarrow> \<exists>b'. app d b = Some b' \<and> inv b' \<and> cont b' = cont b @ d \<and> (room b \<longrightarrow> room b')"
    and ret_ok: "inv b \<Longrightarrow> n \<le> length (cont b) \<Longrightarrow>
      \<exists>b'. ret n b = Some b' \<and> inv b' \<and> cont b' = drop n (cont b) \<and> (room b \<longrightarrow> room b')"
    and ret_assert: "inv b \<Longrightarrow> length (cont b) < n \<Longrightarrow> ret n b = None"
    and prep_ok: "inv b \<Longrightarrow> room b \<Longrightarrow> length h \<le> kCheapPrepend \<Longrightarrow>
      \<exists>b'. prep h b = Some b' \<and> inv b' \<and> cont b' = h @ cont b"
begin

text \<open>Parts appended one after the other, then a header put in front: how a frame is built.\<close>

primrec appends :: "byte list list \<Rightarrow> 'b \<Rightarrow> 'b option" where
  "appends [] b = Some b"
| "appends (d # ds) b = Option.bind (app d b) (appends ds)"

lemma appends_ok:
  "inv b \<Longrightarrow> \<exists>b'. appends ds b = Some b' \<and> inv b' \<and> cont b' = cont b @ concat ds \<and> (room b \<longrightarrow> room b')"
proof (induction ds arbitrary: b)
  case Nil
  then show ?case by simp
next
  case (Cons d ds)
  from app_ok [OF Cons.prems] obtain b1 where
    b1: "app d b = Some b1" "inv b1" "cont b1 = cont b @ d" "room b \<longrightarrow> room b1" by blast
  from Cons.IH [OF b1(2)] b1 show ?case by auto
qed

lemma frame_ok:
  assumes "length h \<le> kCheapPrepend"
  shows "\<exists>b. Option.bind (appends ds new) (prep h) = Some b \<and> inv b \<and> cont b = h @ concat ds"
proof -
  from appends_ok [OF new_ok(1)] obtain b1 where
    b1: "appends ds new = Some b1" "inv b1" "cont b1 = concat ds" "room b1"
    using new_ok by auto
  from prep_ok [OF b1(2,4) assms] b1 show ?thesis by auto
qed

lemma app_Some: "inv b \<Longrightarrow> app d b = Some b' \<Longrightarrow> inv b' \<and> cont b' = cont b @ d \<and> (room b \<longrightarrow> room b')"
  using app_ok [of b d] by auto

lemma ret_Some_iff:
  "inv b \<Longrightarrow> (\<exists>b'. ret n b = Some b') \<longleftrightarrow> n \<le> length (cont b)"
  using ret_ok [of b n] ret_assert [of b n] by (cases "n \<le> length (cont b)") auto

lemma ret_Some: "inv b \<Longrightarrow> ret n b = Some b' \<Longrightarrow> inv b' \<and> cont b' = drop n (cont b)"
  using ret_ok [of b n] ret_assert [of b n] by (cases "n \<le> length (cont b)") auto

end

interpretation mbuf: byte_buffer new_buffer buf_inv content cheap append_data retrieve prepend
proof unfold_locales
  show "buf_inv new_buffer" "content new_buffer = []" "cheap new_buffer"
    by (rule new_buffer_ok)+
next
  fix b d
  assume "buf_inv b"
  then show "\<exists>b'. append_data d b = Some b' \<and> buf_inv b' \<and> content b' = content b @ d \<and> (cheap b \<longrightarrow> cheap b')"
    by (rule append_data_ok)
next
  fix b n
  assume "buf_inv b" "n \<le> length (content b)"
  then show "\<exists>b'. retrieve n b = Some b' \<and> buf_inv b' \<and> content b' = drop n (content b) \<and> (cheap b \<longrightarrow> cheap b')"
    by (rule retrieve_ok)
next
  fix b n
  assume "buf_inv b" "length (content b) < n"
  then show "retrieve n b = None" by (rule retrieve_assert)
next
  fix b and h :: "byte list"
  assume "buf_inv b" "cheap b" "length h \<le> kCheapPrepend"
  then show "\<exists>b'. prepend h b = Some b' \<and> buf_inv b' \<and> content b' = h @ content b"
    by (intro prepend_ok) (auto simp: cheap_def)
qed

section \<open>Refinement of a byte queue\<close>

text \<open>
  A program of buffer operations, and its meaning on a plain byte string: the abstract queue
  knows no indices, no vector and no reallocation, only the bytes and the room \<open>p\<close> that is
  certainly free in front of them. Every operation has a result; a pointer into the readable
  bytes is its distance from \<open>peek\<close>.
\<close>

datatype buf_op = Append "byte list" | AppendInt32 u32 | AppendInt16 u16 | AppendInt8 byte
  | Prepend "byte list" | PrependInt32 u32 | PrependInt16 u16 | PrependInt8 byte
  | Retrieve nat | RetrieveUntil nat | RetrieveInt32 | RetrieveInt16 | RetrieveInt8
  | RetrieveAll | RetrieveAsString nat | RetrieveAllAsString
  | PeekInt32 | PeekInt16 | PeekInt8 | ReadInt32 | ReadInt16 | ReadInt8
  | FindCRLF | FindCRLFFrom nat | ToStringPiece | ReadableBytes
  | EnsureWritable nat | Shrink nat | ReadFd "byte list"

datatype buf_result = Done | Bytes "byte list" | Int32 u32 | Int16 u16 | Int8 byte
  | Offset "nat option" | Count nat

abbreviation done_with :: "'s option \<Rightarrow> (buf_result \<times> 's) option" where
  "done_with \<equiv> map_option (Pair Done)"

abbreviation q_result :: "('a \<Rightarrow> buf_result) \<Rightarrow> ('a \<times> 's) option \<Rightarrow> (buf_result \<times> 's) option" where
  "q_result f \<equiv> map_option (map_prod f id)"

abbreviation q_look :: "'s \<Rightarrow> ('a \<Rightarrow> buf_result) \<Rightarrow> 'a option \<Rightarrow> (buf_result \<times> 's) option" where
  "q_look s f \<equiv> map_option (\<lambda>x. (f x, s))"

primrec buf_step :: "buf_op \<Rightarrow> buffer \<Rightarrow> (buf_result \<times> buffer) option" where
  "buf_step (Append d) b = done_with (append_data d b)"
| "buf_step (AppendInt32 x) b = done_with (appendInt32 x b)"
| "buf_step (AppendInt16 x) b = done_with (appendInt16 x b)"
| "buf_step (AppendInt8 x) b = done_with (appendInt8 x b)"
| "buf_step (Prepend d) b = done_with (prepend d b)"
| "buf_step (PrependInt32 x) b = done_with (prependInt32 x b)"
| "buf_step (PrependInt16 x) b = done_with (prependInt16 x b)"
| "buf_step (PrependInt8 x) b = done_with (prependInt8 x b)"
| "buf_step (Retrieve n) b = done_with (retrieve n b)"
| "buf_step (RetrieveUntil k) b = done_with (retrieveUntil (peek b + k) b)"
| "buf_step RetrieveInt32 b = done_with (retrieveInt32 b)"
| "buf_step RetrieveInt16 b = done_with (retrieveInt16 b)"
| "buf_step RetrieveInt8 b = done_with (retrieveInt8 b)"
| "buf_step RetrieveAll b = Some (Done, retrieveAll b)"
| "buf_step (RetrieveAsString n) b = q_result Bytes (retrieveAsString n b)"
| "buf_step RetrieveAllAsString b = q_result Bytes (retrieveAllAsString b)"
| "buf_step PeekInt32 b = q_look b Int32 (peekInt32 b)"
| "buf_step PeekInt16 b = q_look b Int16 (peekInt16 b)"
| "buf_step PeekInt8 b = q_look b Int8 (peekInt8 b)"
| "buf_step ReadInt32 b = q_result Int32 (readInt32 b)"
| "buf_step ReadInt16 b = q_result Int16 (readInt16 b)"
| "buf_step ReadInt8 b = q_result Int8 (readInt8 b)"
| "buf_step FindCRLF b = Some (Offset (map_option (\<lambda>p. p - peek b) (findCRLF b)), b)"
| "buf_step (FindCRLFFrom k) b =
     q_look b (\<lambda>r. Offset (map_option (\<lambda>p. p - peek b) r)) (findCRLF_from (peek b + k) b)"
| "buf_step ToStringPiece b = Some (Bytes (toStringPiece b), b)"
| "buf_step ReadableBytes b = Some (Count (readableBytes b), b)"
| "buf_step (EnsureWritable n) b = done_with (ensureWritableBytes size_t n b)"
| "buf_step (Shrink n) b = done_with (shrink n b)"
| "buf_step (ReadFd d) b =
     map_option (map_prod (\<lambda>r. case r of Inl e \<Rightarrow> Done | Inr n \<Rightarrow> Count n) id)
       (readFd (Inr d :: unit + byte list) b)"

text \<open>The queue: a byte string and the certain room in front of it.\<close>

type_synonym queue = "nat \<times> byte list"

definition q_put :: "byte list \<Rightarrow> queue \<Rightarrow> queue option" where
  "q_put d s = (case s of (p, xs) \<Rightarrow> Some (p, xs @ d))"

definition q_front :: "byte list \<Rightarrow> queue \<Rightarrow> queue option" where
  "q_front d s = (case s of (p, xs) \<Rightarrow> if length d \<le> p then Some (p - length d, d @ xs) else None)"

definition q_take :: "nat \<Rightarrow> queue \<Rightarrow> (byte list \<times> queue) option" where
  "q_take n s = (case s of (p, xs) \<Rightarrow>
     if n \<le> length xs
     then Some (take n xs, (if n < length xs then min kCheapPrepend (p + n) else kCheapPrepend, drop n xs))
     else None)"

definition q_peek :: "nat \<Rightarrow> queue \<Rightarrow> byte list option" where
  "q_peek n s = (case s of (p, xs) \<Rightarrow> if n \<le> length xs then Some (take n xs) else None)"

text \<open>The number that bytes in network order denote.\<close>

abbreviation (input) be_num :: "byte list \<Rightarrow> 'a::len word" where
  "be_num xs \<equiv> le_word (rev xs)"

definition first_crlf :: "byte list \<Rightarrow> nat option" where
  "first_crlf xs = find (\<lambda>i. take 2 (drop i xs) = kCRLF) [0..<length xs]"

primrec queue_step :: "buf_op \<Rightarrow> queue \<Rightarrow> (buf_result \<times> queue) option" where
  "queue_step (Append d) s = done_with (q_put d s)"
| "queue_step (AppendInt32 x) s = done_with (q_put (be_bytes 4 x) s)"
| "queue_step (AppendInt16 x) s = done_with (q_put (be_bytes 2 x) s)"
| "queue_step (AppendInt8 x) s = done_with (q_put [x] s)"
| "queue_step (Prepend d) s = done_with (q_front d s)"
| "queue_step (PrependInt32 x) s = done_with (q_front (be_bytes 4 x) s)"
| "queue_step (PrependInt16 x) s = done_with (q_front (be_bytes 2 x) s)"
| "queue_step (PrependInt8 x) s = done_with (q_front [x] s)"
| "queue_step (Retrieve n) s = q_result (\<lambda>_. Done) (q_take n s)"
| "queue_step (RetrieveUntil k) s = q_result (\<lambda>_. Done) (q_take k s)"
| "queue_step RetrieveInt32 s = q_result (\<lambda>_. Done) (q_take 4 s)"
| "queue_step RetrieveInt16 s = q_result (\<lambda>_. Done) (q_take 2 s)"
| "queue_step RetrieveInt8 s = q_result (\<lambda>_. Done) (q_take 1 s)"
| "queue_step RetrieveAll s = Some (Done, (kCheapPrepend, []))"
| "queue_step (RetrieveAsString n) s = q_result Bytes (q_take n s)"
| "queue_step RetrieveAllAsString s = q_result Bytes (q_take (length (snd s)) s)"
| "queue_step PeekInt32 s = q_look s (\<lambda>d. Int32 (be_num d)) (q_peek 4 s)"
| "queue_step PeekInt16 s = q_look s (\<lambda>d. Int16 (be_num d)) (q_peek 2 s)"
| "queue_step PeekInt8 s = q_look s (\<lambda>d. Int8 (hd d)) (q_peek 1 s)"
| "queue_step ReadInt32 s = q_result (\<lambda>d. Int32 (be_num d)) (q_take 4 s)"
| "queue_step ReadInt16 s = q_result (\<lambda>d. Int16 (be_num d)) (q_take 2 s)"
| "queue_step ReadInt8 s = q_result (\<lambda>d. Int8 (hd d)) (q_take 1 s)"
| "queue_step FindCRLF s = Some (Offset (first_crlf (snd s)), s)"
| "queue_step (FindCRLFFrom k) s =
     (if k \<le> length (snd s) then Some (Offset (map_option ((+) k) (first_crlf (drop k (snd s)))), s) else None)"
| "queue_step ToStringPiece s = Some (Bytes (snd s), s)"
| "queue_step ReadableBytes s = Some (Count (length (snd s)), s)"
| "queue_step (EnsureWritable n) s = Some (Done, s)"
| "queue_step (Shrink n) s = Some (Done, (kCheapPrepend, snd s))"
| "queue_step (ReadFd d) s = map_option (Pair (Count (length d))) (q_put d s)"

primrec run_ops :: "('o \<Rightarrow> 's \<Rightarrow> ('r \<times> 's) option) \<Rightarrow> 'o list \<Rightarrow> 's \<Rightarrow> ('r list \<times> 's) option" where
  "run_ops step [] s = Some ([], s)"
| "run_ops step (p # ps) s = do {
     (r, s) \<leftarrow> step p s;
     (rs, s) \<leftarrow> run_ops step ps s;
     Some (r # rs, s)
   }"

text \<open>
  How many bytes an operation can add to the vector. The sizes of a program together stay below
  2 to the 31, the range of the \<open>int\<close> in \<open>toStringPiece\<close>.
\<close>

fun op_size :: "buf_op \<Rightarrow> nat" where
  "op_size (Append d) = length d"
| "op_size (AppendInt32 x) = 4"
| "op_size (AppendInt16 x) = 2"
| "op_size (AppendInt8 x) = 1"
| "op_size (EnsureWritable n) = n"
| "op_size (Shrink n) = 1032 + n"
| "op_size (ReadFd d) = length d"
| "op_size _ = 0"

fun prepends :: "buf_op \<Rightarrow> bool" where
  "prepends (Prepend d) = True"
| "prepends (PrependInt32 x) = True"
| "prepends (PrependInt16 x) = True"
| "prepends (PrependInt8 x) = True"
| "prepends _ = False"

definition q_rel :: "nat \<Rightarrow> buffer \<Rightarrow> queue \<Rightarrow> bool" where
  "q_rel n b s \<longleftrightarrow> buf_inv b \<and> content b = snd s \<and> fst s \<le> kCheapPrepend
     \<and> fst s \<le> prependableBytes b \<and> length (vec b) \<le> n"

text \<open>An operation of the buffer does what its counterpart does: same result, related states;
  \<open>strict\<close> says that it also fails where the counterpart does.\<close>

definition matches :: "nat \<Rightarrow> bool \<Rightarrow> ('r \<times> buffer) option \<Rightarrow> ('r \<times> queue) option \<Rightarrow> bool" where
  "matches n strict x y \<longleftrightarrow> (case y of
       Some (r, s) \<Rightarrow> (\<exists>b. x = Some (r, b) \<and> q_rel n b s)
     | None \<Rightarrow> strict \<longrightarrow> x = None)"

lemma matches_map:
  "matches n st x y \<Longrightarrow> matches n st (map_option (map_prod f id) x) (map_option (map_prod f id) y)"
  by (force simp: matches_def split: option.splits)

lemma matches_forget:
  "matches n st x y \<Longrightarrow> matches n st (done_with (map_option snd x)) (map_option (map_prod (\<lambda>_. Done) id) y)"
  by (force simp: matches_def split: option.splits)

lemma matches_put:
  assumes rel: "q_rel n b s" and k: "length d \<le> k"
  shows "matches (n + k) st (done_with (append_data d b)) (done_with (q_put d s))"
  using append_data_keeps [of b d] rel k
  by (cases s) (force simp: matches_def q_put_def q_rel_def keeps_def)

lemma length_prepend: "prepend d b = Some b' \<Longrightarrow> buf_inv b \<Longrightarrow>
    length (vec b') = length (vec b) \<and> readerIndex b' = readerIndex b - length d"
  by (auto simp: prepend_def Let_def buf_defs split: if_splits)

lemma matches_front:
  assumes rel: "q_rel n b s"
  shows "matches n False (done_with (prepend d b)) (done_with (q_front d s))"
proof (cases "length d \<le> fst s")
  case True
  with rel have "buf_inv b" "length d \<le> prependableBytes b" by (simp_all add: q_rel_def)
  from prepend_ok [OF this] obtain b' where b': "prepend d b = Some b'" "buf_inv b'" "content b' = d @ content b" by blast
  with length_prepend [OF b'(1)] rel True show ?thesis
    by (cases s) (force simp: matches_def q_front_def q_rel_def prependableBytes_def)
qed (cases s; simp add: matches_def q_front_def)

lemma matches_retrieve:
  assumes rel: "q_rel n b s"
  shows "matches n st (map_option (Pair (take k (content b))) (retrieve k b)) (q_take k s)"
proof (cases "k \<le> length (content b)")
  case True
  have inv: "buf_inv b" using rel by (simp add: q_rel_def)
  from retrieve_ok [OF inv True] obtain b' where b': "retrieve k b = Some b'" "buf_inv b'" "content b' = drop k (content b)" by blast
  moreover have "length (vec b') = length (vec b)
      \<and> readerIndex b' = (if k < length (content b) then readerIndex b + k else kCheapPrepend)"
    using b'(1) readable_content [OF inv] by (auto simp: retrieve_def retrieveAll_def split: if_splits)
  ultimately show ?thesis using rel True
    by (cases s) (auto simp: matches_def q_take_def q_rel_def prependableBytes_def)
next
  case False
  with rel retrieve_assert [of b k] show ?thesis
    by (cases s) (simp add: matches_def q_take_def q_rel_def)
qed

lemma matches_done_retrieve:
  "q_rel n b s \<Longrightarrow> matches n st (done_with (retrieve k b)) (q_result (\<lambda>_. Done) (q_take k s))"
  using matches_forget [OF matches_retrieve [of n b s st k]] by (simp add: option.map_comp o_def)

text \<open>The reads are a retrieve that hands out what the front held.\<close>

lemma retrieveAsString_eq:
  assumes "buf_inv b"
  shows "retrieveAsString n b = map_option (Pair (take n (content b))) (retrieve n b)"
  using assms by (cases "retrieve n b")
    (auto simp: retrieveAsString_def retrieve_def readable_content bytes_at_content split: if_splits)

lemma readInt32_eq:
  assumes "buf_inv b"
  shows "readInt32 b = map_option (Pair (be_num (take 4 (content b)))) (retrieve 4 b)"
  using assms peekInt32_ok [OF assms] peekInt32_assert [OF assms] retrieve_assert [OF assms]
  by (cases "4 \<le> length (content b)"; cases "retrieve 4 b") (auto simp: readInt32_def retrieveInt32_def)

lemma peekInt16_assert: "buf_inv b \<Longrightarrow> length (content b) < 2 \<Longrightarrow> peekInt16 b = None"
  by (simp add: peekInt16_def readable_content)

lemma peekInt8_assert: "buf_inv b \<Longrightarrow> length (content b) < 1 \<Longrightarrow> peekInt8 b = None"
  by (simp add: peekInt8_def readable_content)

lemma readInt16_eq:
  assumes "buf_inv b"
  shows "readInt16 b = map_option (Pair (be_num (take 2 (content b)))) (retrieve 2 b)"
  using assms peekInt16_ok [OF assms] peekInt16_assert [OF assms] retrieve_assert [OF assms]
  by (cases "2 \<le> length (content b)"; cases "retrieve 2 b") (auto simp: readInt16_def retrieveInt16_def)

lemma readInt8_eq:
  assumes "buf_inv b"
  shows "readInt8 b = map_option (Pair (hd (take 1 (content b)))) (retrieve 1 b)"
proof (cases "1 \<le> length (content b)")
  case True
  with assms peekInt8_ok [OF assms] show ?thesis
    by (cases "content b"; cases "retrieve (Suc 0) b") (auto simp: readInt8_def retrieveInt8_def)
next
  case False
  with assms peekInt8_assert [OF assms] retrieve_assert [OF assms, of 1] show ?thesis
    by (simp add: readInt8_def not_le)
qed

lemma matches_take:
  assumes "q_rel n b s"
  shows "matches n st (map_option (Pair (f (take k (content b)))) (retrieve k b)) (map_option (map_prod f id) (q_take k s))"
  using matches_map [OF matches_retrieve [OF assms, of st k], of f]
  by (simp add: option.map_comp o_def)

lemma matches_look:
  assumes "q_rel n b s"
    and "k \<le> length (content b) \<Longrightarrow> x = Some (f (take k (content b)))"
    and "length (content b) < k \<Longrightarrow> x = None"
  shows "matches n st (q_look b g x) (q_look s (\<lambda>d. g (f d)) (q_peek k s))"
  using assms by (cases "k \<le> length (content b)"; cases s) (auto simp: matches_def q_peek_def q_rel_def)

lemma matches_mono: "matches n st x y \<Longrightarrow> n \<le> m \<Longrightarrow> matches m st x y"
  by (fastforce simp: matches_def q_rel_def split: option.splits)

lemma find_first:
  assumes "n < m" "P n" "\<And>i. i < n \<Longrightarrow> \<not> P i"
  shows "find P [0..<m] = Some n"
  using assms by (auto simp: find_Some_iff intro!: exI [of _ n])

lemma search_crlf_find:
  "first_crlf xs = (if search_crlf xs = length xs then None else Some (search_crlf xs))"
proof (cases "search_crlf xs = length xs")
  case True
  then show ?thesis using search_crlf_first [of _ xs] by (auto simp: first_crlf_def find_None_iff)
next
  case False
  with search_crlf_le [of xs] have "search_crlf xs < length xs" by simp
  with False show ?thesis
    by (simp add: first_crlf_def find_first search_crlf_found search_crlf_first)
qed

lemma findCRLF_from_eq:
  assumes "buf_inv b"
  shows "findCRLF_from (peek b + k) b
    = (if k \<le> length (content b) then Some (map_option (\<lambda>i. peek b + (k + i)) (first_crlf (drop k (content b)))) else None)"
proof -
  have w: "beginWrite b = peek b + length (content b)" using assms by (simp add: buf_defs)
  have "bytes_at b (peek b + k) (beginWrite b - (peek b + k)) = drop k (content b)" if "k \<le> length (content b)"
    using that w by (simp add: bytes_at_def content_def drop_window peek_def) (simp add: buf_defs)
  with w show ?thesis by (auto simp: findCRLF_from_def search_crlf_find Let_def)
qed

lemma findCRLF_eq:
  assumes "buf_inv b"
  shows "findCRLF b = map_option (\<lambda>i. peek b + i) (first_crlf (content b))"
  using findCRLF_from_eq [OF assms, of 0] by (simp add: findCRLF_def findCRLF_from_def buf_defs Let_def split: if_splits)

lemma retrieveUntil_eq: "buf_inv b \<Longrightarrow> retrieveUntil (peek b + k) b = retrieve k b"
  by (cases "k \<le> length (content b)") (auto simp: retrieveUntil_def retrieve_def buf_defs)

lemma matches_keeps:
  assumes "q_rel n b s" "\<exists>b'. x = Some b' \<and> content b' = content b \<and> keeps k b b'"
  shows "matches (n + k) st (done_with x) (Some (Done, s))"
  using assms by (force simp: matches_def q_rel_def keeps_def)

lemma buf_step_refines:
  assumes rel: "q_rel n b s" and small: "n + op_size p < 2 ^ 31"
  shows "matches (n + op_size p) (\<not> prepends p) (buf_step p b) (queue_step p s)"
proof -
  have inv: "buf_inv b" and xs: "content b = snd s" and le: "length (vec b) \<le> n" and p: "fst s \<le> kCheapPrepend"
    using rel by (simp_all add: q_rel_def)
  show ?thesis
  proof (cases p)
    case (Append d)
    with matches_put [OF rel, of d "length d"] show ?thesis by simp
  next
    case (AppendInt32 x)
    with matches_put [OF rel, of "be_bytes 4 x" 4] show ?thesis by (simp add: appendInt32_eq)
  next
    case (AppendInt16 x)
    with matches_put [OF rel, of "be_bytes 2 x" 2] show ?thesis by (simp add: appendInt16_eq)
  next
    case (AppendInt8 x)
    with matches_put [OF rel, of "[x]" 1] show ?thesis by (simp add: appendInt8_def)
  next
    case (PrependInt8 x)
    with matches_front [OF rel, of "[x]"] show ?thesis by (simp add: prependInt8_def)
  next
    case (RetrieveUntil k)
    with matches_done_retrieve [OF rel] show ?thesis by (simp add: retrieveUntil_eq [OF inv])
  next
    case (RetrieveAsString k)
    with matches_take [OF rel, of _ Bytes k] show ?thesis
      by (simp add: retrieveAsString_eq [OF inv] option.map_comp o_def)
  next
    case RetrieveAllAsString
    with matches_take [OF rel, of _ Bytes "length (snd s)"] xs show ?thesis
      by (simp add: retrieveAllAsString_def retrieveAsString_eq [OF inv] readable_content [OF inv] option.map_comp o_def)
  next
    case PeekInt32
    with matches_look [OF rel, of 4 "peekInt32 b" "\<lambda>d. be_num d" _ Int32] inv show ?thesis
      by (simp add: peekInt32_ok peekInt32_assert)
  next
    case PeekInt16
    with matches_look [OF rel, of 2 "peekInt16 b" "\<lambda>d. be_num d" _ Int16] inv show ?thesis
      by (simp add: peekInt16_ok peekInt16_assert)
  next
    case ReadInt32
    with matches_take [OF rel, of _ "\<lambda>d. Int32 (be_num d)" 4] show ?thesis
      by (simp add: readInt32_eq [OF inv] option.map_comp o_def)
  next
    case ReadInt16
    with matches_take [OF rel, of _ "\<lambda>d. Int16 (be_num d)" 2] show ?thesis
      by (simp add: readInt16_eq [OF inv] option.map_comp o_def)
  next
    case ReadInt8
    with matches_take [OF rel, of _ "\<lambda>d. Int8 (hd d)" 1] show ?thesis
      by (simp add: readInt8_eq [OF inv] option.map_comp o_def)
  next
    case FindCRLF
    with rel xs show ?thesis
      by (simp add: matches_def findCRLF_eq [OF inv] option.map_comp o_def option.map_ident)
  next
    case (FindCRLFFrom k)
    with rel xs show ?thesis
      by (simp add: matches_def findCRLF_from_eq [OF inv] option.map_comp o_def)
  next
    case ToStringPiece
    with rel xs show ?thesis by (simp add: matches_def toStringPiece_content [OF inv])
  next
    case ReadableBytes
    with rel xs show ?thesis by (simp add: matches_def readable_content [OF inv])
  next
    case RetrieveAll
    with inv le show ?thesis
      by (simp add: matches_def q_rel_def retrieveAll_def buf_defs)
  next
    case (PeekInt8)
    with matches_look [OF rel, of 1 "peekInt8 b" hd _ Int8] inv show ?thesis
      by (simp add: peekInt8_ok peekInt8_assert hd_take)
  next
    case (EnsureWritable k)
    have "ensureWritableBytes size_t k b = ensureWritableBytes in_memory k b"
      using inv le small EnsureWritable by (intro ensure_size_t) (simp_all add: kCheapPrepend_def)
    then have "\<exists>b'. ensureWritableBytes size_t k b = Some b' \<and> content b' = content b \<and> keeps k b b'"
      using ensure_in_memory [OF inv, of k] by auto
    with matches_keeps [OF rel] EnsureWritable show ?thesis by simp
  next
    case (Shrink k)
    with shrink_keeps [OF inv, of k] le small rel show ?thesis
      by (cases s) (force simp: matches_def q_rel_def keeps_def)
  next
    case (ReadFd d)
    with readFd_keeps [where 'a = unit, OF inv, of d] rel show ?thesis
      by (cases s) (force simp: matches_def q_put_def q_rel_def keeps_def)
  qed (use rel in \<open>simp_all add: matches_front matches_done_retrieve prependInt32_eq prependInt16_eq
      retrieveInt32_def retrieveInt16_def retrieveInt8_def\<close>)
qed


lemma run_ops_refines:
  "q_rel n b s \<Longrightarrow> n + sum_list (map op_size ps) < 2 ^ 31 \<Longrightarrow>
    (\<forall>rs s'. run_ops queue_step ps s = Some (rs, s') \<longrightarrow> (\<exists>b' m. run_ops buf_step ps b = Some (rs, b') \<and> q_rel m b' s'))
    \<and> (run_ops queue_step ps s = None \<longrightarrow> (\<forall>p \<in> set ps. \<not> prepends p) \<longrightarrow> run_ops buf_step ps b = None)"
proof (induction ps arbitrary: n b s)
  case Nil
  then show ?case by auto
next
  case (Cons p ps)
  have step: "matches (n + op_size p) (\<not> prepends p) (buf_step p b) (queue_step p s)"
    using Cons.prems by (intro buf_step_refines) simp_all
  show ?case
  proof (cases "queue_step p s")
    case None
    with step show ?thesis by (simp add: matches_def)
  next
    case (Some rs)
    obtain r s' where rs: "rs = (r, s')" by (cases rs)
    with Some step have "\<exists>b'. buf_step p b = Some (r, b') \<and> q_rel (n + op_size p) b' s'"
      by (simp add: matches_def)
    then obtain b' where b': "buf_step p b = Some (r, b')" "q_rel (n + op_size p) b' s'" by blast
    have "n + op_size p + sum_list (map op_size ps) < 2 ^ 31" using Cons.prems(2) by simp
    note IH = Cons.IH [OF b'(2) this]
    show ?thesis
    proof (cases "run_ops queue_step ps s'")
      case None
      with IH Some rs b'(1) show ?thesis by simp
    next
      case run: (Some t)
      with IH obtain b'' m where "run_ops buf_step ps b' = Some (fst t, b'')" "q_rel m b'' (snd t)"
        by (metis prod.collapse)
      with run Some rs b'(1) show ?thesis by (auto split: prod.splits)
    qed
  qed
qed

section \<open>Properties\<close>


lemma sample_program:
  "run_ops queue_step [Append [65, 13, 10, 66], FindCRLF, ReadInt8, Prepend [67, 68], Shrink 5, RetrieveUntil 3,
      EnsureWritable 2000, ToStringPiece, RetrieveAllAsString] (kCheapPrepend, [])
    = Some ([Done, Offset (Some 1), Int8 65, Done, Done, Done, Done, Bytes [10, 66], Bytes [10, 66]], 8, [])"
proof -
  have "[0..<4] = [0, 1, 2, 3::nat]" by (simp add: upt_rec)
  then show ?thesis
    by (simp add: q_put_def q_front_def q_take_def first_crlf_def kCRLF_def kCheapPrepend_def)
qed


text \<open>A reservation at the end of the range of \<open>size_t\<close>, where the sum with the room in front
  wraps to almost nothing, fails an assertion instead of making room.\<close>
theorem huge_reservation_asserts:
  assumes "buf_inv b" "16 \<le> length (vec b)" "length (vec b) < 2 ^ 63"
    and "len < 2 ^ 64" "2 ^ 64 - kCheapPrepend \<le> len"
  shows "ensureWritableBytes size_t len b = None"
  using assms by (intro ensure_wraps) (simp_all add: kCheapPrepend_def)

theorem huge_reservation_asserts_witness:
  "ensureWritableBytes size_t (2 ^ 64 - 1) new_buffer = None"
  by (rule huge_reservation_asserts)
    (simp_all add: new_buffer_ok new_buffer_size kCheapPrepend_def)

text \<open>\<open>findCRLF\<close> returns the pointer to the first CRLF of the readable bytes, and the null
  pointer when they hold none.\<close>
theorem findCRLF_finds_first:
  assumes "buf_inv b"
  shows "findCRLF b = map_option (\<lambda>i. peek b + i)
    (find (\<lambda>i. take 2 (drop i (content b)) = kCRLF) [0..<length (content b)])"
  using findCRLF_eq [OF assms] by (simp add: first_crlf_def)

definition crlf_sample :: buffer where
  "crlf_sample = \<lparr>vec = [0, 0, 0, 0, 0, 0, 0, 0, 65, 13, 66, 13, 10, 13, 10],
     readerIndex = 8, writerIndex = 15\<rparr>"

theorem findCRLF_finds_first_witness:
  "buf_inv crlf_sample \<and> findCRLF crlf_sample = Some 11"
proof -
  have inv: "buf_inv crlf_sample"
    by (simp add: buf_inv_def crlf_sample_def kCheapPrepend_def)
  have c: "content crlf_sample = [65, 13, 66, 13, 10, 13, 10]"
    by (simp add: content_def crlf_sample_def window_def)
  have "[0..<7] = [0, 1, 2, 3, 4, 5, 6::nat]" by (simp add: upt_rec)
  then have "findCRLF crlf_sample = Some 11"
    by (simp add: findCRLF_finds_first [OF inv] c kCRLF_def) (simp add: crlf_sample_def peek_def)
  with inv show ?thesis by simp
qed

text \<open>What \<open>appendInt32\<close>, \<open>appendInt16\<close> and \<open>appendInt8\<close> write, the corresponding reads return in
  the same order, followed by whatever was appended after them.\<close>
theorem int_fields_roundtrip:
  assumes "buf_inv b" "content b = []"
  shows "do {
      b \<leftarrow> appendInt32 x b; b \<leftarrow> appendInt16 y b; b \<leftarrow> appendInt8 z b; b \<leftarrow> append_data rest b;
      (x', b) \<leftarrow> readInt32 b; (y', b) \<leftarrow> readInt16 b; (z', b) \<leftarrow> readInt8 b;
      Some (x', y', z', content b)
    } = Some (x, y, z, rest)"
proof -
  obtain b1 where b1: "appendInt32 x b = Some b1" "buf_inv b1" "content b1 = be_bytes 4 x"
    using append_data_ok [OF assms(1)] assms(2) by (auto simp: abs_simps)
  obtain b2 where b2: "appendInt16 y b1 = Some b2" "buf_inv b2"
    "content b2 = be_bytes 4 x @ be_bytes 2 y"
    using append_data_ok [OF b1(2)] b1(3) by (auto simp: abs_simps)
  obtain b3 where b3: "appendInt8 z b2 = Some b3" "buf_inv b3"
    "content b3 = be_bytes 4 x @ be_bytes 2 y @ [z]"
    using append_data_ok [OF b2(2)] b2(3) by (auto simp: appendInt8_def)
  obtain b4 where b4: "append_data rest b3 = Some b4" "buf_inv b4"
    "content b4 = be_bytes 4 x @ be_bytes 2 y @ z # rest"
    using append_data_ok [OF b3(2)] b3(3) by auto
  obtain b5 where b5: "readInt32 b4 = Some (x, b5)" "buf_inv b5" "content b5 = be_bytes 2 y @ z # rest"
    using readInt32_content [OF b4(2,3)] by auto
  obtain b6 where b6: "readInt16 b5 = Some (y, b6)" "buf_inv b6" "content b6 = z # rest"
    using readInt16_content [OF b5(2,3)] by auto
  obtain b7 where "readInt8 b6 = Some (z, b7)" "content b7 = rest"
    using readInt8_content [OF b6(2,3)] by auto
  with b1 b2 b3 b4 b5 b6 show ?thesis by simp
qed

theorem int_fields_roundtrip_witness:
  "do {
      b \<leftarrow> appendInt32 0xdeadbeef new_buffer; b \<leftarrow> appendInt16 0x1234 b; b \<leftarrow> appendInt8 0xff b;
      b \<leftarrow> append_data [1, 2] b;
      (x', b) \<leftarrow> readInt32 b; (y', b) \<leftarrow> readInt16 b; (z', b) \<leftarrow> readInt8 b;
      Some (x', y', z', content b)
    } = Some (0xdeadbeef, 0x1234, 0xff, [1, 2])"
  by (rule int_fields_roundtrip [OF new_buffer_ok(1,2)])

end
