(* ===== verification/Framing.thy ===== *)
theory Framing
  imports Buffer
begin

text \<open>
  What the message codecs have in common. A decoder looks at the bytes received so far and says
  that it must wait, that they are invalid, or that a message occupies the first \<open>n\<close> of them. A
  stream of bytes arrives in pieces, cut anywhere: the messages delivered must not depend on where.
  The codecs of the two programs are interpretations of the contract.
\<close>

datatype ('m, 'e) decoded = Wait | Bad 'e | Frame 'm nat

text \<open>All the frames at the front of the bytes, up to the first error; the bytes that are left.\<close>

function frames :: "(byte list \<Rightarrow> ('m, 'e) decoded) \<Rightarrow> byte list \<Rightarrow> ('m + 'e) list \<times> byte list" where
  "frames dec xs =
     (case dec xs of
        Wait \<Rightarrow> ([], xs)
      | Bad e \<Rightarrow> ([Inr e], xs)
      | Frame m n \<Rightarrow>
          if 0 < n \<and> n \<le> length xs
          then (let (es, rest) = frames dec (drop n xs) in (Inl m # es, rest))
          else ([], xs))"
  by auto
termination by (relation "measure (\<lambda>(dec, xs). length xs)") auto

declare frames.simps [simp del]

text \<open>The receiver: each piece is put behind the pending bytes, and the frames are taken out.\<close>

primrec feed :: "(byte list \<Rightarrow> ('m, 'e) decoded) \<Rightarrow> byte list list \<Rightarrow> byte list \<Rightarrow> ('m + 'e) list \<times> byte list" where
  "feed dec [] pending = ([], pending)"
| "feed dec (c # cs) pending =
     (let (es, pending) = frames dec (pending @ c);
          (es', pending) = feed dec cs pending
      in (es @ es', pending))"

primrec messages :: "('m + 'e) list \<Rightarrow> 'm list" where
  "messages [] = []"
| "messages (e # es) = (case e of Inl m \<Rightarrow> m # messages es | Inr _ \<Rightarrow> messages es)"

lemma messages_append [simp]: "messages (es @ es') = messages es @ messages es'"
  by (induction es) (auto split: sum.splits)

lemma messages_Inl [simp]: "messages (map Inl ms) = ms"
  by (induction ms) auto

lemma frames_wait: "dec xs = Wait \<Longrightarrow> frames dec xs = ([], xs)"
  by (simp add: frames.simps)

lemma frames_bad: "dec xs = Bad e \<Longrightarrow> frames dec xs = ([Inr e], xs)"
  by (simp add: frames.simps)

lemma frames_frame: "dec xs = Frame m n \<Longrightarrow> 0 < n \<Longrightarrow> n \<le> length xs \<Longrightarrow>
    frames dec xs = (Inl m # fst (frames dec (drop n xs)), snd (frames dec (drop n xs)))"
  by (subst frames.simps) (simp add: split_def Let_def)

section \<open>The contract\<close>

text \<open>
  A decision is final: more bytes do not change it. A frame is not empty and lies inside the bytes
  received. \<open>enc\<close> is the sender's encoding of the messages in \<open>ok\<close>: the decoder finds the frame at
  the front whatever follows.
\<close>

locale framing =
  fixes dec :: "byte list \<Rightarrow> ('m, 'e) decoded"
    and enc :: "'m \<Rightarrow> byte list"
    and ok :: "'m \<Rightarrow> bool"
  assumes stable: "dec xs \<noteq> Wait \<Longrightarrow> dec (xs @ ys) = dec xs"
    and inside: "dec xs = Frame m n \<Longrightarrow> 0 < n \<and> n \<le> length xs"
    and empty: "dec [] = Wait"
    and encoded: "ok m \<Longrightarrow> dec (enc m) = Frame m (length (enc m))"
begin

lemma frames_append:
  "frames dec xs = (es, rest) \<Longrightarrow>
     messages (fst (frames dec (xs @ ys))) = messages es @ messages (fst (frames dec (rest @ ys)))
     \<and> snd (frames dec (xs @ ys)) = snd (frames dec (rest @ ys))"
proof (induction "length xs" arbitrary: xs es rest rule: less_induct)
  case less
  show ?case
  proof (cases "dec xs")
    case Wait
    with less.prems show ?thesis by (simp add: frames_wait)
  next
    case (Bad e)
    with less.prems show ?thesis by (auto simp: frames_bad)
  next
    case (Frame m n)
    note n = inside [OF Frame]
    with Frame stable [of xs ys] have f: "dec (xs @ ys) = Frame m n" by simp
    obtain es1 where es: "es = Inl m # es1" and r: "frames dec (drop n xs) = (es1, rest)"
      using less.prems frames_frame [of dec xs m n] Frame n by (cases "frames dec (drop n xs)") auto
    have "length (drop n xs) < length xs" using n by auto
    from less.hyps [OF this r] es show ?thesis
      using frames_frame [of dec, OF f] n by simp
  qed
qed

lemma frames_settle: "snd (frames dec xs) = rest \<Longrightarrow> messages (fst (frames dec rest)) = []
    \<and> snd (frames dec rest) = rest"
  using frames_append [of xs "fst (frames dec xs)" rest "[]"] by (cases "frames dec xs") auto

text \<open>The messages and the pending bytes do not depend on how the stream was cut.\<close>

lemma feed_eq:
  "messages (fst (frames dec pending)) = [] \<Longrightarrow> snd (frames dec pending) = pending \<Longrightarrow>
     messages (fst (feed dec cs pending)) = messages (fst (frames dec (pending @ concat cs)))
     \<and> snd (feed dec cs pending) = snd (frames dec (pending @ concat cs))"
proof (induction cs arbitrary: pending)
  case Nil
  then show ?case by simp
next
  case (Cons c cs)
  obtain es r where f: "frames dec (pending @ c) = (es, r)" by fastforce
  then have "messages (fst (frames dec r)) = []" "snd (frames dec r) = r"
    using frames_settle [of "pending @ c" r] by simp_all
  from Cons.IH [OF this] f frames_append [OF f, of "concat cs"] show ?case
    by (simp add: split_def)
qed

lemma any_segmentation:
  "messages (fst (feed dec cs [])) = messages (fst (frames dec (concat cs)))
   \<and> snd (feed dec cs []) = snd (frames dec (concat cs))"
  using feed_eq [of "[]" cs] by (simp add: frames_wait empty)

lemma encoded_append: "ok m \<Longrightarrow> dec (enc m @ ys) = Frame m (length (enc m))"
  using stable [of "enc m" ys] encoded [of m] by simp

lemma frames_enc: "ok m \<Longrightarrow> frames dec (enc m @ ys)
    = (Inl m # fst (frames dec ys), snd (frames dec ys))"
  using frames_frame [of dec, OF encoded_append [of m ys]] inside [OF encoded [of m]] by simp

lemma frames_encs: "list_all ok ms \<Longrightarrow> frames dec (concat (map enc ms)) = (map Inl ms, [])"
  by (induction ms) (simp_all add: frames_enc frames_wait empty)

text \<open>What is sent arrives, in order and complete, whatever the pieces are.\<close>

lemma delivery:
  assumes "list_all ok ms" "concat cs = concat (map enc ms)"
  shows "messages (fst (feed dec cs [])) = ms \<and> snd (feed dec cs []) = []"
  using any_segmentation [of cs] assms by (simp add: frames_encs)

text \<open>When the whole stream is without error, no piece of it reports one.\<close>

lemma frames_append_clean:
  "fst (frames dec (xs @ ys)) = map Inl ms \<Longrightarrow> frames dec xs = (es, rest) \<Longrightarrow>
     frames dec (xs @ ys) = (es @ fst (frames dec (rest @ ys)), snd (frames dec (rest @ ys)))"
proof (induction "length xs" arbitrary: xs es ms rule: less_induct)
  case less
  show ?case
  proof (cases "dec xs")
    case Wait
    with less.prems(2) show ?thesis by (auto simp: frames_wait)
  next
    case (Bad e)
    with less.prems stable [of xs ys] show ?thesis by (auto simp: frames_bad map_eq_Cons_conv)
  next
    case (Frame m n)
    note n = inside [OF Frame]
    with Frame stable [of xs ys] have f: "dec (xs @ ys) = Frame m n" by simp
    obtain es1 where es: "es = Inl m # es1" and r: "frames dec (drop n xs) = (es1, rest)"
      using less.prems(2) frames_frame [of dec xs m n] Frame n by (cases "frames dec (drop n xs)") auto
    have u: "frames dec (xs @ ys) = (Inl m # fst (frames dec (drop n xs @ ys)), snd (frames dec (drop n xs @ ys)))"
      using frames_frame [of dec, OF f] n by simp
    with less.prems(1) obtain ms1 where "fst (frames dec (drop n xs @ ys)) = map Inl ms1" by auto
    from less.hyps [OF _ this r] n es u show ?thesis by auto
  qed
qed

lemma feed_clean:
  "fst (frames dec (pending @ concat cs)) = map Inl ms \<Longrightarrow> frames dec pending = ([], pending) \<Longrightarrow>
     fst (feed dec cs pending) = map Inl ms"
proof (induction cs arbitrary: pending ms)
  case Nil
  then show ?case by simp
next
  case (Cons c cs)
  obtain es r where f: "frames dec (pending @ c) = (es, r)" by fastforce
  have whole: "fst (frames dec ((pending @ c) @ concat cs)) = map Inl ms" using Cons.prems by simp
  from frames_append_clean [OF whole f] whole
  have sum: "map Inl ms = es @ fst (frames dec (r @ concat cs))" by simp
  then obtain ms2 where ms2: "fst (frames dec (r @ concat cs)) = map Inl ms2"
    by (metis append_eq_map_conv)
  obtain es2 r2 where g: "frames dec r = (es2, r2)" by fastforce
  have "messages es2 = []" "r2 = r" using frames_settle [of "pending @ c" r] f g by simp_all
  moreover have "map Inl ms2 = es2 @ fst (frames dec (r2 @ concat cs))"
    using frames_append_clean [OF ms2 g] ms2 by simp
  then obtain ms3 where "es2 = map Inl ms3" by (metis append_eq_map_conv)
  ultimately have "frames dec r = ([], r)" using g by simp
  from Cons.IH [OF ms2 this] f sum ms2 show ?case by (simp add: split_def)
qed

lemma delivery_clean:
  assumes "list_all ok ms" "concat cs = concat (map enc ms)"
  shows "feed dec cs [] = (map Inl ms, [])"
proof -
  have "fst (frames dec ([] @ concat cs)) = map Inl ms" using assms by (simp add: frames_encs)
  from feed_clean [OF this] delivery [OF assms] show ?thesis
    by (simp add: frames_wait empty prod_eq_iff)
qed

end

end
