(* ===== verification/ProtobufCodec.thy ===== *)
theory ProtobufCodec
  imports Framing
begin

text \<open>
  The codec of \<open>ProxyServer/ProtobufCodec.h\<close> and \<open>ProtobufCodec.cc\<close>: a frame is its length, the length
  of the type name, the type name with its NUL, the serialized message and an Adler-32 checksum.
  Protocol buffers and zlib are not part of the repository: the operations the codec calls on a
  message are a record of functions, and so is \<open>adler32\<close>. A null \<open>MessagePtr\<close> is \<open>None\<close>.
\<close>

section \<open>What the codec calls\<close>

record ('m, 'd) message_ops =
  GetTypeName :: "'m \<Rightarrow> byte list"
  IsInitialized :: "'m \<Rightarrow> bool"
  ByteSize :: "'m \<Rightarrow> nat"
  SerializeWithCachedSizesToArray :: "'m \<Rightarrow> byte list"
  FindMessageTypeByName :: "byte list \<Rightarrow> 'd option"
  GetPrototype :: "'d \<Rightarrow> 'm option"
  New :: "'m \<Rightarrow> 'm"
  ParseFromArray :: "byte list \<Rightarrow> 'm \<Rightarrow> bool \<times> 'm"
  adler32 :: "u32 \<Rightarrow> byte list \<Rightarrow> u32"

section \<open>Constants and error codes\<close>

definition kHeaderLen :: int where "kHeaderLen = 4"

definition kMinMessageLen :: int where "kMinMessageLen = 2 * kHeaderLen + 2"

definition kMaxMessageLen :: int where "kMaxMessageLen = 64 * 1024 * 1024"

datatype ErrorCode = kNoError | kInvalidLength | kCheckSumError | kInvalidNameLen
  | kUnknownMessageType | kParseError

primrec errorCodeToString :: "ErrorCode \<Rightarrow> string" where
  "errorCodeToString kNoError = ''NoError''"
| "errorCodeToString kInvalidLength = ''InvalidLength''"
| "errorCodeToString kCheckSumError = ''CheckSumError''"
| "errorCodeToString kInvalidNameLen = ''InvalidNameLen''"
| "errorCodeToString kUnknownMessageType = ''UnknownMessageType''"
| "errorCodeToString kParseError = ''ParseError''"

section \<open>Encoding\<close>

text \<open>
  The message is written straight behind the write index; a size that differs from the one the
  message announced is a fatal error.
\<close>

definition fillEmptyBuffer :: "('m, 'd) message_ops \<Rightarrow> 'm \<Rightarrow> buffer \<Rightarrow> buffer option" where
  "fillEmptyBuffer ops message buf = do {
     assert_that (readableBytes buf = 0);
     let typeName = GetTypeName ops message;
     let nameLen = length typeName + 1;
     buf \<leftarrow> appendInt32 (word_of_nat nameLen) buf;
     buf \<leftarrow> append_data (typeName @ [0]) buf;
     assert_that (IsInitialized ops message);
     let byte_size = ByteSize ops message;
     buf \<leftarrow> ensureWritableBytes size_t byte_size buf;
     let data = SerializeWithCachedSizesToArray ops message;
     assert_that (length data = byte_size);
     let buf = hasWritten byte_size (buf\<lparr>vec := blit (beginWrite buf) data (vec buf)\<rparr>);
     let checkSum = adler32 ops 1 (bytes_at buf (peek buf) (readableBytes buf));
     buf \<leftarrow> appendInt32 checkSum buf;
     assert_that (readableBytes buf = 4 + nameLen + byte_size + 4);
     let len = hostToNetwork32 (word_of_nat (readableBytes buf));
     prepend (le_bytes 4 len) buf
   }"

text \<open>\<open>send\<close> hands the readable bytes of a fresh buffer to the connection.\<close>

definition send :: "('m, 'd) message_ops \<Rightarrow> 'm \<Rightarrow> byte list option" where
  "send ops message = do {
     buf \<leftarrow> fillEmptyBuffer ops message new_buffer;
     Some (toStringPiece buf)
   }"

section \<open>Decoding\<close>

definition asInt32 :: "byte list \<Rightarrow> u32" where
  "asInt32 buf = (let be32 = le_word (take 4 buf) in networkToHost32 be32)"

definition createMessage :: "('m, 'd) message_ops \<Rightarrow> byte list \<Rightarrow> 'm option" where
  "createMessage ops typeName =
     (case FindMessageTypeByName ops typeName of
        None \<Rightarrow> None
      | Some descriptor \<Rightarrow>
          (case GetPrototype ops descriptor of
             None \<Rightarrow> None
           | Some prototype \<Rightarrow> Some (New ops prototype)))"

text \<open>\<open>len\<close> is at least \<open>kMinMessageLen\<close> here; lengths read from the bytes are signed.\<close>

definition parse :: "('m, 'd) message_ops \<Rightarrow> byte list \<Rightarrow> int \<Rightarrow> 'm option \<times> ErrorCode" where
  "parse ops buf len =
     (let expectedCheckSum = asInt32 (drop (nat (len - kHeaderLen)) buf);
          checkSum = adler32 ops 1 (take (nat (len - kHeaderLen)) buf)
      in if checkSum = expectedCheckSum then
           let nameLen = sint (asInt32 buf)
           in if 2 \<le> nameLen \<and> nameLen \<le> len - 2 * kHeaderLen then
                let typeName = take (nat (nameLen - 1)) (drop (nat kHeaderLen) buf)
                in (case createMessage ops typeName of
                      Some message \<Rightarrow>
                        let data = drop (nat (kHeaderLen + nameLen)) buf;
                            dataLen = len - nameLen - 2 * kHeaderLen;
                            (parsed, message) = ParseFromArray ops (take (nat dataLen) data) message
                        in (Some message, if parsed then kNoError else kParseError)
                    | None \<Rightarrow> (None, kUnknownMessageType))
              else (None, kInvalidNameLen)
         else (None, kCheckSumError))"

text \<open>The calls of the two callbacks; the error callback may change the buffer.\<close>

datatype 'm call = messageCallback 'm | errorCallback ErrorCode

function onMessage ::
  "('m, 'd) message_ops \<Rightarrow> (ErrorCode \<Rightarrow> buffer \<Rightarrow> buffer) \<Rightarrow> buffer \<Rightarrow> ('m call list \<times> buffer) option" where
  "onMessage ops ecb buf =
     (if int (readableBytes buf) < kMinMessageLen + kHeaderLen then Some ([], buf)
      else case peekInt32 buf of
        None \<Rightarrow> None
      | Some be \<Rightarrow>
          let len = sint be
          in if kMaxMessageLen < len \<or> len < kMinMessageLen then
               Some ([errorCallback kInvalidLength], ecb kInvalidLength buf)
             else if nat (len + kHeaderLen) \<le> readableBytes buf then
               (case parse ops (bytes_at buf (peek buf + nat kHeaderLen) (nat len)) len of
                  (Some message, kNoError) \<Rightarrow>
                    (case retrieve (nat (kHeaderLen + len)) buf of
                       None \<Rightarrow> None
                     | Some buf' \<Rightarrow>
                         (case onMessage ops ecb buf' of
                            None \<Rightarrow> None
                          | Some (calls, buf'') \<Rightarrow> Some (messageCallback message # calls, buf'')))
                | (_, errorCode) \<Rightarrow> Some ([errorCallback errorCode], ecb errorCode buf))
             else Some ([], buf))"
  by pat_completeness auto
termination
proof (relation "measure (\<lambda>(ops, ecb, buf). readableBytes buf)")
qed (auto simp: retrieve_def retrieveAll_def readableBytes_def kHeaderLen_def kMinMessageLen_def
    split: if_splits)

declare onMessage.simps [simp del]

section \<open>The decoder and the encoder on byte strings\<close>

definition pb_dec :: "('m, 'd) message_ops \<Rightarrow> byte list \<Rightarrow> ('m, ErrorCode) decoded" where
  "pb_dec ops xs =
     (if length xs < 14 then Wait
      else let len = sint (le_word (rev (take 4 xs)) :: u32)
           in if kMaxMessageLen < len \<or> len < kMinMessageLen then Bad kInvalidLength
              else if nat len + 4 \<le> length xs then
                (case parse ops (take (nat len) (drop 4 xs)) len of
                   (Some message, kNoError) \<Rightarrow> Frame message (nat len + 4)
                 | (_, errorCode) \<Rightarrow> Bad errorCode)
              else Wait)"

definition pb_body :: "('m, 'd) message_ops \<Rightarrow> 'm \<Rightarrow> byte list" where
  "pb_body ops m = be_bytes 4 (word_of_nat (length (GetTypeName ops m) + 1) :: u32)
     @ GetTypeName ops m @ [0] @ SerializeWithCachedSizesToArray ops m"

definition pb_len :: "('m, 'd) message_ops \<Rightarrow> 'm \<Rightarrow> nat" where
  "pb_len ops m = length (GetTypeName ops m) + length (SerializeWithCachedSizesToArray ops m) + 9"

definition pb_enc :: "('m, 'd) message_ops \<Rightarrow> 'm \<Rightarrow> byte list" where
  "pb_enc ops m = be_bytes 4 (word_of_nat (pb_len ops m) :: u32)
     @ pb_body ops m @ be_bytes 4 (adler32 ops 1 (pb_body ops m))"

text \<open>
  A message the codec carries: the library serializes it to the size it announced, its type is
  registered, parsing its bytes into a new object gives it back, and it fits the limit.
\<close>

definition message_ok :: "('m, 'd) message_ops \<Rightarrow> 'm \<Rightarrow> bool" where
  "message_ok ops m \<longleftrightarrow>
     IsInitialized ops m \<and> ByteSize ops m = length (SerializeWithCachedSizesToArray ops m)
     \<and> GetTypeName ops m \<noteq> []
     \<and> (case createMessage ops (GetTypeName ops m) of
          None \<Rightarrow> False
        | Some p \<Rightarrow> ParseFromArray ops (SerializeWithCachedSizesToArray ops m) p = (True, m))
     \<and> pb_len ops m \<le> nat kMaxMessageLen"

lemmas pb_consts = kHeaderLen_def kMinMessageLen_def kMaxMessageLen_def

lemma length_pb: "length (pb_body ops m) + 4 = pb_len ops m" "length (pb_enc ops m) = pb_len ops m + 4"
  by (simp_all add: pb_body_def pb_len_def pb_enc_def)

lemma sint_small: "int n < 2 ^ 31 \<Longrightarrow> sint (word_of_nat n :: u32) = int n"
  by (simp add: signed_of_nat signed_take_bit_int_eq_self)

lemma asInt32_be [simp]: "asInt32 (be_bytes 4 x @ ys) = x"
  by (simp add: asInt32_def order32.load)

lemma parse_ok:
  assumes "message_ok ops m"
  shows "parse ops (pb_body ops m @ be_bytes 4 (adler32 ops 1 (pb_body ops m))) (int (pb_len ops m))
    = (Some m, kNoError)"
proof -
  let ?n = "length (GetTypeName ops m)" and ?d = "SerializeWithCachedSizesToArray ops m"
  let ?nl = "be_bytes 4 (word_of_nat (?n + 1) :: u32)"
  have small: "int (?n + 1) < 2 ^ 31" "0 < ?n"
    using assms by (auto simp: message_ok_def pb_len_def pb_consts)
  from assms obtain p where p: "createMessage ops (GetTypeName ops m) = Some p"
    "ParseFromArray ops ?d p = (True, m)"
    by (auto simp: message_ok_def split: option.splits)
  have len: "nat (int (pb_len ops m) - 4) = length (pb_body ops m)"
    using length_pb(1) [of ops m] by simp
  have nl: "sint (asInt32 (pb_body ops m @ be_bytes 4 (adler32 ops 1 (pb_body ops m)))) = int (?n + 1)"
    unfolding pb_body_def append_assoc asInt32_be by (rule sint_small [OF small(1)])
  have name: "take ?n (drop 4 (pb_body ops m @ be_bytes 4 (adler32 ops 1 (pb_body ops m)))) = GetTypeName ops m"
    by (simp add: pb_body_def)
  have data: "take (length ?d) (drop (4 + (?n + 1)) (pb_body ops m @ be_bytes 4 (adler32 ops 1 (pb_body ops m)))) = ?d"
    by (simp add: pb_body_def)
  show ?thesis
    using small p nl name data
    by (simp add: parse_def Let_def pb_consts len asInt32_be [of _ "[]", simplified] del: of_nat_add)
      (simp add: pb_len_def nat_add_distrib Suc_le_eq)
qed


lemma pb_dec_enc: "message_ok ops m \<Longrightarrow> pb_dec ops (pb_enc ops m) = Frame m (length (pb_enc ops m))"
proof -
  assume ok: "message_ok ops m"
  then have max: "int (pb_len ops m) \<le> kMaxMessageLen" "10 \<le> pb_len ops m"
    by (auto simp: message_ok_def pb_len_def pb_consts Suc_le_eq)
  define r where "r = pb_body ops m @ be_bytes 4 (adler32 ops 1 (pb_body ops m))"
  have len: "sint (le_word (rev (take 4 (pb_enc ops m))) :: u32) = int (pb_len ops m)"
    using max by (simp add: pb_enc_def sint_small pb_consts)
  have "take (pb_len ops m) (drop 4 (pb_enc ops m)) = r" "take (pb_len ops m) r = r"
    using length_pb(1) [of ops m] by (simp_all add: pb_enc_def r_def)
  with parse_ok [OF ok, folded r_def] max show ?thesis
    by (simp add: pb_dec_def len length_pb pb_consts Let_def)
qed

lemma pb_dec_stable: "pb_dec ops xs \<noteq> Wait \<Longrightarrow> pb_dec ops (xs @ ys) = pb_dec ops xs"
  by (auto simp: pb_dec_def Let_def split: if_splits)

lemma pb_dec_inside: "pb_dec ops xs = Frame m n \<Longrightarrow> 0 < n \<and> n \<le> length xs"
  by (auto simp: pb_dec_def Let_def split: if_splits prod.splits option.splits ErrorCode.splits)

interpretation pb: framing "pb_dec ops" "pb_enc ops" "message_ok ops" for ops
  by unfold_locales (simp_all add: pb_dec_stable pb_dec_inside pb_dec_enc, simp add: pb_dec_def)

section \<open>The codec implements them\<close>

lemma fillEmptyBuffer_ok:
  assumes ok: "message_ok ops m" and b: "buf_inv b" "cheap b" "content b = []"
    and small: "length (vec b) < 2 ^ 32"
  shows "\<exists>b'. fillEmptyBuffer ops m b = Some b' \<and> buf_inv b' \<and> content b' = pb_enc ops m"
proof -
  let ?name = "GetTypeName ops m" and ?d = "SerializeWithCachedSizesToArray ops m"
  have ser: "ByteSize ops m = length ?d" "IsInitialized ops m" using ok by (simp_all add: message_ok_def)
  obtain b1 where b1: "appendInt32 (word_of_nat (length ?name + 1)) b = Some b1" "buf_inv b1" "cheap b1"
    "content b1 = be_bytes 4 (word_of_nat (length ?name + 1) :: u32)" "length (vec b1) \<le> length (vec b) + 4"
    using append_data_keeps [OF b(1), of "be_bytes 4 (word_of_nat (length ?name + 1) :: u32)"] b
    by (auto simp: appendInt32_eq keeps_def cheap_def)
  obtain b2 where b2: "append_data (?name @ [0]) b1 = Some b2" "buf_inv b2" "cheap b2"
    "content b2 = content b1 @ ?name @ [0]" "length (vec b2) \<le> length (vec b1) + length ?name + 1"
    using append_data_keeps [OF b1(2), of "?name @ [0]"] b1 by (auto simp: keeps_def cheap_def)
  have "pb_len ops m \<le> 67108864" using ok by (simp add: message_ok_def pb_consts)
  then have "length (vec b2) + length ?d + kCheapPrepend < 2 ^ 64"
    using b1(5) b2(5) small by (simp add: pb_len_def kCheapPrepend_def)
  from ensure_size_t [OF b2(2) this] ensure_in_memory [OF b2(2), of "length ?d"]
  obtain b3 where b3: "ensureWritableBytes size_t (length ?d) b2 = Some b3" "buf_inv b3" "cheap b3"
    "content b3 = content b2" "length ?d \<le> writableBytes b3"
    using b2(3) by (auto simp: keeps_def cheap_def)
  let ?b4 = "hasWritten (length ?d) (b3\<lparr>vec := blit (beginWrite b3) ?d (vec b3)\<rparr>)"
  have b4: "buf_inv ?b4" "content ?b4 = pb_body ops m" "cheap ?b4"
    using write_ok [OF b3(2,5)] b3 b2 b1 by (simp_all add: pb_body_def)
  have piece: "bytes_at ?b4 (peek ?b4) (readableBytes ?b4) = pb_body ops m"
    using toStringPiece_content [OF b4(1)] b4(2) by (simp add: toStringPiece_def)
  obtain b5 where b5: "appendInt32 (adler32 ops 1 (pb_body ops m)) ?b4 = Some b5" "buf_inv b5" "cheap b5"
    "content b5 = pb_body ops m @ be_bytes 4 (adler32 ops 1 (pb_body ops m))"
    using append_data_ok [OF b4(1)] b4 by (auto simp: appendInt32_eq)
  have len: "readableBytes b5 = pb_len ops m"
    using readable_content [OF b5(2)] b5(4) length_pb(1) [of ops m] by simp
  obtain b6 where b6: "prepend (be_bytes 4 (word_of_nat (pb_len ops m) :: u32)) b5 = Some b6" "buf_inv b6"
    "content b6 = pb_enc ops m"
    using prepend_ok [OF b5(2)] b5 by (force simp: cheap_def kCheapPrepend_def pb_enc_def)
  have "readableBytes b = 0" using b by (simp add: readable_content)
  moreover have "pb_len ops m = 4 + (length ?name + 1) + length ?d + 4" by (simp add: pb_len_def)
  ultimately show ?thesis
    using b1(1) b2(1) b3(1) b5(1) b6 ser len piece
    by (simp add: fillEmptyBuffer_def Let_def order32.store del: of_nat_add of_nat_Suc)
qed

lemma send_ok: "message_ok ops m \<Longrightarrow> send ops m = Some (pb_enc ops m)"
  using fillEmptyBuffer_ok [OF _ new_buffer_ok(1,3,2)] new_buffer_size by (force simp: send_def toStringPiece_content)

primrec to_call :: "'m + ErrorCode \<Rightarrow> 'm call" where
  "to_call (Inl m) = messageCallback m"
| "to_call (Inr e) = errorCallback e"

text \<open>The loop over the buffer is \<open>frames\<close> over its content, when the error callback leaves it alone.\<close>

lemma bytes_at_offset:
  "buf_inv b \<Longrightarrow> k + n \<le> length (content b) \<Longrightarrow> bytes_at b (peek b + k) n = take n (drop k (content b))"
  by (simp add: bytes_at_def buf_defs drop_window take_window add.assoc)

lemma onMessage_frames:
  "buf_inv b \<Longrightarrow> \<exists>b'. onMessage ops (\<lambda>e b. b) b = Some (map to_call (fst (frames (pb_dec ops) (content b))), b')
     \<and> buf_inv b' \<and> content b' = snd (frames (pb_dec ops) (content b))"
proof (induction "length (content b)" arbitrary: b rule: less_induct)
  case less
  note inv = less.prems
  have rd: "readableBytes b = length (content b)" by (rule readable_content [OF inv])
  show ?case
  proof (cases "length (content b) < 14")
    case True
    then have "pb_dec ops (content b) = Wait" by (simp add: pb_dec_def)
    with True inv rd show ?thesis
      by (simp add: onMessage.simps [of ops _ b] frames_wait pb_consts)
  next
    case False
    let ?len = "sint (le_word (rev (take 4 (content b))) :: u32)"
    have pk: "peekInt32 b = Some (le_word (rev (take 4 (content b))))"
      using False inv by (intro peekInt32_ok) simp_all
    note unf = onMessage.simps [of ops _ b] pb_dec_def
    consider (bad) "kMaxMessageLen < ?len \<or> ?len < kMinMessageLen"
      | (wait) "?len \<le> kMaxMessageLen" "kMinMessageLen \<le> ?len" "length (content b) < nat ?len + 4"
      | (frame) "?len \<le> kMaxMessageLen" "kMinMessageLen \<le> ?len" "nat ?len + 4 \<le> length (content b)"
      by linarith
    then show ?thesis
    proof cases
      case bad
      then have "pb_dec ops (content b) = Bad kInvalidLength" using False by (auto simp: pb_dec_def)
      with False bad inv rd pk show ?thesis
        by (auto simp: onMessage.simps [of ops _ b] frames_bad pb_consts)
    next
      case wait
      then have "pb_dec ops (content b) = Wait" using False by (auto simp: pb_dec_def Let_def)
      with False wait inv rd pk show ?thesis
        by (auto simp: onMessage.simps [of ops _ b] frames_wait pb_consts Let_def)
    next
      case frame
      let ?piece = "take (nat ?len) (drop 4 (content b))"
      have piece: "bytes_at b (peek b + nat kHeaderLen) (nat ?len) = ?piece"
        using bytes_at_offset [OF inv, of 4 "nat ?len"] frame by (simp add: kHeaderLen_def)
      have c: "\<not> int (length (content b)) < kMinMessageLen + kHeaderLen"
        "nat (?len + kHeaderLen) \<le> length (content b)"
        using False frame(2,3) by (auto simp: pb_consts nat_add_distrib)
      obtain mo e where pr: "parse ops ?piece ?len = (mo, e)" by fastforce
      have unf: "onMessage ops (\<lambda>e b. b) b = (case (mo, e) of
          (Some message, kNoError) \<Rightarrow>
            (case retrieve (nat (kHeaderLen + ?len)) b of
               None \<Rightarrow> None
             | Some buf' \<Rightarrow>
                 (case onMessage ops (\<lambda>e b. b) buf' of
                    None \<Rightarrow> None
                  | Some (calls, buf'') \<Rightarrow> Some (messageCallback message # calls, buf'')))
        | (_, errorCode) \<Rightarrow> Some ([errorCallback errorCode], b))"
        using c piece frame(1,2) rd pk pr by (simp add: onMessage.simps [of ops _ b] Let_def)
      show ?thesis
      proof (cases "\<exists>m. mo = Some m \<and> e = kNoError")
        case True
        then obtain m where m: "mo = Some m" "e = kNoError" by blast
        have fr: "pb_dec ops (content b) = Frame m (nat ?len + 4)"
          using False frame pr m by (simp add: pb_dec_def Let_def)
        have k: "nat (kHeaderLen + ?len) = nat ?len + 4"
          using frame(2) by (simp add: pb_consts nat_add_distrib)
        obtain b1 where b1: "retrieve (nat ?len + 4) b = Some b1" "buf_inv b1"
          "content b1 = drop (nat ?len + 4) (content b)"
          using retrieve_ok [OF inv frame(3)] by blast
        have "length (content b1) < length (content b)" using b1(3) False by simp
        from less.hyps [OF this b1(2)] b1 m fr frame show ?thesis
          by (auto simp: unf k frames_frame)
      next
        case no: False
        then have bad: "pb_dec ops (content b) = Bad e"
          using False frame pr by (auto simp: pb_dec_def Let_def split: option.splits ErrorCode.splits)
        from no have "onMessage ops (\<lambda>e b. b) b = Some ([errorCallback e], b)"
          by (auto simp: unf split: option.splits ErrorCode.splits)
        with bad inv show ?thesis by (simp add: frames_bad)
      qed
    qed
  qed
qed

section \<open>Receiving from the socket\<close>

text \<open>
  The input buffer of a connection, filled by \<open>readFd\<close> with each piece the kernel delivers, the
  codec's \<open>onMessage\<close> called after each of them with the default error callback, which does not
  touch the buffer.
\<close>

primrec receive :: "('m, 'd) message_ops \<Rightarrow> byte list list \<Rightarrow> buffer \<Rightarrow> ('m call list \<times> buffer) option" where
  "receive ops [] b = Some ([], b)"
| "receive ops (c # cs) b = do {
     (n, b) \<leftarrow> readFd (Inr c :: unit + byte list) b;
     (calls, b) \<leftarrow> onMessage ops (\<lambda>e b. b) b;
     (calls', b) \<leftarrow> receive ops cs b;
     Some (calls @ calls', b)
   }"

primrec delivered :: "'m call list \<Rightarrow> 'm list" where
  "delivered [] = []"
| "delivered (c # cs) = (case c of messageCallback m \<Rightarrow> m # delivered cs | errorCallback e \<Rightarrow> delivered cs)"

lemma delivered_to_call: "delivered (map to_call es) = messages es"
  by (induction es) (auto split: sum.splits)

lemma receive_feed:
  "buf_inv b \<Longrightarrow> \<exists>b'. receive ops cs b = Some (map to_call (fst (feed (pb_dec ops) cs (content b))), b')
     \<and> buf_inv b' \<and> content b' = snd (feed (pb_dec ops) cs (content b))"
proof (induction cs arbitrary: b)
  case Nil
  then show ?case by simp
next
  case (Cons c cs)
  obtain n b1 where b1: "readFd (Inr c :: unit + byte list) b = Some (n, b1)" "buf_inv b1"
    "content b1 = content b @ c"
    using readFd_ok [OF Cons.prems] by blast
  obtain b2 where b2: "onMessage ops (\<lambda>e b. b) b1
      = Some (map to_call (fst (frames (pb_dec ops) (content b1))), b2)" "buf_inv b2"
    "content b2 = snd (frames (pb_dec ops) (content b1))"
    using onMessage_frames [OF b1(2)] by blast
  from Cons.IH [OF b2(2)] b1 b2 show ?case by (auto simp: split_def Let_def)
qed

section \<open>Properties\<close>

text \<open>C3: Whatever the pieces the network cuts the stream of sent messages into, the receiver's codec
  calls the message callback once for each of them, in the order they were sent, reports no error,
  fails no assertion and leaves no byte in the input buffer.\<close>
theorem sent_messages_arrive:
  assumes "list_all (message_ok ops) ms" "map Some pieces = map (send ops) ms" "concat cs = concat pieces"
  shows "\<exists>b. receive ops cs new_buffer = Some (map messageCallback ms, b) \<and> content b = []"
proof -
  have "map Some pieces = map Some (map (pb_enc ops) ms)"
    using assms(1,2) by (simp add: list_all_iff send_ok)
  then have "pieces = map (pb_enc ops) ms" by (simp only: inj_map_eq_map inj_Some)
  with assms(3) pb.delivery_clean [OF assms(1), of cs]
  have "feed (pb_dec ops) cs [] = (map Inl ms, [])" by simp
  with receive_feed [OF new_buffer_ok(1), of ops cs] show ?thesis
    by (auto simp: new_buffer_ok(2))
qed

text \<open>C7: For any bytes at all, well-formed or not, the messages delivered and the bytes left in the
  buffer are the same whether the bytes arrive in one piece or cut in any way, and no assertion fails.\<close>
theorem segmentation_independent:
  "\<exists>calls b calls1 b1. receive ops cs new_buffer = Some (calls, b)
     \<and> receive ops [concat cs] new_buffer = Some (calls1, b1)
     \<and> delivered calls = delivered calls1 \<and> content b = content b1"
proof -
  obtain b where b: "receive ops cs new_buffer = Some (map to_call (fst (feed (pb_dec ops) cs [])), b)"
    "content b = snd (feed (pb_dec ops) cs [])"
    using receive_feed [OF new_buffer_ok(1), of ops cs] by (auto simp: new_buffer_ok(2))
  obtain b1 where b1: "receive ops [concat cs] new_buffer
      = Some (map to_call (fst (feed (pb_dec ops) [concat cs] [])), b1)"
    "content b1 = snd (feed (pb_dec ops) [concat cs] [])"
    using receive_feed [OF new_buffer_ok(1), of ops "[concat cs]"] by (auto simp: new_buffer_ok(2))
  show ?thesis
    using b b1 pb.any_segmentation [of ops cs] pb.any_segmentation [of ops "[concat cs]"]
    by (auto simp: delivered_to_call simp del: feed.simps)
qed

section \<open>An instance\<close>

text \<open>
  The checksum of zlib, and messages of one type that are their own serialization: a small
  registry on which the hypotheses hold.
\<close>

definition adler_step :: "nat \<times> nat \<Rightarrow> byte \<Rightarrow> nat \<times> nat" where
  "adler_step s x = (let a = (fst s + unat x) mod 65521 in (a, (snd s + a) mod 65521))"

definition adler_sum :: "u32 \<Rightarrow> byte list \<Rightarrow> u32" where
  "adler_sum adler xs =
     (let (a, b) = foldl adler_step (unat (adler AND 0xffff), unat (drop_bit 16 adler)) xs
      in push_bit 16 (word_of_nat b) OR word_of_nat a)"

definition raw_ops :: "(byte list, unit) message_ops" where
  "raw_ops = \<lparr>GetTypeName = (\<lambda>m. [81]), IsInitialized = (\<lambda>m. True), ByteSize = length,
     SerializeWithCachedSizesToArray = (\<lambda>m. m),
     FindMessageTypeByName = (\<lambda>n. if n = [81] then Some () else None),
     GetPrototype = (\<lambda>d. Some []), New = (\<lambda>m. []), ParseFromArray = (\<lambda>xs m. (True, xs)),
     adler32 = adler_sum\<rparr>"

lemma raw_ok: "message_ok raw_ops m \<longleftrightarrow> length m \<le> 67108854"
  by (auto simp: message_ok_def raw_ops_def createMessage_def pb_len_def kMaxMessageLen_def)

theorem sent_messages_arrive_witness:
  "\<exists>b. receive raw_ops [take 5 (the (send raw_ops [1, 2])), drop 5 (the (send raw_ops [1, 2])) @ the (send raw_ops [])]
     new_buffer = Some ([messageCallback [1, 2], messageCallback []], b) \<and> content b = []"
proof -
  have "list_all (message_ok raw_ops) [[1, 2], []]" by (simp add: raw_ok)
  moreover have "map Some [the (send raw_ops [1, 2]), the (send raw_ops [])] = map (send raw_ops) [[1, 2], []]"
    by (simp add: send_ok raw_ok)
  moreover have "concat [take 5 (the (send raw_ops [1, 2])), drop 5 (the (send raw_ops [1, 2])) @ the (send raw_ops [])]
      = concat [the (send raw_ops [1, 2]), the (send raw_ops [])]"
    by (simp flip: append_assoc)
  ultimately have "\<exists>b. receive raw_ops [take 5 (the (send raw_ops [1, 2])), drop 5 (the (send raw_ops [1, 2])) @ the (send raw_ops [])]
     new_buffer = Some (map messageCallback [[1, 2], []], b) \<and> content b = []"
    by (rule sent_messages_arrive)
  then show ?thesis by simp
qed

end
