(* ===== verification/Query_pb.thy ===== *)
theory Query_pb
  imports ProtobufCodec
begin

text \<open>
  The generated classes of \<open>ProxyServer/Message/Query.pb.cc\<close>: \<open>Query\<close>, \<open>Reply\<close>, \<open>Set\<close> and \<open>Empty\<close>.
  The wire-format library they call is a record of functions, with \<open>'u\<close> the type of a set of unknown
  fields; \<open>wire_laws\<close> states what the generated code relies on. A stream is the list of the bytes
  that are left. The cached size, the arena and reflection are left out. \<open>M_SerializeToArray\<close> is
  \<open>M::InternalSerializeWithCachedSizesToArray\<close>, \<open>M_new\<close> and \<open>M_copy\<close> are the constructors, and \<open>same\<close>
  says that both arguments of an operation are the same object.
\<close>

section \<open>The library\<close>

text \<open>
  \<open>ReadTag\<close> is \<open>ReadTagWithCutoffNoLastTag(127)\<close>: the tag and whether it is at most 127. \<open>ReadString\<close>,
  \<open>ReadInt32\<close> and \<open>SkipField\<close> are \<open>None\<close> when they fail. Writing yields the bytes written.
\<close>

record 'u wire =
  ReadTag :: "byte list \<Rightarrow> (u32 \<times> bool) \<times> byte list"
  GetTagFieldNumber :: "u32 \<Rightarrow> nat"
  ReadString :: "byte list \<Rightarrow> (byte list \<times> byte list) option"
  ReadInt32 :: "byte list \<Rightarrow> (u32 \<times> byte list) option"
  SkipField :: "u32 \<Rightarrow> byte list \<Rightarrow> 'u \<Rightarrow> (byte list \<times> 'u) option"
  VerifyUtf8String :: "byte list \<Rightarrow> bool"
  WriteString :: "nat \<Rightarrow> byte list \<Rightarrow> byte list"
  WriteStringToArray :: "nat \<Rightarrow> byte list \<Rightarrow> byte list"
  StringSize :: "byte list \<Rightarrow> nat"
  WriteInt32 :: "nat \<Rightarrow> u32 \<Rightarrow> byte list"
  WriteInt32ToArray :: "nat \<Rightarrow> u32 \<Rightarrow> byte list"
  Int32Size :: "u32 \<Rightarrow> nat"
  no_unknown :: 'u
  have_unknown_fields :: "'u \<Rightarrow> bool"
  MergeUnknown :: "'u \<Rightarrow> 'u \<Rightarrow> 'u"
  SerializeUnknownFields :: "'u \<Rightarrow> byte list"
  SerializeUnknownFieldsToArray :: "'u \<Rightarrow> byte list"
  ComputeUnknownFieldsSize :: "'u \<Rightarrow> nat"

definition wire_laws :: "'u wire \<Rightarrow> bool" where
  "wire_laws W \<longleftrightarrow>
     ReadTag W [] = ((0, False), [])
     \<and> (\<forall>n s rest. 0 < n \<and> n < 16 \<longrightarrow>
          (\<exists>r. ReadTag W (WriteStringToArray W n s @ rest) = ((word_of_nat (8 * n + 2), True), r)
             \<and> (length s < 2 ^ 31 \<longrightarrow> ReadString W r = Some (s, rest)))
          \<and> length (WriteStringToArray W n s) = 1 + StringSize W s
          \<and> WriteString W n s = WriteStringToArray W n s)
     \<and> (\<forall>n v rest. 0 < n \<and> n < 16 \<longrightarrow>
          (\<exists>r. ReadTag W (WriteInt32ToArray W n v @ rest) = ((word_of_nat (8 * n), True), r)
             \<and> ReadInt32 W r = Some (v, rest))
          \<and> length (WriteInt32ToArray W n v) = 1 + Int32Size W v
          \<and> WriteInt32 W n v = WriteInt32ToArray W n v)
     \<and> (\<forall>n k. n < 16 \<and> k < 8 \<longrightarrow> GetTagFieldNumber W (word_of_nat (8 * n + k)) = n)
     \<and> (\<forall>u. MergeUnknown W (no_unknown W) u = u)
     \<and> (\<forall>u. length (SerializeUnknownFieldsToArray W u) = ComputeUnknownFieldsSize W u
          \<and> SerializeUnknownFields W u = SerializeUnknownFieldsToArray W u)
     \<and> \<not> have_unknown_fields W (no_unknown W)"

section \<open>The parse loop\<close>

text \<open>
  One turn of the \<open>for (;;)\<close> of \<open>MergePartialFromCodedStream\<close> leaves the loop with a result or goes
  round again. Whether the loop ends depends on the library consuming its input, so it is a partial
  function.
\<close>

datatype 'm turn = Leave bool 'm "byte list" | Again 'm "byte list"

partial_function (option) parse_loop ::
  "('m \<Rightarrow> byte list \<Rightarrow> 'm turn) \<Rightarrow> 'm \<Rightarrow> byte list \<Rightarrow> (bool \<times> 'm \<times> byte list) option" where
  "parse_loop body m input =
     (case body m input of
        Leave ok m input \<Rightarrow> Some (ok, m, input)
      | Again m input \<Rightarrow> parse_loop body m input)"

text \<open>\<open>handle_unusual\<close>: the end of the message, or a field to keep as unknown.\<close>

definition unusual :: "'u wire \<Rightarrow> ('m \<Rightarrow> 'u) \<Rightarrow> (('u \<Rightarrow> 'u) \<Rightarrow> 'm \<Rightarrow> 'm) \<Rightarrow> u32 \<Rightarrow> 'm \<Rightarrow> byte list \<Rightarrow> 'm turn" where
  "unusual W unk unk_update tag m input =
     (if tag = 0 then Leave True m input
      else case SkipField W tag input (unk m) of
        None \<Rightarrow> Leave False m input
      | Some (input, u) \<Rightarrow> Again (unk_update (\<lambda>_. u) m) input)"

text \<open>A string field: read, then checked to be UTF-8.\<close>

definition string_field :: "'u wire \<Rightarrow> (byte list \<Rightarrow> 'm \<Rightarrow> 'm) \<Rightarrow> 'm \<Rightarrow> byte list \<Rightarrow> 'm turn" where
  "string_field W store m input =
     (case ReadString W input of
        None \<Rightarrow> Leave False m input
      | Some (s, input) \<Rightarrow>
          if VerifyUtf8String W s then Again (store s m) input else Leave False (store s m) input)"

section \<open>Query\<close>

record 'u Query =
  query_key :: "byte list"
  question :: "byte list list"
  query_unknown :: 'u

definition Query_new :: "'u wire \<Rightarrow> 'u Query" where
  "Query_new W = \<lparr>query_key = [], question = [], query_unknown = no_unknown W\<rparr>"

definition Query_copy :: "'u wire \<Rightarrow> 'u Query \<Rightarrow> 'u Query" where
  "Query_copy W from =
     (let m = \<lparr>query_key = [], question = question from, query_unknown = MergeUnknown W (no_unknown W) (query_unknown from)\<rparr>
      in if 0 < length (query_key from) then m\<lparr>query_key := query_key from\<rparr> else m)"

definition Query_Clear :: "'u wire \<Rightarrow> 'u Query \<Rightarrow> 'u Query" where
  "Query_Clear W m = m\<lparr>question := [], query_key := [], query_unknown := no_unknown W\<rparr>"

definition Query_body :: "'u wire \<Rightarrow> 'u Query \<Rightarrow> byte list \<Rightarrow> 'u Query turn" where
  "Query_body W m input =
     (let (p, input) = ReadTag W input;
          tag = fst p;
          handle_unusual = unusual W query_unknown query_unknown_update tag m input
      in if \<not> snd p then handle_unusual
         else if GetTagFieldNumber W tag = 1 then
           (if ucast tag = (10 AND 0xFF :: byte)
            then string_field W (\<lambda>s m. m\<lparr>query_key := s\<rparr>) m input else handle_unusual)
         else if GetTagFieldNumber W tag = 2 then
           (if ucast tag = (18 AND 0xFF :: byte)
            then string_field W (\<lambda>s m. m\<lparr>question := question m @ [s]\<rparr>) m input else handle_unusual)
         else handle_unusual)"

definition Query_MergePartialFromCodedStream ::
  "'u wire \<Rightarrow> 'u Query \<Rightarrow> byte list \<Rightarrow> (bool \<times> 'u Query \<times> byte list) option" where
  "Query_MergePartialFromCodedStream W m input = parse_loop (Query_body W) m input"

definition Query_SerializeWithCachedSizes :: "'u wire \<Rightarrow> 'u Query \<Rightarrow> byte list \<Rightarrow> byte list" where
  "Query_SerializeWithCachedSizes W m output =
     (let output = (if 0 < length (query_key m) then output @ WriteString W 1 (query_key m) else output);
          output = foldl (\<lambda>output s. output @ WriteString W 2 s) output (question m)
      in if have_unknown_fields W (query_unknown m)
         then output @ SerializeUnknownFields W (query_unknown m) else output)"

definition Query_SerializeToArray :: "'u wire \<Rightarrow> 'u Query \<Rightarrow> byte list" where
  "Query_SerializeToArray W m =
     (let target = (if 0 < length (query_key m) then WriteStringToArray W 1 (query_key m) else []);
          target = foldl (\<lambda>target s. target @ WriteStringToArray W 2 s) target (question m)
      in if have_unknown_fields W (query_unknown m)
         then target @ SerializeUnknownFieldsToArray W (query_unknown m) else target)"

definition Query_ByteSizeLong :: "'u wire \<Rightarrow> 'u Query \<Rightarrow> nat" where
  "Query_ByteSizeLong W m =
     (let total_size = (if have_unknown_fields W (query_unknown m)
                        then ComputeUnknownFieldsSize W (query_unknown m) else 0);
          total_size = total_size + 1 * length (question m);
          total_size = foldl (\<lambda>n s. n + StringSize W s) total_size (question m)
      in if 0 < length (query_key m) then total_size + (1 + StringSize W (query_key m)) else total_size)"

definition Query_MergeFrom :: "'u wire \<Rightarrow> 'u Query \<Rightarrow> 'u Query \<Rightarrow> 'u Query" where
  "Query_MergeFrom W from m =
     (let m = m\<lparr>query_unknown := MergeUnknown W (query_unknown m) (query_unknown from)\<rparr>;
          m = m\<lparr>question := question m @ question from\<rparr>
      in if 0 < length (query_key from) then m\<lparr>query_key := query_key from\<rparr> else m)"

definition Query_CopyFrom :: "'u wire \<Rightarrow> bool \<Rightarrow> 'u Query \<Rightarrow> 'u Query \<Rightarrow> 'u Query" where
  "Query_CopyFrom W same from m = (if same then m else Query_MergeFrom W from (Query_Clear W m))"

definition Query_IsInitialized :: "'u Query \<Rightarrow> bool" where
  "Query_IsInitialized m = True"

definition Query_InternalSwap :: "'u Query \<Rightarrow> 'u Query \<Rightarrow> 'u Query \<times> 'u Query" where
  "Query_InternalSwap m other =
     (m\<lparr>query_unknown := query_unknown other, question := question other, query_key := query_key other\<rparr>,
      other\<lparr>query_unknown := query_unknown m, question := question m, query_key := query_key m\<rparr>)"

definition Query_Swap :: "bool \<Rightarrow> 'u Query \<Rightarrow> 'u Query \<Rightarrow> 'u Query \<times> 'u Query" where
  "Query_Swap same m other = (if same then (m, other) else Query_InternalSwap m other)"

section \<open>Reply\<close>

record 'u Reply =
  reply_text :: "byte list"
  solution :: "byte list list"
  reply_unknown :: 'u

definition Reply_new :: "'u wire \<Rightarrow> 'u Reply" where
  "Reply_new W = \<lparr>reply_text = [], solution = [], reply_unknown = no_unknown W\<rparr>"

definition Reply_copy :: "'u wire \<Rightarrow> 'u Reply \<Rightarrow> 'u Reply" where
  "Reply_copy W from =
     (let m = \<lparr>reply_text = [], solution = solution from, reply_unknown = MergeUnknown W (no_unknown W) (reply_unknown from)\<rparr>
      in if 0 < length (reply_text from) then m\<lparr>reply_text := reply_text from\<rparr> else m)"

definition Reply_Clear :: "'u wire \<Rightarrow> 'u Reply \<Rightarrow> 'u Reply" where
  "Reply_Clear W m = m\<lparr>solution := [], reply_text := [], reply_unknown := no_unknown W\<rparr>"

definition Reply_body :: "'u wire \<Rightarrow> 'u Reply \<Rightarrow> byte list \<Rightarrow> 'u Reply turn" where
  "Reply_body W m input =
     (let (p, input) = ReadTag W input;
          tag = fst p;
          handle_unusual = unusual W reply_unknown reply_unknown_update tag m input
      in if \<not> snd p then handle_unusual
         else if GetTagFieldNumber W tag = 1 then
           (if ucast tag = (10 AND 0xFF :: byte)
            then string_field W (\<lambda>s m. m\<lparr>reply_text := s\<rparr>) m input else handle_unusual)
         else if GetTagFieldNumber W tag = 3 then
           (if ucast tag = (26 AND 0xFF :: byte)
            then string_field W (\<lambda>s m. m\<lparr>solution := solution m @ [s]\<rparr>) m input else handle_unusual)
         else handle_unusual)"

definition Reply_MergePartialFromCodedStream ::
  "'u wire \<Rightarrow> 'u Reply \<Rightarrow> byte list \<Rightarrow> (bool \<times> 'u Reply \<times> byte list) option" where
  "Reply_MergePartialFromCodedStream W m input = parse_loop (Reply_body W) m input"

definition Reply_SerializeWithCachedSizes :: "'u wire \<Rightarrow> 'u Reply \<Rightarrow> byte list \<Rightarrow> byte list" where
  "Reply_SerializeWithCachedSizes W m output =
     (let output = (if 0 < length (reply_text m) then output @ WriteString W 1 (reply_text m) else output);
          output = foldl (\<lambda>output s. output @ WriteString W 3 s) output (solution m)
      in if have_unknown_fields W (reply_unknown m)
         then output @ SerializeUnknownFields W (reply_unknown m) else output)"

definition Reply_SerializeToArray :: "'u wire \<Rightarrow> 'u Reply \<Rightarrow> byte list" where
  "Reply_SerializeToArray W m =
     (let target = (if 0 < length (reply_text m) then WriteStringToArray W 1 (reply_text m) else []);
          target = foldl (\<lambda>target s. target @ WriteStringToArray W 3 s) target (solution m)
      in if have_unknown_fields W (reply_unknown m)
         then target @ SerializeUnknownFieldsToArray W (reply_unknown m) else target)"

definition Reply_ByteSizeLong :: "'u wire \<Rightarrow> 'u Reply \<Rightarrow> nat" where
  "Reply_ByteSizeLong W m =
     (let total_size = (if have_unknown_fields W (reply_unknown m)
                        then ComputeUnknownFieldsSize W (reply_unknown m) else 0);
          total_size = total_size + 1 * length (solution m);
          total_size = foldl (\<lambda>n s. n + StringSize W s) total_size (solution m)
      in if 0 < length (reply_text m) then total_size + (1 + StringSize W (reply_text m)) else total_size)"

definition Reply_MergeFrom :: "'u wire \<Rightarrow> 'u Reply \<Rightarrow> 'u Reply \<Rightarrow> 'u Reply" where
  "Reply_MergeFrom W from m =
     (let m = m\<lparr>reply_unknown := MergeUnknown W (reply_unknown m) (reply_unknown from)\<rparr>;
          m = m\<lparr>solution := solution m @ solution from\<rparr>
      in if 0 < length (reply_text from) then m\<lparr>reply_text := reply_text from\<rparr> else m)"

definition Reply_CopyFrom :: "'u wire \<Rightarrow> bool \<Rightarrow> 'u Reply \<Rightarrow> 'u Reply \<Rightarrow> 'u Reply" where
  "Reply_CopyFrom W same from m = (if same then m else Reply_MergeFrom W from (Reply_Clear W m))"

definition Reply_IsInitialized :: "'u Reply \<Rightarrow> bool" where
  "Reply_IsInitialized m = True"

definition Reply_InternalSwap :: "'u Reply \<Rightarrow> 'u Reply \<Rightarrow> 'u Reply \<times> 'u Reply" where
  "Reply_InternalSwap m other =
     (m\<lparr>reply_unknown := reply_unknown other, solution := solution other, reply_text := reply_text other\<rparr>,
      other\<lparr>reply_unknown := reply_unknown m, solution := solution m, reply_text := reply_text m\<rparr>)"

definition Reply_Swap :: "bool \<Rightarrow> 'u Reply \<Rightarrow> 'u Reply \<Rightarrow> 'u Reply \<times> 'u Reply" where
  "Reply_Swap same m other = (if same then (m, other) else Reply_InternalSwap m other)"

section \<open>Set\<close>

record 'u Set =
  set_key :: "byte list"
  set_value :: "byte list"
  set_unknown :: 'u

definition Set_new :: "'u wire \<Rightarrow> 'u Set" where
  "Set_new W = \<lparr>set_key = [], set_value = [], set_unknown = no_unknown W\<rparr>"

definition Set_copy :: "'u wire \<Rightarrow> 'u Set \<Rightarrow> 'u Set" where
  "Set_copy W from =
     (let m = \<lparr>set_key = [], set_value = [], set_unknown = MergeUnknown W (no_unknown W) (set_unknown from)\<rparr>;
          m = (if 0 < length (set_key from) then m\<lparr>set_key := set_key from\<rparr> else m)
      in if 0 < length (set_value from) then m\<lparr>set_value := set_value from\<rparr> else m)"

definition Set_Clear :: "'u wire \<Rightarrow> 'u Set \<Rightarrow> 'u Set" where
  "Set_Clear W m = m\<lparr>set_key := [], set_value := [], set_unknown := no_unknown W\<rparr>"

definition Set_body :: "'u wire \<Rightarrow> 'u Set \<Rightarrow> byte list \<Rightarrow> 'u Set turn" where
  "Set_body W m input =
     (let (p, input) = ReadTag W input;
          tag = fst p;
          handle_unusual = unusual W set_unknown set_unknown_update tag m input
      in if \<not> snd p then handle_unusual
         else if GetTagFieldNumber W tag = 1 then
           (if ucast tag = (10 AND 0xFF :: byte)
            then string_field W (\<lambda>s m. m\<lparr>set_key := s\<rparr>) m input else handle_unusual)
         else if GetTagFieldNumber W tag = 2 then
           (if ucast tag = (18 AND 0xFF :: byte)
            then string_field W (\<lambda>s m. m\<lparr>set_value := s\<rparr>) m input else handle_unusual)
         else handle_unusual)"

definition Set_MergePartialFromCodedStream ::
  "'u wire \<Rightarrow> 'u Set \<Rightarrow> byte list \<Rightarrow> (bool \<times> 'u Set \<times> byte list) option" where
  "Set_MergePartialFromCodedStream W m input = parse_loop (Set_body W) m input"

definition Set_SerializeWithCachedSizes :: "'u wire \<Rightarrow> 'u Set \<Rightarrow> byte list \<Rightarrow> byte list" where
  "Set_SerializeWithCachedSizes W m output =
     (let output = (if 0 < length (set_key m) then output @ WriteString W 1 (set_key m) else output);
          output = (if 0 < length (set_value m) then output @ WriteString W 2 (set_value m) else output)
      in if have_unknown_fields W (set_unknown m)
         then output @ SerializeUnknownFields W (set_unknown m) else output)"

definition Set_SerializeToArray :: "'u wire \<Rightarrow> 'u Set \<Rightarrow> byte list" where
  "Set_SerializeToArray W m =
     (let target = (if 0 < length (set_key m) then WriteStringToArray W 1 (set_key m) else []);
          target = (if 0 < length (set_value m) then target @ WriteStringToArray W 2 (set_value m) else target)
      in if have_unknown_fields W (set_unknown m)
         then target @ SerializeUnknownFieldsToArray W (set_unknown m) else target)"

definition Set_ByteSizeLong :: "'u wire \<Rightarrow> 'u Set \<Rightarrow> nat" where
  "Set_ByteSizeLong W m =
     (let total_size = (if have_unknown_fields W (set_unknown m)
                        then ComputeUnknownFieldsSize W (set_unknown m) else 0);
          total_size = (if 0 < length (set_key m) then total_size + (1 + StringSize W (set_key m)) else total_size)
      in if 0 < length (set_value m) then total_size + (1 + StringSize W (set_value m)) else total_size)"

definition Set_MergeFrom :: "'u wire \<Rightarrow> 'u Set \<Rightarrow> 'u Set \<Rightarrow> 'u Set" where
  "Set_MergeFrom W from m =
     (let m = m\<lparr>set_unknown := MergeUnknown W (set_unknown m) (set_unknown from)\<rparr>;
          m = (if 0 < length (set_key from) then m\<lparr>set_key := set_key from\<rparr> else m)
      in if 0 < length (set_value from) then m\<lparr>set_value := set_value from\<rparr> else m)"

definition Set_CopyFrom :: "'u wire \<Rightarrow> bool \<Rightarrow> 'u Set \<Rightarrow> 'u Set \<Rightarrow> 'u Set" where
  "Set_CopyFrom W same from m = (if same then m else Set_MergeFrom W from (Set_Clear W m))"

definition Set_IsInitialized :: "'u Set \<Rightarrow> bool" where
  "Set_IsInitialized m = True"

definition Set_InternalSwap :: "'u Set \<Rightarrow> 'u Set \<Rightarrow> 'u Set \<times> 'u Set" where
  "Set_InternalSwap m other =
     (m\<lparr>set_unknown := set_unknown other, set_key := set_key other, set_value := set_value other\<rparr>,
      other\<lparr>set_unknown := set_unknown m, set_key := set_key m, set_value := set_value m\<rparr>)"

definition Set_Swap :: "bool \<Rightarrow> 'u Set \<Rightarrow> 'u Set \<Rightarrow> 'u Set \<times> 'u Set" where
  "Set_Swap same m other = (if same then (m, other) else Set_InternalSwap m other)"

section \<open>Empty\<close>

record 'u Empty =
  empty_id :: u32
  empty_unknown :: 'u

definition Empty_new :: "'u wire \<Rightarrow> 'u Empty" where
  "Empty_new W = \<lparr>empty_id = 0, empty_unknown = no_unknown W\<rparr>"

definition Empty_copy :: "'u wire \<Rightarrow> 'u Empty \<Rightarrow> 'u Empty" where
  "Empty_copy W from = \<lparr>empty_id = empty_id from, empty_unknown = MergeUnknown W (no_unknown W) (empty_unknown from)\<rparr>"

definition Empty_Clear :: "'u wire \<Rightarrow> 'u Empty \<Rightarrow> 'u Empty" where
  "Empty_Clear W m = m\<lparr>empty_id := 0, empty_unknown := no_unknown W\<rparr>"

definition Empty_body :: "'u wire \<Rightarrow> 'u Empty \<Rightarrow> byte list \<Rightarrow> 'u Empty turn" where
  "Empty_body W m input =
     (let (p, input) = ReadTag W input;
          tag = fst p;
          handle_unusual = unusual W empty_unknown empty_unknown_update tag m input
      in if \<not> snd p then handle_unusual
         else if GetTagFieldNumber W tag = 1 then
           (if ucast tag = (8 AND 0xFF :: byte)
            then (case ReadInt32 W input of
                    None \<Rightarrow> Leave False m input
                  | Some (v, input) \<Rightarrow> Again (m\<lparr>empty_id := v\<rparr>) input)
            else handle_unusual)
         else handle_unusual)"

definition Empty_MergePartialFromCodedStream ::
  "'u wire \<Rightarrow> 'u Empty \<Rightarrow> byte list \<Rightarrow> (bool \<times> 'u Empty \<times> byte list) option" where
  "Empty_MergePartialFromCodedStream W m input = parse_loop (Empty_body W) m input"

definition Empty_SerializeWithCachedSizes :: "'u wire \<Rightarrow> 'u Empty \<Rightarrow> byte list \<Rightarrow> byte list" where
  "Empty_SerializeWithCachedSizes W m output =
     (let output = (if empty_id m \<noteq> 0 then output @ WriteInt32 W 1 (empty_id m) else output)
      in if have_unknown_fields W (empty_unknown m)
         then output @ SerializeUnknownFields W (empty_unknown m) else output)"

definition Empty_SerializeToArray :: "'u wire \<Rightarrow> 'u Empty \<Rightarrow> byte list" where
  "Empty_SerializeToArray W m =
     (let target = (if empty_id m \<noteq> 0 then WriteInt32ToArray W 1 (empty_id m) else [])
      in if have_unknown_fields W (empty_unknown m)
         then target @ SerializeUnknownFieldsToArray W (empty_unknown m) else target)"

definition Empty_ByteSizeLong :: "'u wire \<Rightarrow> 'u Empty \<Rightarrow> nat" where
  "Empty_ByteSizeLong W m =
     (let total_size = (if have_unknown_fields W (empty_unknown m)
                        then ComputeUnknownFieldsSize W (empty_unknown m) else 0)
      in if empty_id m \<noteq> 0 then total_size + (1 + Int32Size W (empty_id m)) else total_size)"

definition Empty_MergeFrom :: "'u wire \<Rightarrow> 'u Empty \<Rightarrow> 'u Empty \<Rightarrow> 'u Empty" where
  "Empty_MergeFrom W from m =
     (let m = m\<lparr>empty_unknown := MergeUnknown W (empty_unknown m) (empty_unknown from)\<rparr>
      in if empty_id from \<noteq> 0 then m\<lparr>empty_id := empty_id from\<rparr> else m)"

definition Empty_CopyFrom :: "'u wire \<Rightarrow> bool \<Rightarrow> 'u Empty \<Rightarrow> 'u Empty \<Rightarrow> 'u Empty" where
  "Empty_CopyFrom W same from m = (if same then m else Empty_MergeFrom W from (Empty_Clear W m))"

definition Empty_IsInitialized :: "'u Empty \<Rightarrow> bool" where
  "Empty_IsInitialized m = True"

definition Empty_InternalSwap :: "'u Empty \<Rightarrow> 'u Empty \<Rightarrow> 'u Empty \<times> 'u Empty" where
  "Empty_InternalSwap m other =
     (m\<lparr>empty_unknown := empty_unknown other, empty_id := empty_id other\<rparr>,
      other\<lparr>empty_unknown := empty_unknown m, empty_id := empty_id m\<rparr>)"

definition Empty_Swap :: "bool \<Rightarrow> 'u Empty \<Rightarrow> 'u Empty \<Rightarrow> 'u Empty \<times> 'u Empty" where
  "Empty_Swap same m other = (if same then (m, other) else Empty_InternalSwap m other)"


section \<open>What a generated class promises\<close>

text \<open>
  \<open>good\<close> are the messages the class can carry: \<open>serialized\<close> is the size it announces, the stream
  version of the serializer writes the same bytes, and merging them into a cleared object restores
  the message, at the end of the input. The client is the library's \<open>Message\<close>.
\<close>

locale message_class =
  fixes new :: 'm
    and Clear :: "'m \<Rightarrow> 'm"
    and MergePartial :: "'m \<Rightarrow> byte list \<Rightarrow> (bool \<times> 'm \<times> byte list) option"
    and ByteSizeLong :: "'m \<Rightarrow> nat"
    and Serialize :: "'m \<Rightarrow> byte list \<Rightarrow> byte list"
    and SerializeToArray :: "'m \<Rightarrow> byte list"
    and CopyFrom :: "bool \<Rightarrow> 'm \<Rightarrow> 'm \<Rightarrow> 'm"
    and Swap :: "bool \<Rightarrow> 'm \<Rightarrow> 'm \<Rightarrow> 'm \<times> 'm"
    and good :: "'m \<Rightarrow> bool"
  assumes announced: "good m \<Longrightarrow> ByteSizeLong m = length (SerializeToArray m)"
    and streamed: "good m \<Longrightarrow> Serialize m output = output @ SerializeToArray m"
    and merged: "good m \<Longrightarrow> MergePartial new (SerializeToArray m) = Some (True, m, [])"
    and cleared: "Clear m = new"
    and copied: "good from \<Longrightarrow> CopyFrom False from m = from" "CopyFrom True from m = m"
    and swapped: "Swap False m m' = (m', m)" "Swap True m m' = (m, m')"
begin

lemma parses_back: "good m \<Longrightarrow> MergePartial (Clear m') (SerializeToArray m) = Some (True, m, [])"
  by (simp add: cleared merged)

text \<open>The serialization determines the message.\<close>

lemma serialization_injective:
  "good m \<Longrightarrow> good m' \<Longrightarrow> SerializeToArray m = SerializeToArray m' \<Longrightarrow> m = m'"
  by (metis merged option.inject prod.inject)

lemma swap_twice: "(case Swap same m m' of (a, b) \<Rightarrow> Swap same a b) = (m, m')"
  by (cases same) (simp_all add: swapped)

lemma copy_serializes_alike:
  "good from \<Longrightarrow> SerializeToArray (CopyFrom same from from) = SerializeToArray from"
  by (cases same) (simp_all add: copied)

end

section \<open>Fields\<close>

lemma parse_loop_leave: "body m input = Leave ok m' input' \<Longrightarrow> parse_loop body m input = Some (ok, m', input')"
  by (simp add: parse_loop.simps)

lemma parse_loop_again: "body m input = Again m' input' \<Longrightarrow> parse_loop body m input = parse_loop body m' input'"
  by (simp add: parse_loop.simps)

text \<open>A sequence of fields is merged from left to right.\<close>

lemma parse_loop_fields:
  assumes "\<And>m x rest. x \<in> set xs \<Longrightarrow> body m (wr x @ rest) = Again (st x m) rest"
  shows "parse_loop body m (concat (map wr xs) @ rest) = parse_loop body (fold st xs m) rest"
  using assms by (induction xs arbitrary: m) (simp_all add: parse_loop_again)

lemma foldl_append: "foldl (\<lambda>out x. out @ f x) out xs = out @ concat (map f xs)"
  by (induction xs arbitrary: out) simp_all

lemma foldl_plus: "foldl (\<lambda>n x. n + f x) (n::nat) xs = n + sum_list (map f xs)"
  by (induction xs arbitrary: n) simp_all

definition text_ok :: "'u wire \<Rightarrow> byte list \<Rightarrow> bool" where
  "text_ok W s \<longleftrightarrow> VerifyUtf8String W s \<and> length s < 2 ^ 31"


lemma ReadTag_end: "wire_laws W \<Longrightarrow> ReadTag W [] = ((0, False), [])"
  by (simp add: wire_laws_def)

lemma string_wire:
  assumes "wire_laws W" "0 < n" "n < 16"
  shows "\<exists>r. ReadTag W (WriteStringToArray W n s @ rest) = ((word_of_nat (8 * n + 2), True), r)
      \<and> (length s < 2 ^ 31 \<longrightarrow> ReadString W r = Some (s, rest))"
    "length (WriteStringToArray W n s) = 1 + StringSize W s"
    "WriteString W n s = WriteStringToArray W n s"
  using assms unfolding wire_laws_def by blast+

lemma int32_wire:
  assumes "wire_laws W" "0 < n" "n < 16"
  shows "\<exists>r. ReadTag W (WriteInt32ToArray W n v @ rest) = ((word_of_nat (8 * n), True), r)
      \<and> ReadInt32 W r = Some (v, rest)"
    "length (WriteInt32ToArray W n v) = 1 + Int32Size W v"
    "WriteInt32 W n v = WriteInt32ToArray W n v"
  using assms unfolding wire_laws_def by blast+

lemma tag_number: "wire_laws W \<Longrightarrow> n < 16 \<Longrightarrow> k < 8 \<Longrightarrow> GetTagFieldNumber W (word_of_nat (8 * n + k)) = n"
  unfolding wire_laws_def by blast

lemma unknown_wire:
  assumes "wire_laws W"
  shows "MergeUnknown W (no_unknown W) u = u" "\<not> have_unknown_fields W (no_unknown W)"
    "SerializeUnknownFields W u = SerializeUnknownFieldsToArray W u"
    "length (SerializeUnknownFieldsToArray W u) = ComputeUnknownFieldsSize W u"
  using assms unfolding wire_laws_def by blast+

lemma tag_numbers:
  assumes "wire_laws W"
  shows "GetTagFieldNumber W 10 = 1" "GetTagFieldNumber W 18 = 2" "GetTagFieldNumber W 26 = 3"
    "GetTagFieldNumber W 8 = 1"
  using tag_number [OF assms, of 1 2] tag_number [OF assms, of 2 2] tag_number [OF assms, of 3 2]
    tag_number [OF assms, of 1 0] by simp_all

lemma read_string:
  assumes "wire_laws W" "text_ok W s" "0 < n" "n < 16"
  shows "\<exists>r. ReadTag W (WriteStringToArray W n s @ rest) = ((word_of_nat (8 * n + 2), True), r)
    \<and> string_field W store m r = Again (store s m) rest"
  using string_wire(1) [OF assms(1,3,4), of s rest] assms(2) by (auto simp: string_field_def text_ok_def)

lemmas wire_simps = tag_numbers foldl_append foldl_plus string_wire(2,3) int32_wire(2,3) unknown_wire

lemma body_end:
  assumes "wire_laws W"
  shows "Query_body W q [] = Leave True q []" "Reply_body W r [] = Leave True r []"
    "Set_body W s [] = Leave True s []" "Empty_body W e [] = Leave True e []"
  by (simp_all add: Query_body_def Reply_body_def Set_body_def Empty_body_def ReadTag_end [OF assms] unusual_def)

lemma Query_fields:
  assumes "wire_laws W" "text_ok W s"
  shows "Query_body W m (WriteStringToArray W 1 s @ rest) = Again (m\<lparr>query_key := s\<rparr>) rest"
    "Query_body W m (WriteStringToArray W 2 s @ rest) = Again (m\<lparr>question := question m @ [s]\<rparr>) rest"
  using read_string [OF assms, of 1 rest "\<lambda>s m. m\<lparr>query_key := s\<rparr>" m]
    read_string [OF assms, of 2 rest "\<lambda>s m. m\<lparr>question := question m @ [s]\<rparr>" m]
  by (auto simp: Query_body_def Let_def tag_numbers [OF assms(1)])

lemma Reply_fields:
  assumes "wire_laws W" "text_ok W s"
  shows "Reply_body W m (WriteStringToArray W 1 s @ rest) = Again (m\<lparr>reply_text := s\<rparr>) rest"
    "Reply_body W m (WriteStringToArray W 3 s @ rest) = Again (m\<lparr>solution := solution m @ [s]\<rparr>) rest"
  using read_string [OF assms, of 1 rest "\<lambda>s m. m\<lparr>reply_text := s\<rparr>" m]
    read_string [OF assms, of 3 rest "\<lambda>s m. m\<lparr>solution := solution m @ [s]\<rparr>" m]
  by (auto simp: Reply_body_def Let_def tag_numbers [OF assms(1)])

lemma Set_fields:
  assumes "wire_laws W" "text_ok W s"
  shows "Set_body W m (WriteStringToArray W 1 s @ rest) = Again (m\<lparr>set_key := s\<rparr>) rest"
    "Set_body W m (WriteStringToArray W 2 s @ rest) = Again (m\<lparr>set_value := s\<rparr>) rest"
  using read_string [OF assms, of 1 rest "\<lambda>s m. m\<lparr>set_key := s\<rparr>" m]
    read_string [OF assms, of 2 rest "\<lambda>s m. m\<lparr>set_value := s\<rparr>" m]
  by (auto simp: Set_body_def Let_def tag_numbers [OF assms(1)])

lemma Empty_fields:
  assumes "wire_laws W"
  shows "Empty_body W m (WriteInt32ToArray W 1 v @ rest) = Again (m\<lparr>empty_id := v\<rparr>) rest"
  using int32_wire(1) [OF assms, of 1 v rest] by (auto simp: Empty_body_def Let_def tag_numbers [OF assms])

section \<open>The four classes keep the promise\<close>

definition Query_ok :: "'u wire \<Rightarrow> 'u Query \<Rightarrow> bool" where
  "Query_ok W m \<longleftrightarrow> wire_laws W \<and> query_unknown m = no_unknown W \<and> list_all (text_ok W) (query_key m # question m)"

definition Reply_ok :: "'u wire \<Rightarrow> 'u Reply \<Rightarrow> bool" where
  "Reply_ok W m \<longleftrightarrow> wire_laws W \<and> reply_unknown m = no_unknown W \<and> list_all (text_ok W) (reply_text m # solution m)"

definition Set_ok :: "'u wire \<Rightarrow> 'u Set \<Rightarrow> bool" where
  "Set_ok W m \<longleftrightarrow> wire_laws W \<and> set_unknown m = no_unknown W \<and> text_ok W (set_key m) \<and> text_ok W (set_value m)"

definition Empty_ok :: "'u wire \<Rightarrow> 'u Empty \<Rightarrow> bool" where
  "Empty_ok W m \<longleftrightarrow> wire_laws W \<and> empty_unknown m = no_unknown W"

lemma fold_question: "fold (\<lambda>s m. m\<lparr>question := question m @ [s]\<rparr>) xs m = m\<lparr>question := question m @ xs\<rparr>"
  by (induction xs arbitrary: m) simp_all

lemma fold_solution: "fold (\<lambda>s m. m\<lparr>solution := solution m @ [s]\<rparr>) xs m = m\<lparr>solution := solution m @ xs\<rparr>"
  by (induction xs arbitrary: m) simp_all

lemma Query_merged:
  assumes "Query_ok W m"
  shows "Query_MergePartialFromCodedStream W (Query_new W) (Query_SerializeToArray W m) = Some (True, m, [])"
proof -
  have W: "wire_laws W" and ok: "text_ok W (query_key m)" "\<And>s. s \<in> set (question m) \<Longrightarrow> text_ok W s"
    using assms by (auto simp: Query_ok_def list_all_iff)
  have loop: "parse_loop (Query_body W) m' (concat (map (WriteStringToArray W 2) (question m)))
      = Some (True, m'\<lparr>question := question m' @ question m\<rparr>, [])" for m'
    using parse_loop_fields [of "question m" "Query_body W" "WriteStringToArray W 2"
        "\<lambda>s m. m\<lparr>question := question m @ [s]\<rparr>" m' "[]"]
    by (simp add: Query_fields(2) [OF W ok(2)] fold_question parse_loop_leave [where body = "Query_body W", OF body_end(1) [OF W]])
  show ?thesis
    using assms
    by (simp add: Query_MergePartialFromCodedStream_def Query_SerializeToArray_def Let_def Query_new_def
        foldl_append loop parse_loop_again [where body = "Query_body W", OF Query_fields(1) [OF W ok(1)]] unknown_wire(2) [OF W] Query_ok_def
        del: One_nat_def)
qed

lemma Reply_merged:
  assumes "Reply_ok W m"
  shows "Reply_MergePartialFromCodedStream W (Reply_new W) (Reply_SerializeToArray W m) = Some (True, m, [])"
proof -
  have W: "wire_laws W" and ok: "text_ok W (reply_text m)" "\<And>s. s \<in> set (solution m) \<Longrightarrow> text_ok W s"
    using assms by (auto simp: Reply_ok_def list_all_iff)
  have loop: "parse_loop (Reply_body W) m' (concat (map (WriteStringToArray W 3) (solution m)))
      = Some (True, m'\<lparr>solution := solution m' @ solution m\<rparr>, [])" for m'
    using parse_loop_fields [of "solution m" "Reply_body W" "WriteStringToArray W 3"
        "\<lambda>s m. m\<lparr>solution := solution m @ [s]\<rparr>" m' "[]"]
    by (simp add: Reply_fields(2) [OF W ok(2)] fold_solution parse_loop_leave [where body = "Reply_body W", OF body_end(2) [OF W]])
  show ?thesis
    using assms
    by (simp add: Reply_MergePartialFromCodedStream_def Reply_SerializeToArray_def Let_def Reply_new_def
        foldl_append loop parse_loop_again [where body = "Reply_body W", OF Reply_fields(1) [OF W ok(1)]] unknown_wire(2) [OF W] Reply_ok_def
        del: One_nat_def)
qed

lemma Set_merged:
  assumes "Set_ok W m"
  shows "Set_MergePartialFromCodedStream W (Set_new W) (Set_SerializeToArray W m) = Some (True, m, [])"
proof -
  have W: "wire_laws W" and ok: "text_ok W (set_key m)" "text_ok W (set_value m)"
    using assms by (auto simp: Set_ok_def)
  have f2: "Set_body W m' (WriteStringToArray W 2 (set_value m)) = Again (m'\<lparr>set_value := set_value m\<rparr>) []" for m'
    using Set_fields(2) [OF W ok(2), of m' "[]"] by simp
  have f1: "Set_body W m' (WriteStringToArray W 1 (set_key m)) = Again (m'\<lparr>set_key := set_key m\<rparr>) []" for m'
    using Set_fields(1) [OF W ok(1), of m' "[]"] by simp
  show ?thesis
    using assms
    by (simp add: Set_MergePartialFromCodedStream_def Set_SerializeToArray_def Let_def Set_new_def
        parse_loop_again [where body = "Set_body W", OF f1] parse_loop_again [where body = "Set_body W", OF f2] parse_loop_again [where body = "Set_body W", OF Set_fields(1) [OF W ok(1)]]
        parse_loop_leave [where body = "Set_body W", OF body_end(3) [OF W]] unknown_wire(2) [OF W] Set_ok_def
        del: One_nat_def)
qed

lemma Empty_merged:
  assumes "Empty_ok W m"
  shows "Empty_MergePartialFromCodedStream W (Empty_new W) (Empty_SerializeToArray W m) = Some (True, m, [])"
proof -
  have W: "wire_laws W" using assms by (auto simp: Empty_ok_def)
  have f: "Empty_body W m' (WriteInt32ToArray W 1 v) = Again (m'\<lparr>empty_id := v\<rparr>) []" for m' v
    using Empty_fields [OF W, of m' v "[]"] by simp
  show ?thesis
    using assms
    by (simp add: Empty_MergePartialFromCodedStream_def Empty_SerializeToArray_def Let_def Empty_new_def
        parse_loop_again [where body = "Empty_body W", OF f] parse_loop_leave [where body = "Empty_body W", OF body_end(4) [OF W]] unknown_wire(2) [OF W] Empty_ok_def
        del: One_nat_def)
qed

lemmas Query_defs = Query_ok_def Query_ByteSizeLong_def Query_SerializeToArray_def Query_SerializeWithCachedSizes_def
  Query_Clear_def Query_new_def Query_CopyFrom_def Query_MergeFrom_def Query_Swap_def Query_InternalSwap_def Let_def

lemmas Reply_defs = Reply_ok_def Reply_ByteSizeLong_def Reply_SerializeToArray_def Reply_SerializeWithCachedSizes_def
  Reply_Clear_def Reply_new_def Reply_CopyFrom_def Reply_MergeFrom_def Reply_Swap_def Reply_InternalSwap_def Let_def

lemmas Set_defs = Set_ok_def Set_ByteSizeLong_def Set_SerializeToArray_def Set_SerializeWithCachedSizes_def
  Set_Clear_def Set_new_def Set_CopyFrom_def Set_MergeFrom_def Set_Swap_def Set_InternalSwap_def Let_def

lemmas Empty_defs = Empty_ok_def Empty_ByteSizeLong_def Empty_SerializeToArray_def Empty_SerializeWithCachedSizes_def
  Empty_Clear_def Empty_new_def Empty_CopyFrom_def Empty_MergeFrom_def Empty_Swap_def Empty_InternalSwap_def Let_def

lemma strings_size: "wire_laws W \<Longrightarrow> 0 < n \<Longrightarrow> n < 16 \<Longrightarrow>
    length (concat (map (WriteStringToArray W n) xs)) = length xs + sum_list (map (StringSize W) xs)"
  by (induction xs) (simp_all add: string_wire(2))

lemma strings_streamed: "wire_laws W \<Longrightarrow> 0 < n \<Longrightarrow> n < 16 \<Longrightarrow>
    concat (map (WriteString W n) xs) = concat (map (WriteStringToArray W n) xs)"
  by (induction xs) (simp_all add: string_wire(3))

lemma foldl_size: "foldl (\<lambda>n s. n + StringSize W s) k xs = k + sum_list (map (StringSize W) xs)"
  by (rule foldl_plus)

interpretation query: message_class "Query_new W" "Query_Clear W" "Query_MergePartialFromCodedStream W"
  "Query_ByteSizeLong W" "Query_SerializeWithCachedSizes W" "Query_SerializeToArray W" "Query_CopyFrom W"
  Query_Swap "Query_ok W" for W :: "'u wire"
  by unfold_locales (rule Query_merged, assumption | force simp: Query_defs foldl_append foldl_size strings_size strings_streamed
      string_wire(2,3) unknown_wire intro!: Query.equality)+

interpretation reply: message_class "Reply_new W" "Reply_Clear W" "Reply_MergePartialFromCodedStream W"
  "Reply_ByteSizeLong W" "Reply_SerializeWithCachedSizes W" "Reply_SerializeToArray W" "Reply_CopyFrom W"
  Reply_Swap "Reply_ok W" for W :: "'u wire"
  by unfold_locales (rule Reply_merged, assumption | force simp: Reply_defs foldl_append foldl_size strings_size strings_streamed
      string_wire(2,3) unknown_wire intro!: Reply.equality)+

interpretation set: message_class "Set_new W" "Set_Clear W" "Set_MergePartialFromCodedStream W"
  "Set_ByteSizeLong W" "Set_SerializeWithCachedSizes W" "Set_SerializeToArray W" "Set_CopyFrom W"
  Set_Swap "Set_ok W" for W :: "'u wire"
  by unfold_locales (rule Set_merged, assumption | force simp: Set_defs string_wire(2,3) unknown_wire intro!: Set.equality)+

interpretation empty: message_class "Empty_new W" "Empty_Clear W" "Empty_MergePartialFromCodedStream W"
  "Empty_ByteSizeLong W" "Empty_SerializeWithCachedSizes W" "Empty_SerializeToArray W" "Empty_CopyFrom W"
  Empty_Swap "Empty_ok W" for W :: "'u wire"
  by unfold_locales (rule Empty_merged, assumption | force simp: Empty_defs int32_wire(2,3) unknown_wire intro!: Empty.equality)+

end
