(* ===== verification/QueryMessages.thy ===== *)
theory QueryMessages
  imports Query_pb
begin

text \<open>
  The four generated classes behind the interface the codec sees: the virtual calls of a
  \<open>google::protobuf::Message\<close>, the registered names, what the codec relies on, and the messages
  travelling from the sender's codec to the receiver's callback. The last part instantiates the
  parameters: a wire format with variable-length integers and the library's registry.
\<close>

section \<open>A message of any of the classes\<close>

text \<open>The virtual calls of a \<open>google::protobuf::Message\<close> on an object of one of the generated classes.\<close>

datatype 'u msg = QueryMsg "'u Query" | ReplyMsg "'u Reply" | SetMsg "'u Set" | EmptyMsg "'u Empty"

primrec type_name :: "'u msg \<Rightarrow> byte list" where
  "type_name (QueryMsg m) = ascii ''muduo.Query''"
| "type_name (ReplyMsg m) = ascii ''muduo.Reply''"
| "type_name (SetMsg m) = ascii ''muduo.Set''"
| "type_name (EmptyMsg m) = ascii ''muduo.Empty''"

primrec msg_new :: "'u wire \<Rightarrow> 'u msg \<Rightarrow> 'u msg" where
  "msg_new W (QueryMsg m) = QueryMsg (Query_new W)"
| "msg_new W (ReplyMsg m) = ReplyMsg (Reply_new W)"
| "msg_new W (SetMsg m) = SetMsg (Set_new W)"
| "msg_new W (EmptyMsg m) = EmptyMsg (Empty_new W)"

primrec msg_Clear :: "'u wire \<Rightarrow> 'u msg \<Rightarrow> 'u msg" where
  "msg_Clear W (QueryMsg m) = QueryMsg (Query_Clear W m)"
| "msg_Clear W (ReplyMsg m) = ReplyMsg (Reply_Clear W m)"
| "msg_Clear W (SetMsg m) = SetMsg (Set_Clear W m)"
| "msg_Clear W (EmptyMsg m) = EmptyMsg (Empty_Clear W m)"

definition lift_msg :: "('a \<Rightarrow> 'u msg) \<Rightarrow> (bool \<times> 'a \<times> byte list) option \<Rightarrow> (bool \<times> 'u msg \<times> byte list) option" where
  "lift_msg C = map_option (\<lambda>(ok, m, rest). (ok, C m, rest))"

primrec msg_MergePartial :: "'u wire \<Rightarrow> 'u msg \<Rightarrow> byte list \<Rightarrow> (bool \<times> 'u msg \<times> byte list) option" where
  "msg_MergePartial W (QueryMsg m) xs = lift_msg QueryMsg (Query_MergePartialFromCodedStream W m xs)"
| "msg_MergePartial W (ReplyMsg m) xs = lift_msg ReplyMsg (Reply_MergePartialFromCodedStream W m xs)"
| "msg_MergePartial W (SetMsg m) xs = lift_msg SetMsg (Set_MergePartialFromCodedStream W m xs)"
| "msg_MergePartial W (EmptyMsg m) xs = lift_msg EmptyMsg (Empty_MergePartialFromCodedStream W m xs)"

primrec msg_ByteSizeLong :: "'u wire \<Rightarrow> 'u msg \<Rightarrow> nat" where
  "msg_ByteSizeLong W (QueryMsg m) = Query_ByteSizeLong W m"
| "msg_ByteSizeLong W (ReplyMsg m) = Reply_ByteSizeLong W m"
| "msg_ByteSizeLong W (SetMsg m) = Set_ByteSizeLong W m"
| "msg_ByteSizeLong W (EmptyMsg m) = Empty_ByteSizeLong W m"

primrec msg_SerializeToArray :: "'u wire \<Rightarrow> 'u msg \<Rightarrow> byte list" where
  "msg_SerializeToArray W (QueryMsg m) = Query_SerializeToArray W m"
| "msg_SerializeToArray W (ReplyMsg m) = Reply_SerializeToArray W m"
| "msg_SerializeToArray W (SetMsg m) = Set_SerializeToArray W m"
| "msg_SerializeToArray W (EmptyMsg m) = Empty_SerializeToArray W m"

primrec msg_Serialize :: "'u wire \<Rightarrow> 'u msg \<Rightarrow> byte list \<Rightarrow> byte list" where
  "msg_Serialize W (QueryMsg m) = Query_SerializeWithCachedSizes W m"
| "msg_Serialize W (ReplyMsg m) = Reply_SerializeWithCachedSizes W m"
| "msg_Serialize W (SetMsg m) = Set_SerializeWithCachedSizes W m"
| "msg_Serialize W (EmptyMsg m) = Empty_SerializeWithCachedSizes W m"

primrec msg_IsInitialized :: "'u msg \<Rightarrow> bool" where
  "msg_IsInitialized (QueryMsg m) = Query_IsInitialized m"
| "msg_IsInitialized (ReplyMsg m) = Reply_IsInitialized m"
| "msg_IsInitialized (SetMsg m) = Set_IsInitialized m"
| "msg_IsInitialized (EmptyMsg m) = Empty_IsInitialized m"

primrec msg_ok :: "'u wire \<Rightarrow> 'u msg \<Rightarrow> bool" where
  "msg_ok W (QueryMsg m) = Query_ok W m"
| "msg_ok W (ReplyMsg m) = Reply_ok W m"
| "msg_ok W (SetMsg m) = Set_ok W m"
| "msg_ok W (EmptyMsg m) = Empty_ok W m"

text \<open>
  What the codec relies on: the non-virtual functions of the library call the virtual ones, the
  four classes are registered under their names, and \<open>ParseFromArray\<close> succeeds when merging into
  the cleared object does and consumes the whole input.
\<close>

definition protobuf_laws :: "'u wire \<Rightarrow> ('u msg, 'd) message_ops \<Rightarrow> bool" where
  "protobuf_laws W ops \<longleftrightarrow>
     (\<forall>m. GetTypeName ops m = type_name m \<and> IsInitialized ops m = msg_IsInitialized m
        \<and> ByteSize ops m = msg_ByteSizeLong W m
        \<and> SerializeWithCachedSizesToArray ops m = msg_SerializeToArray W m
        \<and> createMessage ops (type_name m) = Some (msg_new W m))
     \<and> (\<forall>m m' xs. msg_MergePartial W (msg_Clear W m) xs = Some (True, m', []) \<and> msg_IsInitialized m'
        \<longrightarrow> ParseFromArray ops xs m = (True, m'))"

lemmas msg_class_laws = query.announced reply.announced set.announced empty.announced

lemma msg_initialized [simp]: "msg_IsInitialized m"
  by (cases m) (simp_all add: Query_IsInitialized_def Reply_IsInitialized_def Set_IsInitialized_def Empty_IsInitialized_def)

lemma msg_announced: "msg_ok W m \<Longrightarrow> msg_ByteSizeLong W m = length (msg_SerializeToArray W m)"
  by (cases m) (simp_all add: msg_class_laws)

lemma msg_parses_back: "msg_ok W m \<Longrightarrow> msg_MergePartial W (msg_Clear W (msg_new W m)) (msg_SerializeToArray W m) = Some (True, m, [])"
  by (cases m) (simp_all add: query.parses_back reply.parses_back set.parses_back empty.parses_back lift_msg_def)

lemma type_name_not_empty: "type_name m \<noteq> []"
  by (cases m) (simp_all add: ascii_def)

lemma type_name_short: "length (type_name m) \<le> 11"
  by (cases m) simp_all

lemma generated_message_ok:
  assumes "protobuf_laws W ops" "msg_ok W m" "msg_ByteSizeLong W m \<le> 60000000"
  shows "message_ok ops m"
proof -
  have "ParseFromArray ops (msg_SerializeToArray W m) (msg_new W m) = (True, m)"
    using assms(1) msg_parses_back [OF assms(2)] unfolding protobuf_laws_def by auto
  then show ?thesis
    using assms(1,3) msg_announced [OF assms(2)] add_mono [OF type_name_short [of m] assms(3)]
    by (simp add: message_ok_def protobuf_laws_def pb_len_def kMaxMessageLen_def type_name_not_empty)
qed

section \<open>Properties\<close>

text \<open>C4: A \<open>Query\<close>, \<open>Reply\<close>, \<open>Set\<close> or \<open>Empty\<close> with valid UTF-8 strings, no unknown fields and less than sixty
  million bytes survives the trip over the wire: the sender's codec and generated serializer, any cut of
  the stream, the receiver's codec and generated parser deliver it unchanged and in order.\<close>
theorem generated_messages_arrive:
  assumes "protobuf_laws W ops" "list_all (msg_ok W) ms"
    "list_all (\<lambda>m. msg_ByteSizeLong W m \<le> 60000000) ms"
    "map Some pieces = map (send ops) ms" "concat cs = concat pieces"
  shows "\<exists>b. receive ops cs new_buffer = Some (map messageCallback ms, b) \<and> content b = []"
proof -
  have ok: "list_all (message_ok ops) ms"
    using assms(1-3) by (auto simp: list_all_iff intro: generated_message_ok)
  from assms(4) have "map Some pieces = map Some (map (pb_enc ops) ms)"
    using ok by (simp add: list_all_iff send_ok)
  then have "pieces = map (pb_enc ops) ms" by (simp only: inj_map_eq_map inj_Some)
  with assms(5) pb.delivery_clean [OF ok, of cs] have "feed (pb_dec ops) cs [] = (map Inl ms, [])" by simp
  with receive_feed [OF new_buffer_ok(1), of ops cs] show ?thesis
    by (auto simp: new_buffer_ok(2))
qed

text \<open>C28: The two serializers of each class agree and write exactly the number of bytes \<open>ByteSizeLong\<close>
  announces, whatever the fields hold, unknown fields included; the codec's consistency check on
  the written size therefore never fires for these classes.\<close>
theorem announced_size_is_written:
  assumes "wire_laws W"
  shows "length (msg_SerializeToArray W m) = msg_ByteSizeLong W m
    \<and> msg_Serialize W m output = output @ msg_SerializeToArray W m"
proof (cases m)
  case (QueryMsg q)
  then show ?thesis
    using assms by (simp add: Query_defs foldl_append foldl_size strings_size strings_streamed string_wire(2,3) unknown_wire)
next
  case (ReplyMsg r)
  then show ?thesis
    using assms by (simp add: Reply_defs foldl_append foldl_size strings_size strings_streamed string_wire(2,3) unknown_wire)
next
  case (SetMsg s)
  then show ?thesis
    using assms by (simp add: Set_defs string_wire(2,3) unknown_wire)
next
  case (EmptyMsg e)
  then show ?thesis
    using assms by (simp add: Empty_defs int32_wire(2,3) unknown_wire)
qed

text \<open>C37: Different messages of the class \<open>Set\<close> have different serializations. \<open>CopyFrom\<close> makes any other message,
  whatever it held, equal to its argument, and leaves a message alone that is copied onto itself; the
  copy constructor makes an equal message, and \<open>Swap\<close> exchanges two.\<close>
theorem set_serialization_faithful:
  assumes "Set_ok W m" "Set_ok W m'"
  shows "(Set_SerializeToArray W m = Set_SerializeToArray W m' \<longleftrightarrow> m = m')
    \<and> Set_CopyFrom W False m t = m \<and> Set_CopyFrom W True t t = t
    \<and> Set_copy W m = m \<and> Set_Swap False t m = (m, t) \<and> Set_Swap True t t = (t, t)"
proof -
  have "Set_copy W m = m"
    using assms(1) by (auto simp: Set_ok_def Set_copy_def Let_def unknown_wire(1) intro!: Set.equality)
  moreover have "Set_Swap False t m = (m, t)"
    by (simp add: Set_Swap_def Set_InternalSwap_def)
  ultimately show ?thesis
    using set.serialization_injective [OF assms] by (auto simp: set.copied assms(1) Set_Swap_def)
qed

section \<open>The wire format\<close>

text \<open>
  An instance: variable-length integers of seven bits a byte, lowest first, a field as its tag and
  its value, ASCII as the valid text, and unknown fields kept as their bytes.
\<close>

function varint :: "nat \<Rightarrow> byte list" where
  "varint n = (if n < 128 then [word_of_nat n] else word_of_nat (n mod 128 + 128) # varint (n div 128))"
  by auto
termination by (relation "measure id") auto

declare varint.simps [simp del]

fun read_varint :: "byte list \<Rightarrow> (nat \<times> byte list) option" where
  "read_varint [] = None"
| "read_varint (b # bs) =
     (if b < 128 then Some (unat b, bs)
      else map_option (\<lambda>(n, rest). (unat b - 128 + 128 * n, rest)) (read_varint bs))"

lemma read_varint_varint: "read_varint (varint n @ rest) = Some (n, rest)"
proof (induction n rule: varint.induct)
  case (1 n)
  show ?case
  proof (cases "n < 128")
    case True
    then show ?thesis by (simp add: varint.simps [of n] word_less_nat_alt unat_small)
  next
    case False
    have "n mod 128 + 128 < 256" by (simp add: algebra_simps)
    then have "unat (word_of_nat (n mod 128 + 128) :: byte) = n mod 128 + 128" by (rule unat_small)
    with False 1 show ?thesis by (simp add: varint.simps [of n] word_less_nat_alt)
  qed
qed

definition varint_wire :: "byte list wire" where
  "varint_wire = \<lparr>
     ReadTag = (\<lambda>xs. case read_varint xs of None \<Rightarrow> ((0, False), xs)
       | Some (n, rest) \<Rightarrow> ((word_of_nat n, 0 < n \<and> n < 128), rest)),
     GetTagFieldNumber = (\<lambda>tag. unat tag div 8),
     ReadString = (\<lambda>xs. case read_varint xs of None \<Rightarrow> None
       | Some (n, rest) \<Rightarrow> if n \<le> length rest then Some (take n rest, drop n rest) else None),
     ReadInt32 = (\<lambda>xs. map_option (\<lambda>(n, rest). (word_of_nat n, rest)) (read_varint xs)),
     SkipField = (\<lambda>tag xs u. if tag AND 7 = 0
       then map_option (\<lambda>(n, rest). (rest, u @ varint (unat tag) @ varint n)) (read_varint xs) else None),
     VerifyUtf8String = list_all (\<lambda>b. b < 128),
     WriteString = (\<lambda>n s. varint (8 * n + 2) @ varint (length s) @ s),
     WriteStringToArray = (\<lambda>n s. varint (8 * n + 2) @ varint (length s) @ s),
     StringSize = (\<lambda>s. length (varint (length s)) + length s),
     WriteInt32 = (\<lambda>n v. varint (8 * n) @ varint (unat (scast v :: u64))),
     WriteInt32ToArray = (\<lambda>n v. varint (8 * n) @ varint (unat (scast v :: u64))),
     Int32Size = (\<lambda>v. length (varint (unat (scast v :: u64)))),
     no_unknown = [],
     have_unknown_fields = (\<lambda>u. u \<noteq> []),
     MergeUnknown = (\<lambda>u v. u @ v),
     SerializeUnknownFields = (\<lambda>u. u),
     SerializeUnknownFieldsToArray = (\<lambda>u. u),
     ComputeUnknownFieldsSize = length\<rparr>"

lemma scast_back: "ucast (scast v :: u64) = (v :: u32)"
  by (intro bit_word_eqI) (simp add: bit_simps)

lemma varint_laws: "wire_laws varint_wire"
proof -
  have tag: "length (varint (8 * n)) = 1" "length (varint (Suc (Suc (8 * n)))) = 1" if "n < 16" for n
    using that by (simp_all add: varint.simps)
  have num: "unat (word_of_nat (8 * n + k) :: u32) div 8 = n" if "n < 16" "k < 8" for n k
    using that by (simp add: unat_of_nat del: of_nat_add of_nat_mult)
  show ?thesis
    unfolding wire_laws_def varint_wire_def
    by (simp add: read_varint_varint tag num scast_back del: of_nat_add of_nat_mult)
qed

text \<open>The library's side of \<open>message_ops\<close> on the four registered classes.\<close>

definition generated_ops :: "'u wire \<Rightarrow> ('u msg, 'u msg) message_ops" where
  "generated_ops W = \<lparr>GetTypeName = type_name, IsInitialized = msg_IsInitialized,
     ByteSize = msg_ByteSizeLong W, SerializeWithCachedSizesToArray = msg_SerializeToArray W,
     FindMessageTypeByName = (\<lambda>n. find (\<lambda>m. type_name m = n)
       [QueryMsg (Query_new W), ReplyMsg (Reply_new W), SetMsg (Set_new W), EmptyMsg (Empty_new W)]),
     GetPrototype = Some, New = msg_new W,
     ParseFromArray = (\<lambda>xs m. case msg_MergePartial W (msg_Clear W m) xs of
         None \<Rightarrow> (False, m) | Some (done, m', rest) \<Rightarrow> (done \<and> rest = [], m')),
     adler32 = adler_sum\<rparr>"

lemma generated_laws: "protobuf_laws W (generated_ops W)"
proof -
  have "createMessage (generated_ops W) (type_name m) = Some (msg_new W m)" for m
    by (cases m) (simp_all add: createMessage_def generated_ops_def ascii_def of_char_eq_iff)
  then show ?thesis by (simp add: protobuf_laws_def generated_ops_def)
qed

definition sample_set :: "byte list msg" where
  "sample_set = SetMsg \<lparr>set_key = [107], set_value = [118, 49], set_unknown = []\<rparr>"

definition sample_empty :: "byte list msg" where
  "sample_empty = EmptyMsg \<lparr>empty_id = 300, empty_unknown = []\<rparr>"

lemma samples_ok: "list_all (msg_ok varint_wire) [sample_set, sample_empty]"
    "list_all (\<lambda>m. msg_ByteSizeLong varint_wire m \<le> 60000000) [sample_set, sample_empty]"
  by (simp_all add: sample_set_def sample_empty_def Set_ok_def Empty_ok_def varint_laws)
    (simp_all add: varint_wire_def text_ok_def Set_ByteSizeLong_def Empty_ByteSizeLong_def varint.simps)

theorem generated_messages_arrive_witness:
  "\<exists>b. receive (generated_ops varint_wire)
       (map (\<lambda>x. [x]) (concat (map (\<lambda>m. the (send (generated_ops varint_wire) m)) [sample_set, sample_empty])))
       new_buffer = Some (map messageCallback [sample_set, sample_empty], b) \<and> content b = []"
proof -
  have "list_all (message_ok (generated_ops varint_wire)) [sample_set, sample_empty]"
    using samples_ok by (simp add: generated_message_ok [OF generated_laws])
  then have "map Some (map (\<lambda>m. the (send (generated_ops varint_wire) m)) [sample_set, sample_empty])
      = map (send (generated_ops varint_wire)) [sample_set, sample_empty]"
    by (simp add: send_ok)
  from generated_messages_arrive [OF generated_laws samples_ok this] show ?thesis
    by (simp del: map_map list.map add: concat_map_singleton)
qed

theorem announced_size_is_written_witness:
  "length (msg_SerializeToArray varint_wire sample_set) = msg_ByteSizeLong varint_wire sample_set"
  using announced_size_is_written [OF varint_laws, of sample_set "[]"] by simp

theorem set_serialization_faithful_witness:
  "Set_CopyFrom varint_wire False \<lparr>set_key = [107], set_value = [118], set_unknown = []\<rparr>
       \<lparr>set_key = [1, 2], set_value = [3], set_unknown = [4]\<rparr>
     = \<lparr>set_key = [107], set_value = [118], set_unknown = []\<rparr>"
proof -
  have "Set_ok varint_wire \<lparr>set_key = [107], set_value = [118], set_unknown = []\<rparr>"
    by (simp add: Set_ok_def varint_laws) (simp add: varint_wire_def text_ok_def)
  from set_serialization_faithful [OF this this] show ?thesis by blast
qed

end
