(* ===== verification/ProxyServer.thy ===== *)
theory ProxyServer
  imports Decimal RedisPool Dispatcher QueryMessages
begin

text \<open>
  \<open>ProxyServer/ProxyServer.h\<close> and \<open>ProxyServer.cc\<close>: a client's \<open>Query\<close> or \<open>Set\<close> becomes a redis command on
  the server its key selects; the reply is found back to the client through the unique id of the
  redis connection. \<open>'c\<close> is the type of client connections. The callback that is bound into every
  redis command is the same function: the model tags it with the client that caused the command, a
  ghost that no step of the program reads.
\<close>

section \<open>Texts\<close>

text \<open>\<open>snprintf\<close> into a buffer of 32 bytes keeps at most 31 characters.\<close>

definition toString :: "int \<Rightarrow> byte list" where
  "toString v = (let buf = 32 in take (buf - 1) (if v < 0 then 45 # digits (nat (- v)) else digits (nat v)))"

text \<open>The reply tree of the hiredis library and the values of its type field.\<close>

datatype redisReply = RedisReply (rtype: int) (rinteger: int) (rstr: "byte list") (relement: "redisReply list")

definition REDIS_REPLY_STRING :: int where "REDIS_REPLY_STRING = 1"
definition REDIS_REPLY_ARRAY :: int where "REDIS_REPLY_ARRAY = 2"
definition REDIS_REPLY_INTEGER :: int where "REDIS_REPLY_INTEGER = 3"
definition REDIS_REPLY_NIL :: int where "REDIS_REPLY_NIL = 4"
definition REDIS_REPLY_STATUS :: int where "REDIS_REPLY_STATUS = 5"
definition REDIS_REPLY_ERROR :: int where "REDIS_REPLY_ERROR = 6"

definition types :: "string list" where
  "types = ['''', ''REDIS_REPLY_STRING'', ''REDIS_REPLY_ARRAY'', ''REDIS_REPLY_INTEGER'', ''REDIS_REPLY_NIL'',
     ''REDIS_REPLY_STATUS'', ''REDIS_REPLY_ERROR'']"

text \<open>\<open>None\<close> is a type outside the table of names. A null reply is the empty text.\<close>

fun reply_string :: "redisReply \<Rightarrow> byte list option" where
  "reply_string (RedisReply ty n s es) = do {
     assert_that (0 \<le> ty \<and> ty < int (length types));
     let str = ascii (types ! nat ty) @ ascii ''('' @ toString ty @ ascii '') '' @ ascii ''{ '';
     str \<leftarrow> (if ty \<in> {REDIS_REPLY_STRING, REDIS_REPLY_STATUS, REDIS_REPLY_ERROR} then
               Some (str @ [34] @ s @ [34])
             else if ty = REDIS_REPLY_INTEGER then Some (str @ toString n)
             else if ty = REDIS_REPLY_ARRAY then
               (case those (map reply_string es) of
                  None \<Rightarrow> None
                | Some ts \<Rightarrow> Some (str @ toString (int (length es)) @ ascii '' '' @ concat (map (\<lambda>t. ascii '' '' @ t) ts)))
             else Some str);
     Some (str @ ascii '' }'')
   }"

definition redisReplyToString :: "redisReply option \<Rightarrow> byte list option" where
  "redisReplyToString reply = (case reply of None \<Rightarrow> Some [] | Some r \<Rightarrow> reply_string r)"

text \<open>A C string ends at its first NUL.\<close>

definition c_str :: "byte list \<Rightarrow> byte list" where
  "c_str s = takeWhile (\<lambda>b. b \<noteq> 0) s"

section \<open>State\<close>

datatype msg_type = QueryT | ReplyT | SetT | EmptyT

primrec rank :: "msg_type \<Rightarrow> nat" where
  "rank QueryT = 0" | "rank ReplyT = 1" | "rank SetT = 2" | "rank EmptyT = 3"

instantiation msg_type :: linorder
begin

definition less_eq_msg_type :: "msg_type \<Rightarrow> msg_type \<Rightarrow> bool" where
  "less_eq_msg_type a b \<longleftrightarrow> rank a \<le> rank b"

definition less_msg_type :: "msg_type \<Rightarrow> msg_type \<Rightarrow> bool" where
  "less_msg_type a b \<longleftrightarrow> rank a < rank b"

instance
proof
  fix a b :: msg_type
  show "a \<le> b \<Longrightarrow> b \<le> a \<Longrightarrow> a = b"
    by (cases a; cases b) (simp_all add: less_eq_msg_type_def)
qed (auto simp: less_eq_msg_type_def less_msg_type_def)

end

primrec GetDescriptor :: "'u msg \<Rightarrow> msg_type" where
  "GetDescriptor (QueryMsg m) = QueryT"
| "GetDescriptor (ReplyMsg m) = ReplyT"
| "GetDescriptor (SetMsg m) = SetT"
| "GetDescriptor (EmptyMsg m) = EmptyT"

text \<open>
  The member functions bound as callbacks, and the functors queued to the event loop. A functor
  holds a reference to the \<open>shared_ptr\<close> it was made from: \<open>vars\<close> are the live variables of this kind,
  and \<open>concrete\<close> of \<open>CallbackT::onMessage\<close> lives until the callback returns.
\<close>

datatype handler = OnUnknownMessage | OnQuery | OnSet

datatype 'c loop_functor = QueryInLoop 'c nat | SetInLoop 'c nat

record ('c, 'u) proxy =
  numThreads :: int
  clientConns :: "(int, 'c) std_map"
  backend :: "'c hpool"
  dispatcher :: "(msg_type, handler) dispatcher"
  pendingFunctors :: "'c loop_functor list"
  vars :: "nat \<Rightarrow> 'u msg option"
  next_var :: nat

datatype 'c effect = ToRedis nat nat "byte list" | ToClient 'c "byte list" | Shutdown 'c

definition new_proxy :: "'n configure \<Rightarrow> int \<Rightarrow> ('c, 'u) proxy option" where
  "new_proxy conf threads = do {
     pool \<leftarrow> HiredisPool conf;
     let d = new_dispatcher OnUnknownMessage;
     let d = registerMessageCallback QueryT OnQuery d;
     let d = registerMessageCallback SetT OnSet d;
     Some \<lparr>numThreads = threads, clientConns = [], backend = pool, dispatcher = d,
       pendingFunctors = [], vars = (\<lambda>v. None), next_var = 0\<rparr>
   }"

definition start :: "(nat \<Rightarrow> InetAddress \<Rightarrow> int \<Rightarrow> int) \<Rightarrow> ('c, 'u) proxy \<Rightarrow> ('c, 'u) proxy option" where
  "start rac s = map_option (\<lambda>pool. s\<lparr>backend := pool\<rparr>) (pool_connect rac (backend s))"

section \<open>Requests\<close>

definition uid :: "int \<Rightarrow> int \<Rightarrow> int" where
  "uid sid conId = sint (genUniqueConId (word_of_int sid) (word_of_int conId))"

definition set_client :: "nat \<Rightarrow> 'c hiredis \<Rightarrow> ('c, 'u) proxy \<Rightarrow> ('c, 'u) proxy" where
  "set_client i h s = s\<lparr>backend := (backend s)\<lparr>clients := (clients (backend s))[i := h]\<rparr>\<rparr>"

text \<open>\<open>rvc i\<close> is \<open>redisvAsyncCommand\<close> on the connections of server \<open>i\<close>.\<close>

definition setInLoop :: "(nat \<Rightarrow> nat \<Rightarrow> byte list \<Rightarrow> int) \<Rightarrow> 'c \<Rightarrow> 'u Set \<Rightarrow> ('c, 'u) proxy
    \<Rightarrow> 'c effect list \<times> ('c, 'u) proxy" where
  "setInLoop rvc conn msg s =
     (let key = set_key msg;
          i = getHiredis key (backend s);
          redis = clients (backend s) ! i;
          sid = serverId redis;
          conId = - 1;
          cmd = ascii ''set '' @ key @ ascii '' '' @ set_value msg;
          (ret, conId, sent, redis) = command (rvc i) conId conn (c_str cmd) redis;
          s = set_client i redis s
      in (case sent of None \<Rightarrow> [] | Some (p, cmd) \<Rightarrow> [ToRedis i p cmd],
          s\<lparr>clientConns := map_set (uid sid conId) conn (clientConns s)\<rparr>))"

definition queryInLoop :: "(nat \<Rightarrow> nat \<Rightarrow> byte list \<Rightarrow> int) \<Rightarrow> 'c \<Rightarrow> 'u Query \<Rightarrow> ('c, 'u) proxy
    \<Rightarrow> 'c effect list \<times> ('c, 'u) proxy" where
  "queryInLoop rvc conn msg s =
     (let key = query_key msg;
          i = getHiredis key (backend s);
          redis = clients (backend s) ! i;
          sid = serverId redis;
          conId = - 1;
          cmd = ascii ''get '' @ key;
          (ret, conId, sent, redis) = command (rvc i) conId conn (c_str cmd) redis;
          s = set_client i redis s
      in (case sent of None \<Rightarrow> [] | Some (p, cmd) \<Rightarrow> [ToRedis i p cmd],
          s\<lparr>clientConns := map_set (uid sid conId) conn (clientConns s)\<rparr>))"

text \<open>Calling a functor follows the reference it holds; \<open>None\<close> is a reference to a dead variable.\<close>

definition call_functor :: "(nat \<Rightarrow> nat \<Rightarrow> byte list \<Rightarrow> int) \<Rightarrow> 'c loop_functor \<Rightarrow> ('c, 'u) proxy
    \<Rightarrow> ('c effect list \<times> ('c, 'u) proxy) option" where
  "call_functor rvc f s =
     (case f of
        QueryInLoop conn v \<Rightarrow> (case vars s v of Some (QueryMsg q) \<Rightarrow> Some (queryInLoop rvc conn q s) | _ \<Rightarrow> None)
      | SetInLoop conn v \<Rightarrow> (case vars s v of Some (SetMsg m) \<Rightarrow> Some (setInLoop rvc conn m s) | _ \<Rightarrow> None))"

text \<open>\<open>EventLoop::runInLoop\<close>, with whether the caller is the thread of the loop.\<close>

definition runInLoop :: "(nat \<Rightarrow> nat \<Rightarrow> byte list \<Rightarrow> int) \<Rightarrow> bool \<Rightarrow> 'c loop_functor \<Rightarrow> ('c, 'u) proxy
    \<Rightarrow> ('c effect list \<times> ('c, 'u) proxy) option" where
  "runInLoop rvc inLoopThread f s =
     (if inLoopThread then call_functor rvc f s
      else Some ([], s\<lparr>pendingFunctors := pendingFunctors s @ [f]\<rparr>))"

definition onQuery :: "(nat \<Rightarrow> nat \<Rightarrow> byte list \<Rightarrow> int) \<Rightarrow> bool \<Rightarrow> 'c \<Rightarrow> nat \<Rightarrow> ('c, 'u) proxy
    \<Rightarrow> ('c effect list \<times> ('c, 'u) proxy) option" where
  "onQuery rvc inLoopThread conn message s = runInLoop rvc inLoopThread (QueryInLoop conn message) s"

definition onSet :: "(nat \<Rightarrow> nat \<Rightarrow> byte list \<Rightarrow> int) \<Rightarrow> bool \<Rightarrow> 'c \<Rightarrow> nat \<Rightarrow> ('c, 'u) proxy
    \<Rightarrow> ('c effect list \<times> ('c, 'u) proxy) option" where
  "onSet rvc inLoopThread conn message s = runInLoop rvc inLoopThread (SetInLoop conn message) s"

text \<open>\<open>onUnknownMessage\<close> only logs.\<close>

definition onMessage_of :: "(nat \<Rightarrow> nat \<Rightarrow> byte list \<Rightarrow> int) \<Rightarrow> bool \<Rightarrow> 'c \<Rightarrow> 'u msg \<Rightarrow> ('c, 'u) proxy
    \<Rightarrow> ('c effect list \<times> ('c, 'u) proxy) option" where
  "onMessage_of rvc inLoopThread conn m s = do {
     h \<leftarrow> onProtobufMessage GetDescriptor (dispatcher s) m;
     let concrete = next_var s;
     let s = s\<lparr>vars := (vars s)(concrete \<mapsto> m), next_var := concrete + 1\<rparr>;
     (out, s) \<leftarrow> (case h of
        OnUnknownMessage \<Rightarrow> Some ([], s)
      | OnQuery \<Rightarrow> onQuery rvc inLoopThread conn concrete s
      | OnSet \<Rightarrow> onSet rvc inLoopThread conn concrete s);
     Some (out, s\<lparr>vars := (vars s)(concrete := None)\<rparr>)
   }"

primrec call_functors :: "(nat \<Rightarrow> nat \<Rightarrow> byte list \<Rightarrow> int) \<Rightarrow> 'c loop_functor list \<Rightarrow> ('c, 'u) proxy
    \<Rightarrow> ('c effect list \<times> ('c, 'u) proxy) option" where
  "call_functors rvc [] s = Some ([], s)"
| "call_functors rvc (f # fs) s = do {
     (out, s) \<leftarrow> call_functor rvc f s;
     (out', s) \<leftarrow> call_functors rvc fs s;
     Some (out @ out', s)
   }"

definition doPendingFunctors :: "(nat \<Rightarrow> nat \<Rightarrow> byte list \<Rightarrow> int) \<Rightarrow> ('c, 'u) proxy
    \<Rightarrow> ('c effect list \<times> ('c, 'u) proxy) option" where
  "doPendingFunctors rvc s = call_functors rvc (pendingFunctors s) (s\<lparr>pendingFunctors := []\<rparr>)"

section \<open>Replies\<close>

definition proxy_commandCallback :: "'u wire \<Rightarrow> ('u msg, 'd) message_ops \<Rightarrow> redisReply option \<Rightarrow> int
    \<Rightarrow> ('c, 'u) proxy \<Rightarrow> 'c effect list option" where
  "proxy_commandCallback W ops rp uniqueConId s = do {
     reply \<leftarrow> redisReplyToString rp;
     let answer = (Reply_new W)\<lparr>reply_text := reply\<rparr>;
     (case map_find uniqueConId (clientConns s) of
        None \<Rightarrow> Some []
      | Some conn \<Rightarrow> do {
          bytes \<leftarrow> send ops (ReplyMsg answer);
          Some [ToClient conn bytes, Shutdown conn]
        })
   }"

text \<open>The library delivers a reply on connection \<open>p\<close> of server \<open>i\<close>.\<close>

definition redis_reply :: "'u wire \<Rightarrow> ('u msg, 'd) message_ops \<Rightarrow> nat \<Rightarrow> nat \<Rightarrow> redisReply option
    \<Rightarrow> ('c, 'u) proxy \<Rightarrow> ('c effect list \<times> ('c, 'u) proxy) option" where
  "redis_reply W ops i p rp s = do {
     ((cb, u), h) \<leftarrow> commandCallback p (clients (backend s) ! i);
     out \<leftarrow> proxy_commandCallback W ops rp (sint u) s;
     Some (out, set_client i h s)
   }"

text \<open>The library gives up connection \<open>p\<close> of server \<open>i\<close>, with the calls of \<open>plan\<close>: the commands that it answers are
  answered with null.\<close>

definition redis_lost :: "'u wire \<Rightarrow> ('u msg, 'd) message_ops \<Rightarrow> nat \<Rightarrow> nat \<Rightarrow> lib_call list
    \<Rightarrow> ('c, 'u) proxy \<Rightarrow> ('c effect list \<times> ('c, 'u) proxy) option" where
  "redis_lost W ops i p plan s = do {
     (calls, us, h) \<leftarrow> library_calls plan p (clients (backend s) ! i);
     outs \<leftarrow> those (map (\<lambda>(cb, u). proxy_commandCallback W ops None (sint u) s) calls);
     Some (concat outs, set_client i h s)
   }"

section \<open>Runs of the server\<close>

text \<open>
  A step is a message from a client, received in the thread of the loop or in another, the pending
  functors of the loop, a reply, the loss of a connection to redis, or another callback of the library.
  What \<open>redisvAsyncCommand\<close> returns may differ from step to step.
\<close>

definition other_event :: "'cb hevent \<Rightarrow> bool" where
  "other_event e = (case e of Connected p st \<Rightarrow> True | Writable p \<Rightarrow> True | Interest g p \<Rightarrow> True | _ \<Rightarrow> False)"

lemma other_event_simps [simp]: "other_event (Writable p)" "other_event (Connected p st)" "other_event (Interest g p)"
  by (simp_all add: other_event_def)

inductive pstep :: "'u wire \<Rightarrow> ('u msg, 'd) message_ops \<Rightarrow> ('c, 'u) proxy \<Rightarrow> 'c effect list \<Rightarrow> ('c, 'u) proxy \<Rightarrow> bool"
  for W ops where
  message: "onMessage_of rvc inLoopThread conn m s = Some (out, s') \<Longrightarrow> pstep W ops s out s'"
| pending: "doPendingFunctors rvc s = Some (out, s') \<Longrightarrow> pstep W ops s out s'"
| reply: "i < length (clients (backend s)) \<Longrightarrow> p < length (scons (clients (backend s) ! i))
    \<Longrightarrow> redis_reply W ops i p rp s = Some (out, s') \<Longrightarrow> pstep W ops s out s'"
| lost: "i < length (clients (backend s)) \<Longrightarrow> p < length (scons (clients (backend s) ! i))
    \<Longrightarrow> answers_first plan p (clients (backend s) ! i)
    \<Longrightarrow> redis_lost W ops i p plan s = Some (out, s') \<Longrightarrow> pstep W ops s out s'"
| library: "i < length (clients (backend s)) \<Longrightarrow> hstep (clients (backend s) ! i) e h' \<Longrightarrow> other_event e
    \<Longrightarrow> pstep W ops s [] (set_client i h' s)"

inductive preach :: "'u wire \<Rightarrow> ('u msg, 'd) message_ops \<Rightarrow> 'n configure \<Rightarrow> ('c, 'u) proxy \<Rightarrow> bool"
  for W ops conf where
  started: "new_proxy conf threads = Some s0 \<Longrightarrow> start rac s0 = Some s \<Longrightarrow> preach W ops conf s"
| step: "preach W ops conf s \<Longrightarrow> pstep W ops s out s' \<Longrightarrow> preach W ops conf s'"

end
