(* ===== verification/ProxyRouting.thy ===== *)
theory ProxyRouting
  imports ProxyServer
begin

text \<open>
  The invariant of the proxy: a command that is not answered is filed under the unique id of its redis
  connection, with the client that caused it. Unique ids of different connections differ, every step
  keeps the invariant, and a started server satisfies it.
\<close>

section \<open>Unique ids\<close>

lemma uid_low: "ucast (genUniqueConId s c) = c"
  unfolding genUniqueConId_def by (intro bit_word_eqI) (auto simp: bit_simps)

lemma uid_high: "\<not> bit c 31 \<Longrightarrow> ucast (drop_bit 32 (genUniqueConId s c)) = s"
proof (rule bit_word_eqI)
  fix n assume "\<not> bit c 31" "n < LENGTH(32)"
  moreover from this have "n = 31 \<or> n < 31" by auto
  ultimately show "bit (ucast (drop_bit 32 (genUniqueConId s c)) :: u32) n = bit s n"
    unfolding genUniqueConId_def by (auto simp: bit_simps min_def)
qed

lemma genUniqueConId_inj:
  assumes "genUniqueConId s c = genUniqueConId s' c'" "\<not> bit c 31"
  shows "s = s' \<and> c = c'"
proof -
  have c: "c = c'" using arg_cong [OF assms(1), of "ucast :: u64 \<Rightarrow> u32"] by (simp only: uid_low)
  have "s = ucast (drop_bit 32 (genUniqueConId s c))" by (rule uid_high [OF assms(2), symmetric])
  also have "\<dots> = ucast (drop_bit 32 (genUniqueConId s' c'))" by (simp only: assms(1))
  also have "\<dots> = s'" using assms(2) unfolding c by (rule uid_high)
  finally show ?thesis using c by blast
qed

lemma word_of_int_inj32: "(word_of_int a :: u32) = word_of_int b \<Longrightarrow> - (2 ^ 31) \<le> a \<Longrightarrow> a < 2 ^ 31
    \<Longrightarrow> - (2 ^ 31) \<le> b \<Longrightarrow> b < 2 ^ 31 \<Longrightarrow> a = b"
proof -
  assume eq: "(word_of_int a :: u32) = word_of_int b"
    and r: "- (2 ^ 31) \<le> a" "a < 2 ^ 31" "- (2 ^ 31) \<le> b" "b < 2 ^ 31"
  from eq have "sint (word_of_int a :: u32) = sint (word_of_int b :: u32)" by simp
  with r show "a = b" by (simp add: signed_of_int signed_take_bit_int_eq_self)
qed

lemma uid_inj:
  assumes "uid i c = uid j p" "0 \<le> p" "p < 2 ^ 31" "- 1 \<le> c" "c < 2 ^ 31" "0 \<le> i" "i < 2 ^ 31" "0 \<le> j" "j < 2 ^ 31"
  shows "i = j \<and> c = p"
proof -
  have "\<not> bit (word_of_int p :: u32) 31"
    using assms(2,3) by (simp add: bit_word_of_int_iff) (simp add: bit_iff_odd)
  moreover have "genUniqueConId (word_of_int j) (word_of_int p) = genUniqueConId (word_of_int i) (word_of_int c)"
    using assms(1) unfolding uid_def by (rule signed_word_eqI [symmetric])
  ultimately have "(word_of_int j :: u32) = word_of_int i \<and> (word_of_int p :: u32) = word_of_int c"
    by (intro genUniqueConId_inj)
  with assms(2-) show ?thesis by (auto dest!: word_of_int_inj32)
qed

section \<open>The tags of a client's connections\<close>

definition tags :: "'cb hiredis \<Rightarrow> nat \<Rightarrow> 'cb list" where
  "tags h p = c_callbacks (ctx (scons h ! p))"

lemma connect_callback_tags:
  "userConnectCallback p st h = Some (us, h') \<Longrightarrow> p < length (scons h) \<Longrightarrow> tags h' q = tags h q \<and> serverId h' = serverId h"
  by (auto simp: userConnectCallback_def tags_def setChannel_def Let_def split: if_splits Option.bind_splits)

lemma disconnect_callback_tags:
  "userDisconnectCallback p st h = Some (us, h') \<Longrightarrow> p < length (scons h) \<Longrightarrow> tags h' q = tags h q \<and> serverId h' = serverId h"
  by (auto simp: userDisconnectCallback_def removeChannel_def tags_def Let_def split: Option.bind_splits)

lemma other_event_tags:
  assumes "hstep h e h'" "other_event e"
  shows "tags h' q = tags h q \<and> serverId h' = serverId h"
  using assms
proof (cases rule: hstep.cases)
  case (connected p st us)
  have "tags (mark_connected p st h) q = tags h q" "serverId (mark_connected p st h) = serverId h"
    using connected(2) by (simp_all add: mark_connected_def tags_def)
  with connected connect_callback_tags [of p st "mark_connected p st h" us h' q] show ?thesis
    by (auto simp: mark_connected_def)
next
  case (writable p)
  then show ?thesis
    by (auto simp: handleWrite_def removeChannel_def tags_def split: if_splits Option.bind_splits)
next
  case (interest p g)
  then show ?thesis by (auto simp: on_channel_def tags_def split: Option.bind_splits)
qed (auto simp: other_event_def)

lemma command_tags:
  assumes "lifecycle h n f" "command rv (- 1) cb cmd h = (ret, conId', sent, h')"
  shows "serverId h' = serverId h
    \<and> (case sent of None \<Rightarrow> conId' = - 1 \<and> h' = h \<and> (\<forall>p<n. f p \<noteq> Free)
       | Some (p, c) \<Rightarrow> p < n \<and> conId' = int p \<and> f p = Free \<and> c = cmd \<and> lifecycle h' n (f(p := Busy))
           \<and> (\<forall>q. tags h' q = (if q = p then (if ret = REDIS_OK then [cb] else []) else tags h q)))"
proof -
  note r = command_refines [OF assms]
  have "serverId h' = serverId h" "sent = None \<Longrightarrow> conId' = - 1"
    using assms(2) by (auto simp: command_def Let_def split: if_splits option.splits)
  moreover have "tags h' q = tags h q" if "sent = Some (p, c)" "q \<noteq> p" "p < n" for p c q
    using assms that by (auto simp: command_def tags_def lifecycle_def Let_def split: if_splits option.splits)
  ultimately show ?thesis
    using r by (cases sent) (auto simp: tags_def)
qed

lemma reply_tags:
  assumes "lifecycle h n f" "p < n" "commandCallback p h = Some ((cb, u), h')"
  shows "tags h p = [cb] \<and> f p = Busy \<and> sint u = uid (serverId h) (int p) \<and> serverId h' = serverId h
    \<and> lifecycle h' n (f(p := Free)) \<and> (\<forall>q. tags h' q = (if q = p then [] else tags h q))"
proof -
  obtain cb' where cb': "tags h p = [cb']"
    using callbacks_cases [OF assms(1,2)] assms(3) by (auto simp: tags_def commandCallback_def)
  from reply_refines [OF assms(1,2) cb' [unfolded tags_def]] assms(3)
  have r: "cb = cb'" "f p = Busy" "sint u = uid (serverId h) (int p)" "lifecycle h' n (f(p := Free))" "tags h' p = []"
    by (auto simp: uid_def tags_def)
  have "serverId h' = serverId h" "q \<noteq> p \<Longrightarrow> tags h' q = tags h q" for q
    using assms by (auto simp: commandCallback_def tags_def lifecycle_def Let_def split: list.splits Option.bind_splits)
  with r cb' show ?thesis by simp
qed

lemma disconnect_tags:
  assumes "lifecycle h n f" "p < n" "answers_first plan p h" "library_calls plan p h = Some (calls, us, h')"
  shows "calls = [] \<and> (\<exists>f'. lifecycle h' n f') \<and> (\<forall>q. tags h' q = tags h q) \<and> serverId h' = serverId h"
proof -
  from library_calls_ok [OF assms(1-3)] assms(4) have l: "f p = Busy" "c_callbacks (ctx (scons h ! p)) = []"
    "calls = []" "lifecycle h' n (f(p := Inactive))" by (auto split: if_splits)
  then obtain status where "userDisconnectCallback p status h = Some (us, h')"
    using assms(3,4) by (auto simp: answers_first_def split: Option.bind_splits)
  moreover have "p < length (scons h)" using assms(1,2) by (simp add: lifecycle_def)
  ultimately have "\<forall>q. tags h' q = tags h q \<and> serverId h' = serverId h" using disconnect_callback_tags by blast
  with l show ?thesis by blast
qed

section \<open>The routing invariant\<close>

text \<open>
  Every command that is not answered is filed under the unique id of its connection, and the entry is
  the client that caused it.
\<close>

definition routed :: "nat \<Rightarrow> ('c, 'u) proxy \<Rightarrow> bool" where
  "routed n s \<longleftrightarrow> pool_ok (backend s) \<and> map_ok (clientConns s) \<and> n < 2 ^ 31
     \<and> dispatcher s = registered OnUnknownMessage [(QueryT, OnQuery), (SetT, OnSet)]
     \<and> (\<forall>i<length (clients (backend s)). (\<exists>f. lifecycle (clients (backend s) ! i) n f)
          \<and> (\<forall>p<n. \<forall>cb\<in>set (tags (clients (backend s) ! i) p).
               map_find (uid (int i) (int p)) (clientConns s) = Some cb))"

lemma set_client_simps [simp]:
  "clientConns (set_client i h s) = clientConns s" "dispatcher (set_client i h s) = dispatcher s"
  "clients (backend (set_client i h s)) = (clients (backend s))[i := h]"
  "vars (set_client i h s) = vars s" "next_var (set_client i h s) = next_var s"
  "pendingFunctors (set_client i h s) = pendingFunctors s"
  "conf_preConnect (backend (set_client i h s)) = conf_preConnect (backend s)"
  "poolSize (backend (set_client i h s)) = poolSize (backend s)"
  by (simp_all add: set_client_def)

lemma pool_ok_set_client:
  "pool_ok (backend s) \<Longrightarrow> i < length (clients (backend s)) \<Longrightarrow> serverId h = serverId (clients (backend s) ! i)
    \<Longrightarrow> pool_ok (backend (set_client i h s))"
  by (auto simp: pool_ok_def nth_list_update)

lemma routed_client:
  assumes "routed n s" "i < length (clients (backend s))"
  shows "\<exists>f. lifecycle (clients (backend s) ! i) n f" "serverId (clients (backend s) ! i) = int i" "int i < 2 ^ 31"
  using assms by (auto simp: routed_def pool_ok_def)

text \<open>Steps that put no command on a connection keep it.\<close>

lemma routed_fewer:
  assumes "routed n s" "i < length (clients (backend s))" "lifecycle h n f"
    "serverId h = serverId (clients (backend s) ! i)"
    "\<And>q cb. cb \<in> set (tags h q) \<Longrightarrow> cb \<in> set (tags (clients (backend s) ! i) q)"
  shows "routed n (set_client i h s)"
  using assms(1-4) unfolding routed_def
  by (auto simp: nth_list_update dest: assms(5) intro: pool_ok_set_client)

text \<open>A command for \<open>conn\<close> on server \<open>i\<close>, filed under the id it reports.\<close>

lemma routed_issue:
  assumes s: "routed n s" and i: "i < length (clients (backend s))"
    and c: "command rv (- 1) conn cmd (clients (backend s) ! i) = (ret, conId, sent, h)"
  shows "routed n ((set_client i h s)\<lparr>clientConns := map_set (uid (serverId (clients (backend s) ! i)) conId) conn (clientConns s)\<rparr>)"
proof -
  obtain f where l: "lifecycle (clients (backend s) ! i) n f" using routed_client(1) [OF s i] by blast
  note id = routed_client(2,3) [OF s i] and ct = command_tags [OF l c]
  have bound: "- 1 \<le> conId" "conId < 2 ^ 31"
    using ct s by (auto simp: routed_def split: option.splits)
  have h: "serverId h = int i" "\<exists>f. lifecycle h n f"
    using ct l id by (auto split: option.splits)
  have new: "cb = conn" if "q < n" "int q = conId" "cb \<in> set (tags h q)" for q cb
    using ct that by (auto split: option.splits if_splits)
  have old: "cb \<in> set (tags (clients (backend s) ! i) q)" if "q < n" "int q \<noteq> conId" "cb \<in> set (tags h q)" for q cb
    using ct that by (auto split: option.splits if_splits)
  have find: "map_find (uid (int j) (int q)) (map_set (uid (int i) conId) conn (clientConns s))
      = (if j = i \<and> int q = conId then Some conn else map_find (uid (int j) (int q)) (clientConns s))"
    if "j < length (clients (backend s))" "q < n" for j q
  proof -
    have "uid (int j) (int q) = uid (int i) conId \<longleftrightarrow> j = i \<and> int q = conId"
      using uid_inj [of "int i" conId "int j" "int q"] bound id(2) routed_client(3) [OF s that(1)] that(2) s
      by (auto simp: routed_def)
    then show ?thesis using s smap.find_set [of "clientConns s"] by (simp add: routed_def)
  qed
  show ?thesis
    using s i h id unfolding routed_def
    by (auto simp: nth_list_update find smap.ok_set dest: new old intro: pool_ok_set_client)
qed

lemma routed_frame:
  assumes "routed n s" "backend s' = backend s" "clientConns s' = clientConns s" "dispatcher s' = dispatcher s"
  shows "routed n s'"
  using assms by (simp add: routed_def)

lemma routed_in_loop:
  assumes "routed n s"
  shows "routed n (snd (setInLoop rvc conn m s))" "routed n (snd (queryInLoop rvc conn q s))"
proof -
  have i: "getHiredis k (backend s) < length (clients (backend s))" for k
    using assms by (simp add: routed_def getHiredis_bound)
  show "routed n (snd (setInLoop rvc conn m s))" "routed n (snd (queryInLoop rvc conn q s))"
    using routed_issue [OF assms i] by (simp_all add: setInLoop_def queryInLoop_def Let_def split: prod.splits)
qed

lemma routed_functor:
  assumes "call_functor rvc f s = Some (out, s')" "routed n s"
  shows "routed n s'"
proof -
  have "\<exists>conn m q. s' = snd (queryInLoop rvc conn q s) \<or> s' = snd (setInLoop rvc conn m s)"
    using assms(1) by (fastforce simp: call_functor_def split: loop_functor.splits option.splits msg.splits
        dest: arg_cong [of _ _ snd])
  with routed_in_loop [OF assms(2)] show ?thesis by auto
qed

lemma routed_functors: "call_functors rvc fs s = Some (out, s') \<Longrightarrow> routed n s \<Longrightarrow> routed n s'"
proof (induction fs arbitrary: s out)
  case (Cons f fs)
  then obtain out1 s1 out2 where "call_functor rvc f s = Some (out1, s1)" "call_functors rvc fs s1 = Some (out2, s')"
    by (auto split: Option.bind_splits)
  with Cons.IH Cons.prems(2) routed_functor show ?case by blast
qed simp

lemma routed_runInLoop: "runInLoop rvc b f s = Some (out, s') \<Longrightarrow> routed n s \<Longrightarrow> routed n s'"
  by (auto simp: runInLoop_def dest: routed_functor split: if_splits intro: routed_frame)

lemma routed_message:
  assumes "onMessage_of rvc b conn m s = Some (out, s')" "routed n s"
  shows "routed n s'"
proof -
  let ?s = "s\<lparr>vars := (vars s)(next_var s \<mapsto> m), next_var := Suc (next_var s)\<rparr>"
  have s: "routed n ?s" by (rule routed_frame [OF assms(2)]) simp_all
  obtain h out1 s1 where "(case h of OnUnknownMessage \<Rightarrow> Some ([], ?s)
      | OnQuery \<Rightarrow> onQuery rvc b conn (next_var s) ?s | OnSet \<Rightarrow> onSet rvc b conn (next_var s) ?s) = Some (out1, s1)"
    and s1: "s' = s1\<lparr>vars := (vars s1)(next_var s := None)\<rparr>"
    using assms(1) by (auto simp: onMessage_of_def Let_def simp del: fun_upd_apply split: Option.bind_splits)
  then have "s1 = ?s \<or> (\<exists>f out. runInLoop rvc b f ?s = Some (out, s1))"
    by (cases h) (auto simp: onQuery_def onSet_def)
  with s routed_runInLoop have "routed n s1" by blast
  then show ?thesis unfolding s1 by (rule routed_frame) simp_all
qed

lemma routed_step: "pstep W ops s out s' \<Longrightarrow> routed n s \<Longrightarrow> routed n s'"
proof (induction rule: pstep.induct)
  case (message rvc inLoopThread conn m s out s')
  then show ?case by (blast intro: routed_message)
next
  case (pending rvc s out s')
  have "routed n (s\<lparr>pendingFunctors := []\<rparr>)" by (rule routed_frame [OF pending.prems]) simp_all
  with pending.hyps show ?case by (auto simp: doPendingFunctors_def dest: routed_functors)
next
  case (reply i s p rp out s')
  obtain f where l: "lifecycle (clients (backend s) ! i) n f" using routed_client(1) [OF reply.prems reply.hyps(1)] by blast
  from reply.hyps(3) obtain cb u h where h: "commandCallback p (clients (backend s) ! i) = Some ((cb, u), h)"
    "s' = set_client i h s"
    by (auto simp: redis_reply_def split: Option.bind_splits)
  have "p < n" using l reply.hyps(2) by (simp add: lifecycle_def)
  note t = reply_tags [OF l this h(1)]
  show ?case unfolding h(2)
    by (rule routed_fewer [OF reply.prems reply.hyps(1)]) (use t in \<open>auto split: if_splits\<close>)
next
  case (lost i s p plan out s')
  obtain f where l: "lifecycle (clients (backend s) ! i) n f" using routed_client(1) [OF lost.prems lost.hyps(1)] by blast
  from lost.hyps(4) obtain calls us h where h: "library_calls plan p (clients (backend s) ! i) = Some (calls, us, h)"
    "s' = set_client i h s"
    by (auto simp: redis_lost_def split: Option.bind_splits)
  have "p < n" using l lost.hyps(2) by (simp add: lifecycle_def)
  note t = disconnect_tags [OF l this lost.hyps(3) h(1)]
  then obtain f' where "lifecycle h n f'" by blast
  then show ?case unfolding h(2)
    by (rule routed_fewer [OF lost.prems lost.hyps(1)]) (use t in auto)
next
  case (library i s e h')
  obtain f where "lifecycle (clients (backend s) ! i) n f" using routed_client(1) [OF library.prems library.hyps(1)] by blast
  then obtain f' where "lifecycle h' n f'" using hstep_lifecycle library.hyps(2) by blast
  then show ?case
    by (rule routed_fewer [OF library.prems library.hyps(1)])
      (use other_event_tags [OF library.hyps(2,3)] in auto)
qed

definition conf_ok :: "'n configure \<Rightarrow> bool" where
  "conf_ok conf \<longleftrightarrow> length (serverAddrs conf) < 2 ^ 31 \<and> nconn conf < 2 ^ 31"

text \<open>The connections each client ends up with.\<close>

definition conns_of :: "'n configure \<Rightarrow> nat" where
  "conns_of conf = (if preConnection conf then nat (nconn conf) else 0)"

lemma registered_two: "registerMessageCallback SetT OnSet (registerMessageCallback QueryT OnQuery (new_dispatcher OnUnknownMessage))
    = registered OnUnknownMessage [(QueryT, OnQuery), (SetT, OnSet)]"
  by (simp add: registered_def)

lemma routed_start:
  fixes s :: "('c, 'u) proxy"
  assumes "conf_ok conf" "new_proxy conf threads = Some s0" "start rac s0 = Some s"
  shows "routed (conns_of conf) s"
proof -
  from assms(2) obtain pool where pool: "HiredisPool conf = Some pool" and s0: "backend s0 = pool" "clientConns s0 = []"
    "dispatcher s0 = registered OnUnknownMessage [(QueryT, OnQuery), (SetT, OnSet)]"
    by (auto simp: new_proxy_def Let_def registered_two split: Option.bind_splits)
  have pre: "conf_preConnect pool = preConnection conf"
    using pool by (auto simp: HiredisPool_def preConnect_def Let_def)
  have ne: "getServerAddrs conf \<noteq> []" using pool by (auto simp: HiredisPool_def)
  from HiredisPool_ok [OF ne, where 'cb = 'c] pool assms(1) have ok: "pool_ok pool"
    "fresh_clients (serverAddrs conf) (nconn conf) 0 (clients pool)"
    by (auto simp: conf_ok_def getServerAddrs_def getPerServerConnNum_def)
  then have new: "clients pool ! i = setServerId (int i) (new_hiredis (serverAddrs conf ! i) (nconn conf))"
    if "i < length (clients pool)" for i
    using that by (simp add: fresh_clients_def)
  have fresh: "lifecycle (setServerId sid (new_hiredis a k) :: 'c hiredis) 0 (\<lambda>p. Inactive)" for sid a k
    by (simp add: lifecycle_def setServerId_def new_hiredis_def conns_in_def smap.represents_def)
  show ?thesis
  proof (cases "conf_preConnect pool")
    case False
    with assms(3) s0 have s: "backend s = pool" "clientConns s = []" "dispatcher s = dispatcher s0"
      by (auto simp: start_def pool_connect_def)
    have "\<exists>f. lifecycle (clients (backend s) ! i) 0 f" if "i < length (clients (backend s))" for i
      using new [of i] fresh that s(1) by auto
    with ok(1) s s0 have "routed 0 s" by (auto simp: routed_def)
    with False pre show ?thesis by (simp add: conns_of_def)
  next
    case True
    obtain hs where hs: "connect_clients rac 0 (clients pool) = Some hs" "length hs = length (clients pool)"
      "\<forall>i<length (clients pool). connect (rac (0 + i)) (clients pool ! i) = Some (hs ! i) \<and> serverId (hs ! i) = int (0 + i)"
      using connect_clients_ok [OF ok(2), of rac] by blast
    have l: "lifecycle (hs ! i) (nat (nconn conf)) (\<lambda>p. Inactive)" if i: "i < length (clients pool)" for i
    proof -
      obtain h1 :: "'c hiredis" where
        "connect (rac i) (setServerId (int i) (new_hiredis (serverAddrs conf ! i) (nconn conf))) = Some h1"
        "lifecycle h1 (nat (nconn conf)) (\<lambda>p. Inactive)" using connect_ok by blast
      with hs(3) new [OF i] i show ?thesis by auto
    qed
    from True hs(1) assms(3) s0 have s: "clients (backend s) = hs" "poolSize (backend s) = poolSize pool"
      "clientConns s = []" "dispatcher s = dispatcher s0"
      by (auto simp: start_def pool_connect_def)
    have "tags (hs ! i) p = []" if "i < length (clients pool)" "p < nat (nconn conf)" for i p
      using l [OF that(1)] that(2) by (simp add: lifecycle_def tags_def)
    moreover have "nat (nconn conf) < 2 ^ 31" using assms(1) by (auto simp: conf_ok_def nat_less_iff)
    moreover have "\<exists>f. lifecycle (clients (backend s) ! i) (nat (nconn conf)) f" if "i < length (clients (backend s))" for i
      using l that hs(2) s(1) by auto
    ultimately have "routed (nat (nconn conf)) s"
      using ok(1) hs(2,3) s s0(3) unfolding routed_def by (auto simp: pool_ok_def)
    with True pre show ?thesis by (simp add: conns_of_def)
  qed
qed

lemma preach_routed: "preach W ops conf s \<Longrightarrow> conf_ok conf \<Longrightarrow> routed (conns_of conf) s"
proof (induction rule: preach.induct)
  case (started threads s0 rac s)
  then show ?case using routed_start by blast
next
  case (step s out s')
  then show ?case using routed_step by blast
qed

end
