(* ===== verification/ProxyProperties.thy ===== *)
theory ProxyProperties
  imports ProxyRouting
begin

text \<open>
  What the routing invariant means for the clients of the proxy, the behaviour of a request on each
  path, the text of replies, and a run on which the hypotheses hold.
\<close>

section \<open>Properties\<close>

text \<open>C1: Replies reach the requester: in every reachable state, whatever was interleaved between a command
  and its reply, the text of a reply on a redis connection is sent to the client whose request is
  pending on that connection, and to nobody else; the client is then shut down and the connection
  has no pending command any more.\<close>
theorem replies_reach_requester:
  assumes "preach W ops conf s" "conf_ok conf" "i < length (clients (backend s))"
    "p < length (scons (clients (backend s) ! i))" "redis_reply W ops i p rp s = Some (out, s')"
  shows "\<exists>conn text bytes. tags (clients (backend s) ! i) p = [conn] \<and> redisReplyToString rp = Some text
    \<and> send ops (ReplyMsg ((Reply_new W)\<lparr>reply_text := text\<rparr>)) = Some bytes
    \<and> out = [ToClient conn bytes, Shutdown conn] \<and> tags (clients (backend s') ! i) p = []"
proof -
  have s: "routed (conns_of conf) s" by (rule preach_routed [OF assms(1,2)])
  obtain f where l: "lifecycle (clients (backend s) ! i) (conns_of conf) f" using routed_client(1) [OF s assms(3)] by blast
  then have p: "p < conns_of conf" using assms(4) by (simp add: lifecycle_def)
  obtain cb u h where h: "commandCallback p (clients (backend s) ! i) = Some ((cb, u), h)"
    "proxy_commandCallback W ops rp (sint u) s = Some out" "s' = set_client i h s"
    using assms(5) by (auto simp: redis_reply_def split: Option.bind_splits)
  note t = reply_tags [OF l p h(1)]
  have "map_find (sint u) (clientConns s) = Some cb"
    using t s p routed_client(2) [OF s assms(3)] assms(3) unfolding routed_def by simp
  with h(2) t assms(3) show ?thesis
    by (auto simp: proxy_commandCallback_def Let_def h(3) split: Option.bind_splits)
qed

text \<open>C2: A reply is delivered: when a request of \<open>conn\<close> is pending on a redis connection and the reply's
  text is valid UTF-8 and not too long, processing the reply succeeds, and the bytes sent to \<open>conn\<close>
  decode, in the client's codec, to exactly one \<open>Reply\<close> with that text.\<close>
theorem reply_delivered:
  assumes "preach W ops conf s" "conf_ok conf" "i < length (clients (backend s))"
    "p < length (scons (clients (backend s) ! i))" "tags (clients (backend s) ! i) p = [conn]"
    "redisReplyToString rp = Some text" "wire_laws W" "protobuf_laws W ops" "text_ok W text"
    "msg_ByteSizeLong W (ReplyMsg ((Reply_new W)\<lparr>reply_text := text\<rparr>)) \<le> 60000000"
  shows "\<exists>bytes s' b. redis_reply W ops i p rp s = Some ([ToClient conn bytes, Shutdown conn], s')
    \<and> receive ops [bytes] new_buffer = Some ([messageCallback (ReplyMsg ((Reply_new W)\<lparr>reply_text := text\<rparr>))], b)
    \<and> content b = []"
proof -
  let ?m = "ReplyMsg ((Reply_new W)\<lparr>reply_text := text\<rparr>)"
  have s: "routed (conns_of conf) s" by (rule preach_routed [OF assms(1,2)])
  obtain f where l: "lifecycle (clients (backend s) ! i) (conns_of conf) f" using routed_client(1) [OF s assms(3)] by blast
  then have p: "p < conns_of conf" using assms(4) by (simp add: lifecycle_def)
  have "msg_ok W ?m" using assms(7,9) by (simp add: Reply_ok_def Reply_new_def)
  then have ok: "message_ok ops ?m" using generated_message_ok assms(8,10) by blast
  obtain u h where h: "commandCallback p (clients (backend s) ! i) = Some ((conn, u), h)"
    using reply_refines [OF l p, of conn] assms(5) by (auto simp: tags_def)
  have "map_find (sint u) (clientConns s) = Some conn"
    using reply_tags [OF l p h] s p routed_client(2) [OF s assms(3)] assms(3) unfolding routed_def by simp
  with h send_ok [OF ok] assms(6)
  have r: "redis_reply W ops i p rp s = Some ([ToClient conn (pb_enc ops ?m), Shutdown conn], set_client i h s)"
    by (simp add: redis_reply_def proxy_commandCallback_def Let_def)
  have "feed (pb_dec ops) [pb_enc ops ?m] [] = (map Inl [?m], [])"
    using pb.delivery_clean [of ops "[?m]" "[pb_enc ops ?m]"] ok by simp
  with receive_feed [OF new_buffer_ok(1), of ops "[pb_enc ops ?m]"] r show ?thesis
    by (auto simp: new_buffer_ok(2) simp del: feed.simps receive.simps)
qed

text \<open>The key and the command of a request.\<close>

primrec request_of :: "'u msg \<Rightarrow> (byte list \<times> byte list) option" where
  "request_of (QueryMsg q) = Some (query_key q, ascii ''get '' @ query_key q)"
| "request_of (SetMsg m) = Some (set_key m, ascii ''set '' @ set_key m @ ascii '' '' @ set_value m)"
| "request_of (ReplyMsg m) = None"
| "request_of (EmptyMsg m) = None"

definition issue :: "(nat \<Rightarrow> nat \<Rightarrow> byte list \<Rightarrow> int) \<Rightarrow> 'c \<Rightarrow> byte list \<Rightarrow> byte list \<Rightarrow> ('c, 'u) proxy
    \<Rightarrow> 'c effect list \<times> ('c, 'u) proxy" where
  "issue rvc conn key cmd s =
     (let i = getHiredis key (backend s);
          redis = clients (backend s) ! i;
          (ret, conId, sent, h) = command (rvc i) (- 1) conn (c_str cmd) redis
      in (case sent of None \<Rightarrow> [] | Some (p, cmd) \<Rightarrow> [ToRedis i p cmd],
          (set_client i h s)\<lparr>clientConns := map_set (uid (serverId redis) conId) conn (clientConns s)\<rparr>))"

lemma in_loop_issue:
  "queryInLoop rvc conn q s = issue rvc conn (query_key q) (ascii ''get '' @ query_key q) s"
  "setInLoop rvc conn m s = issue rvc conn (set_key m) (ascii ''set '' @ set_key m @ ascii '' '' @ set_value m) s"
  by (simp_all add: queryInLoop_def setInLoop_def issue_def Let_def split: prod.splits)

lemma issue_vars: "vars (snd (issue rvc conn key cmd s)) = vars s" "next_var (snd (issue rvc conn key cmd s)) = next_var s"
  "pendingFunctors (snd (issue rvc conn key cmd s)) = pendingFunctors s"
  by (simp_all add: issue_def Let_def split: prod.splits)

lemma registered_handlers: "onProtobufMessage GetDescriptor (registered OnUnknownMessage [(QueryT, OnQuery), (SetT, OnSet)]) m
      = Some (case m of QueryMsg q \<Rightarrow> OnQuery | SetMsg q \<Rightarrow> OnSet | ReplyMsg q \<Rightarrow> OnUnknownMessage | EmptyMsg q \<Rightarrow> OnUnknownMessage)"
  using registered_represents [of OnUnknownMessage "[(QueryT, OnQuery), (SetT, OnSet)]"]
  by (cases m) (auto simp: onProtobufMessage_def smap.represents_def CallbackT_onMessage_def)

lemma handlers: "dispatcher s = registered OnUnknownMessage [(QueryT, OnQuery), (SetT, OnSet)] \<Longrightarrow>
    onProtobufMessage GetDescriptor (dispatcher s) m
      = Some (case m of QueryMsg q \<Rightarrow> OnQuery | SetMsg q \<Rightarrow> OnSet | ReplyMsg q \<Rightarrow> OnUnknownMessage | EmptyMsg q \<Rightarrow> OnUnknownMessage)"
  by (simp add: registered_handlers)

lemma onMessage_in_loop:
  assumes "dispatcher s = registered OnUnknownMessage [(QueryT, OnQuery), (SetT, OnSet)]"
  shows "\<exists>s'. onMessage_of rvc True conn m s
      = Some (case request_of m of None \<Rightarrow> [] | Some (key, cmd) \<Rightarrow> fst (issue rvc conn key cmd s), s')
    \<and> backend s' = (case request_of m of None \<Rightarrow> backend s | Some (key, cmd) \<Rightarrow> backend (snd (issue rvc conn key cmd s)))
    \<and> clientConns s' = (case request_of m of None \<Rightarrow> clientConns s | Some (key, cmd) \<Rightarrow> clientConns (snd (issue rvc conn key cmd s)))"
proof -
  let ?s = "s\<lparr>vars := (vars s)(next_var s \<mapsto> m), next_var := next_var s + 1\<rparr>"
  have "fst (issue rvc conn key cmd ?s) = fst (issue rvc conn key cmd s)"
    "backend (snd (issue rvc conn key cmd ?s)) = backend (snd (issue rvc conn key cmd s))"
    "clientConns (snd (issue rvc conn key cmd ?s)) = clientConns (snd (issue rvc conn key cmd s))" for key cmd
    by (simp_all add: issue_def set_client_def Let_def split: prod.splits)
  then show ?thesis
    by (cases m) (simp_all add: onMessage_of_def handlers [OF assms] onQuery_def onSet_def runInLoop_def call_functor_def
        in_loop_issue Let_def split_def)
qed

lemma issue_effect:
  fixes key :: "byte list"
  assumes "routed n s"
  defines "i \<equiv> getHiredis key (backend s)"
  shows "case map_begin (activeFreeConns (clients (backend s) ! i)) of
      None \<Rightarrow> fst (issue rvc conn key cmd s) = [] \<and> clients (backend (snd (issue rvc conn key cmd s))) = clients (backend s)
    | Some (k, p) \<Rightarrow> fst (issue rvc conn key cmd s) = [ToRedis i p (c_str cmd)]
        \<and> (rvc i p (c_str cmd) = REDIS_OK \<longrightarrow> tags (clients (backend (snd (issue rvc conn key cmd s))) ! i) p = [conn])"
proof -
  have i: "i < length (clients (backend s))" using assms by (simp add: routed_def getHiredis_bound)
  obtain f where l: "lifecycle (clients (backend s) ! i) n f" using routed_client(1) [OF assms(1) i] by blast
  obtain ret conId sent h where c: "command (rvc i) (- 1) conn (c_str cmd) (clients (backend s) ! i) = (ret, conId, sent, h)"
    by (metis prod_cases4)
  note ct = command_tags [OF l c] and cr = command_refines [OF l c]
  show ?thesis
  proof (cases "map_begin (activeFreeConns (clients (backend s) ! i))")
    case None
    then have "sent = None" using c by (auto simp: command_def split: if_splits)
    with c ct i None show ?thesis by (simp add: issue_def Let_def flip: i_def)
  next
    case (Some kp)
    then have "connected (clients (backend s) ! i)"
      by (auto simp: connected_def map_begin_def split: list.splits)
    with Some c have "sent = Some (snd kp, c_str cmd)"
      by (auto simp: command_def Let_def split: if_splits prod.splits)
    with c ct cr i Some show ?thesis by (auto simp: issue_def Let_def simp flip: i_def)
  qed
qed

text \<open>C9: A request received in the thread of the loop puts its command, cut at the first NUL, on the free
  connection with the least id of the server its key selects, and when the library accepts it the client
  is the one waiting there; when that server has no free connection nothing is sent and no connection
  will answer the client. Other messages are ignored.\<close>
theorem request_is_forwarded:
  assumes "preach W ops conf s" "conf_ok conf"
  shows "\<exists>out s'. onMessage_of rvc True conn m s = Some (out, s') \<and>
    (case request_of m of
       None \<Rightarrow> out = [] \<and> backend s' = backend s \<and> clientConns s' = clientConns s
     | Some (key, cmd) \<Rightarrow>
         let i = getHiredis key (backend s)
         in (case map_begin (activeFreeConns (clients (backend s) ! i)) of
               None \<Rightarrow> out = [] \<and> clients (backend s') = clients (backend s)
             | Some (k, p) \<Rightarrow> out = [ToRedis i p (c_str cmd)]
                 \<and> (rvc i p (c_str cmd) = REDIS_OK \<longrightarrow> tags (clients (backend s') ! i) p = [conn])))"
proof -
  have s: "routed (conns_of conf) s" by (rule preach_routed [OF assms])
  then have d: "dispatcher s = registered OnUnknownMessage [(QueryT, OnQuery), (SetT, OnSet)]"
    by (simp add: routed_def)
  obtain s' where s': "onMessage_of rvc True conn m s
      = Some (case request_of m of None \<Rightarrow> [] | Some (key, cmd) \<Rightarrow> fst (issue rvc conn key cmd s), s')"
    "backend s' = (case request_of m of None \<Rightarrow> backend s | Some (key, cmd) \<Rightarrow> backend (snd (issue rvc conn key cmd s)))"
    "clientConns s' = (case request_of m of None \<Rightarrow> clientConns s | Some (key, cmd) \<Rightarrow> clientConns (snd (issue rvc conn key cmd s)))"
    using onMessage_in_loop [OF d, of rvc conn m] by blast
  show ?thesis
  proof (cases "request_of m")
    case None
    with s' show ?thesis by simp
  next
    case (Some kc)
    obtain key cmd where kc: "kc = (key, cmd)" by fastforce
    with Some s' issue_effect [OF s, where key = key and rvc = rvc and conn = conn and cmd = cmd] show ?thesis
      by (auto simp: Let_def split: option.splits)
  qed
qed

lemma call_functor_vars: "call_functor rvc f s = Some (out, s') \<Longrightarrow> vars s' = vars s"
  using issue_vars(1) by (auto simp: call_functor_def in_loop_issue split: loop_functor.splits option.splits msg.splits
      dest!: arg_cong [of "issue rvc conn key cmd s" "(out, s')" snd for conn key cmd])

lemma dead_functor: "call_functor rvc f s = None \<Longrightarrow> vars t = vars s \<Longrightarrow> call_functor rvc f t = None"
  by (auto simp: call_functor_def split: loop_functor.splits option.splits msg.splits)

lemma call_functors_dead: "f \<in> set fs \<Longrightarrow> call_functor rvc f s = None \<Longrightarrow> call_functors rvc fs s = None"
proof (induction fs arbitrary: s)
  case (Cons g fs)
  show ?case
  proof (cases "call_functor rvc g s")
    case (Some os)
    then obtain out t where g: "call_functor rvc g s = Some (out, t)" by (cases os) auto
    with Cons.prems have "f \<in> set fs" by auto
    moreover have "call_functor rvc f t = None"
      using dead_functor [OF Cons.prems(2) call_functor_vars [OF g]] .
    ultimately show ?thesis using Cons.IH g by simp
  qed simp
qed simp

text \<open>C13: A request received in another thread than the loop's is queued with a reference to a variable
  of the callback that has returned: running the pending functors then follows a dangling reference.\<close>
theorem queued_request_dangles:
  assumes "preach W ops conf s" "conf_ok conf" "request_of m \<noteq> None" "onMessage_of rvc False conn m s = Some (out, s')"
  shows "out = [] \<and> doPendingFunctors rvc' s' = None"
proof -
  have d: "dispatcher s = registered OnUnknownMessage [(QueryT, OnQuery), (SetT, OnSet)]"
    using preach_routed [OF assms(1,2)] by (simp add: routed_def)
  have "\<exists>f. pendingFunctors s' = pendingFunctors s @ [f] \<and> vars s' (next_var s) = None
      \<and> (f = QueryInLoop conn (next_var s) \<or> f = SetInLoop conn (next_var s))" "out = []"
    using assms(3,4)
    by (cases m; auto simp: onMessage_of_def handlers [OF d] onQuery_def onSet_def runInLoop_def Let_def)+
  then obtain f where f: "pendingFunctors s' = pendingFunctors s @ [f]" "out = []" "vars s' (next_var s) = None"
    "f = QueryInLoop conn (next_var s) \<or> f = SetInLoop conn (next_var s)"
    by blast
  from f(3,4) have "call_functor rvc' f (s'\<lparr>pendingFunctors := []\<rparr>) = None"
    by (auto simp: call_functor_def)
  then have "call_functors rvc' (pendingFunctors s') (s'\<lparr>pendingFunctors := []\<rparr>) = None"
    by (rule call_functors_dead [rotated]) (simp add: f)
  with f(2) show ?thesis by (simp add: doPendingFunctors_def)
qed

lemma no_connections:
  assumes "routed 0 s"
  shows "fst (issue rvc conn key cmd s) = []"
proof -
  have i: "getHiredis key (backend s) < length (clients (backend s))" using assms by (simp add: routed_def getHiredis_bound)
  then obtain f where "lifecycle (clients (backend s) ! getHiredis key (backend s)) 0 f"
    using routed_client(1) [OF assms i] by blast
  then have "map_begin (activeFreeConns (clients (backend s) ! getHiredis key (backend s))) = None"
    using smap.represents_none conns_in_empty [of 0 f Free] unfolding lifecycle_def by (metis not_less_zero)
  with issue_effect [OF assms, where key = key and rvc = rvc and conn = conn and cmd = cmd] show ?thesis by simp
qed

lemma no_connections_functors: "call_functors rvc fs s = Some (out, s') \<Longrightarrow> routed 0 s \<Longrightarrow> out = []"
proof (induction fs arbitrary: s out)
  case (Cons f fs)
  then obtain out1 s1 out2 where f: "call_functor rvc f s = Some (out1, s1)" "call_functors rvc fs s1 = Some (out2, s')"
    "out = out1 @ out2"
    by (auto split: Option.bind_splits)
  have "out1 = []"
    using f(1) no_connections [OF Cons.prems(2)]
    by (auto simp: call_functor_def in_loop_issue split: loop_functor.splits option.splits msg.splits
        dest!: arg_cong [of "issue rvc conn key cmd s" "(out, s')" fst for conn key cmd out s'])
  with f Cons.IH routed_functor [OF f(1) Cons.prems(2)] show ?case by simp
qed simp

text \<open>C14: With \<open>preconnection: false\<close> the server never sends a command to redis and never answers a client,
  whatever it receives: nothing but the preconnection ever connects the pool.\<close>
theorem no_preconnection_no_service:
  assumes "preach W ops conf s" "conf_ok conf" "\<not> preConnection conf" "pstep W ops s out s'"
  shows "out = []"
proof -
  have s: "routed 0 s" using preach_routed [OF assms(1,2)] assms(3) by (simp add: conns_of_def)
  then have d: "dispatcher s = registered OnUnknownMessage [(QueryT, OnQuery), (SetT, OnSet)]"
    by (simp add: routed_def)
  have none: "length (scons (clients (backend s) ! i)) = 0" if "i < length (clients (backend s))" for i
    using routed_client(1) [OF s that] by (auto simp: lifecycle_def)
  show ?thesis
    using assms(4)
  proof (cases rule: pstep.cases)
    case (message rvc inLoopThread conn m)
    show ?thesis
    proof (cases inLoopThread)
      case True
      with message onMessage_in_loop [OF d, of rvc conn m] no_connections [OF s] show ?thesis
        by (auto split: option.splits prod.splits)
    next
      case False
      with message show ?thesis
        by (cases m) (auto simp: onMessage_of_def handlers [OF d] onQuery_def onSet_def runInLoop_def Let_def)
    qed
  next
    case (pending rvc)
    have "routed 0 (s\<lparr>pendingFunctors := []\<rparr>)" by (rule routed_frame [OF s]) simp_all
    with pending no_connections_functors show ?thesis by (auto simp: doPendingFunctors_def)
  qed (use none in auto)
qed

fun known_reply :: "redisReply \<Rightarrow> bool" where
  "known_reply (RedisReply ty n s es) \<longleftrightarrow> 0 \<le> ty \<and> ty \<le> 6 \<and> (ty = REDIS_REPLY_ARRAY \<longrightarrow> list_all known_reply es)"

lemma those_map: "those (map f xs) \<noteq> None \<longleftrightarrow> (\<forall>x\<in>set xs. f x \<noteq> None)"
  by (induction xs) (auto split: option.splits)

text \<open>A reply is turned into text exactly when the type of every reply in it is in the table of names;
  any other type, such as the ones the later protocol added, is an access outside the table.\<close>
theorem reply_text_defined: "reply_string r \<noteq> None \<longleftrightarrow> known_reply r"
proof (induction r rule: reply_string.induct)
  case (1 ty n s es)
  have len: "length types = 7" by (simp add: types_def)
  note types = REDIS_REPLY_ARRAY_def REDIS_REPLY_STRING_def REDIS_REPLY_STATUS_def REDIS_REPLY_ERROR_def
    REDIS_REPLY_INTEGER_def
  have IH: "reply_string x \<noteq> None \<longleftrightarrow> known_reply x" if "x \<in> set es" "0 \<le> ty" "ty < 7" "ty = REDIS_REPLY_ARRAY" for x
    by (rule 1) (use that in \<open>simp_all add: len types Let_def\<close>)
  have "those (map reply_string es) \<noteq> None \<longleftrightarrow> list_all known_reply es"
    if "0 \<le> ty" "ty < 7" "ty = REDIS_REPLY_ARRAY"
    unfolding those_map list_all_iff using IH that by blast
  then show ?case
    by (auto simp: len Let_def REDIS_REPLY_ARRAY_def REDIS_REPLY_STRING_def REDIS_REPLY_STATUS_def
        REDIS_REPLY_ERROR_def REDIS_REPLY_INTEGER_def split: option.splits)
qed

text \<open>The 32 bytes of \<open>toString\<close> are enough for every 64-bit value, signed or unsigned: the text has at
  most 20 characters, nothing is cut, and its digits read back as the value.\<close>
theorem toString_exact:
  assumes "- (2 ^ 63) \<le> v" "v < 2 ^ 64"
  shows "length (toString v) \<le> 20
    \<and> (0 \<le> v \<longrightarrow> number_of (toString v) = nat v)
    \<and> (v < 0 \<longrightarrow> hd (toString v) = 45 \<and> number_of (tl (toString v)) = nat (- v))"
proof (cases "v < 0")
  case True
  with assms have "nat (- v) < 10 ^ 19" by (simp add: nat_less_iff)
  from length_digits [OF this] have l: "length (digits (nat (- v))) \<le> 19" by simp
  then have "toString v = 45 # digits (nat (- v))" using True by (simp add: toString_def)
  with l True show ?thesis by (simp add: number_of_digits)
next
  case False
  with assms have "nat v < 10 ^ 20" by (simp add: nat_less_iff)
  from length_digits [OF this] have l: "length (digits (nat v)) \<le> 20" by simp
  then have "toString v = digits (nat v)" using False by (simp add: toString_def)
  with l False show ?thesis by (simp add: number_of_digits)
qed

section \<open>A run\<close>

text \<open>
  One server with one connection; client 7 asks for a key on the thread of the loop and redis
  answers nil.
\<close>

definition conf1 :: "unit configure" where
  "conf1 = \<lparr>root = (), logLevel = 1, preConnection = True, nconn = 1, listenAddr = \<lparr>ip = any_address, port = LISTEN_PORT\<rparr>,
     serverAddrs = [\<lparr>ip = any_address, port = 6379\<rparr>]\<rparr>"

definition redis1 :: "(int, nat) std_map \<Rightarrow> (int, nat) std_map \<Rightarrow> (int, nat) std_map \<Rightarrow> nat list \<Rightarrow> bool \<Rightarrow> nat hiredis" where
  "redis1 inactive idle busy cbs open_chan = \<lparr>serverId = 0, serverAddr = \<lparr>ip = any_address, port = 6379\<rparr>, context_ptr = None, nconns = 1, inactiveConns = inactive,
     activeFreeConns = idle, activeBusyConn = busy,
     scons = [\<lparr>connId = 0, ctx = \<lparr>c_fd = 10, c_peer = \<lparr>ip = any_address, port = 6379\<rparr>,
         c_connected = (inactive = []), c_callbacks = cbs\<rparr>,
       chan = (if open_chan then Some \<lparr>ch_fd = 10, ch_reading = False, ch_writing = False\<rparr> else None)\<rparr>],
     connectCb = False, disconnectCb = False\<rparr>"

definition world :: "nat \<Rightarrow> nat hiredis \<Rightarrow> (int, nat) std_map \<Rightarrow> (nat, byte list) proxy" where
  "world n h conns = \<lparr>numThreads = 0, clientConns = conns,
     backend = \<lparr>conf_preConnect = True, poolSize = 1, clients = [h]\<rparr>,
     dispatcher = registered OnUnknownMessage [(QueryT, OnQuery), (SetT, OnSet)],
     pendingFunctors = [], vars = (\<lambda>v. None), next_var = n\<rparr>"

definition asked :: "byte list msg" where
  "asked = QueryMsg \<lparr>query_key = [107], question = [], query_unknown = []\<rparr>"

abbreviation W1 :: "byte list wire" where "W1 \<equiv> varint_wire"

lemma conf1_ok: "conf_ok conf1"
  by (simp add: conf_ok_def conf1_def)

lemma reach_started: "preach W ops conf1 (world 0 (redis1 [(0, 0)] [] [] [] True) [])"
proof (rule preach.started)
  let ?h = "setServerId 0 (new_hiredis \<lparr>ip = any_address, port = 6379\<rparr> 1) :: nat hiredis"
  show "new_proxy conf1 0 = Some (world 0 ?h [])"
    by (simp add: new_proxy_def HiredisPool_def getServerAddrs_def getPerServerConnNum_def preConnect_def conf1_def
        registered_two world_def Let_def)
  show "start (\<lambda>i a k. 10) (world 0 ?h []) = Some (world 0 (redis1 [(0, 0)] [] [] [] True) [])"
    by (simp add: start_def pool_connect_def connect_def connect_one_def setChannel_def upd_scon_def new_hiredis_def
        setServerId_def world_def redis1_def)
qed

lemma reach_idle: "preach W ops conf1 (world 0 (redis1 [] [(0, 0)] [] [] True) [])"
proof -
  have set: "set_client 0 h (world 0 g []) = world 0 h []" for g h by (simp add: set_client_def world_def)
  have cl: "clients (backend (world 0 g [])) ! 0 = g" "length (clients (backend (world 0 g []))) = 1" for g
    by (simp_all add: world_def)
  have "hstep (redis1 [(0, 0)] [] [] [] True) (Writable 0) (redis1 [(0, 0)] [] [] [] False)"
    by (rule hstep.writable) (simp_all add: redis1_def handleWrite_def removeChannel_def upd_scon_def)
  then have "pstep W ops (world 0 (redis1 [(0, 0)] [] [] [] True) []) [] (set_client 0 (redis1 [(0, 0)] [] [] [] False)
      (world 0 (redis1 [(0, 0)] [] [] [] True) []))"
    by (intro pstep.library [where e = "Writable 0"]) (simp_all add: cl)
  from preach.step [OF reach_started this] have w: "preach W ops conf1 (world 0 (redis1 [(0, 0)] [] [] [] False) [])"
    by (simp add: set)
  have "hstep (redis1 [(0, 0)] [] [] [] False) (Connected 0 0) (redis1 [] [(0, 0)] [] [] True)"
    by (rule hstep.connected [where us = "[]"])
      (simp_all add: redis1_def userConnectCallback_def mark_connected_def REDIS_OK_def map_find_def map_erase_def setChannel_def upd_scon_def)
  then have "pstep W ops (world 0 (redis1 [(0, 0)] [] [] [] False) []) [] (set_client 0 (redis1 [] [(0, 0)] [] [] True)
      (world 0 (redis1 [(0, 0)] [] [] [] False) []))"
    by (intro pstep.library [where e = "Connected 0 0"]) (simp_all add: cl)
  from preach.step [OF w this] show ?thesis by (simp add: set)
qed

lemma uid_zero: "uid 0 0 = 0" "genUniqueConId 0 0 = 0"
  by (simp_all add: uid_def genUniqueConId_def)

lemma ask: "onMessage_of (\<lambda>i p c. REDIS_OK) True 7 asked (world 0 (redis1 [] [(0, 0)] [] [] True) [])
    = Some ([ToRedis 0 0 (c_str (ascii ''get '' @ [107]))], world 1 (redis1 [] [] [(0, 0)] [7] True) [(0, 7)])"
  by (subst onMessage_of_def)
    (simp add: registered_handlers world_def asked_def onQuery_def runInLoop_def call_functor_def queryInLoop_def
      getHiredis_def redis1_def command_def connected_def map_begin_def map_erase_def upd_scon_def set_client_def
      REDIS_OK_def uid_zero Let_def)

lemma reach_asked: "preach W ops conf1 (world 1 (redis1 [] [] [(0, 0)] [7] True) [(0, 7)])"
  using preach.step [OF reach_idle pstep.message [OF ask]] .

definition nil_reply :: redisReply where "nil_reply = RedisReply REDIS_REPLY_NIL 0 [] []"

definition nil_text :: "byte list" where "nil_text = ascii ''REDIS_REPLY_NIL(4) {  }''"

lemma nil_reply_text: "redisReplyToString (Some nil_reply) = Some nil_text"
  by (simp add: redisReplyToString_def nil_reply_def nil_text_def types_def REDIS_REPLY_NIL_def REDIS_REPLY_STRING_def
      REDIS_REPLY_STATUS_def REDIS_REPLY_ERROR_def REDIS_REPLY_INTEGER_def REDIS_REPLY_ARRAY_def toString_def
      digits.simps ascii_def Let_def)

lemma nil_text_ok: "text_ok W1 nil_text" "length nil_text = 23"
  by (simp_all add: text_ok_def varint_wire_def nil_text_def ascii_def)

lemma nil_size: "msg_ByteSizeLong W1 (ReplyMsg ((Reply_new W1)\<lparr>reply_text := nil_text\<rparr>)) \<le> 60000000"
  using nil_text_ok(2) by (auto simp: Reply_ByteSizeLong_def Reply_new_def varint_wire_def varint.simps Let_def)

lemma answered: "\<exists>bytes s'. redis_reply W1 (generated_ops W1) 0 0 (Some nil_reply)
    (world 1 (redis1 [] [] [(0, 0)] [7] True) [(0, 7)]) = Some ([ToClient 7 bytes, Shutdown 7], s')"
proof -
  let ?m = "ReplyMsg ((Reply_new W1)\<lparr>reply_text := nil_text\<rparr>)"
  have "msg_ok W1 ?m" using nil_text_ok(1) by (simp add: Reply_ok_def Reply_new_def varint_laws)
  then have "send (generated_ops W1) ?m = Some (pb_enc (generated_ops W1) ?m)"
    by (intro send_ok generated_message_ok [OF generated_laws _ nil_size])
  moreover have "commandCallback 0 (redis1 [] [] [(0, 0)] [7] True) = Some ((7, 0), redis1 [] [(0, 0)] [] [] True)"
    by (simp add: commandCallback_def redis1_def upd_scon_def map_find_def map_erase_def uid_zero)
  ultimately show ?thesis
    by (simp add: redis_reply_def proxy_commandCallback_def nil_reply_text world_def map_find_def Let_def)
qed

theorem replies_reach_requester_witness:
  "\<exists>bytes s'. redis_reply W1 (generated_ops W1) 0 0 (Some nil_reply)
      (world 1 (redis1 [] [] [(0, 0)] [7] True) [(0, 7)]) = Some ([ToClient 7 bytes, Shutdown 7], s')
    \<and> tags (clients (backend s') ! 0) 0 = []"
proof -
  obtain bytes s' where r: "redis_reply W1 (generated_ops W1) 0 0 (Some nil_reply)
    (world 1 (redis1 [] [] [(0, 0)] [7] True) [(0, 7)]) = Some ([ToClient 7 bytes, Shutdown 7], s')"
    using answered by blast
  have "0 < length (clients (backend (world 1 (redis1 [] [] [(0, 0)] [7] True) [(0, 7)])))"
    "0 < length (scons (clients (backend (world 1 (redis1 [] [] [(0, 0)] [7] True) [(0, 7)])) ! 0))"
    by (simp_all add: world_def redis1_def)
  from replies_reach_requester [OF reach_asked conf1_ok this r] r show ?thesis by blast
qed

theorem reply_delivered_witness:
  "\<exists>bytes b. receive (generated_ops W1) [bytes] new_buffer
     = Some ([messageCallback (ReplyMsg ((Reply_new W1)\<lparr>reply_text := nil_text\<rparr>))], b)"
  using reply_delivered [OF reach_asked conf1_ok _ _ _ nil_reply_text varint_laws generated_laws nil_text_ok(1) nil_size,
      where i = 0 and p = 0 and conn = 7]
  by (auto simp: world_def redis1_def tags_def)

theorem request_is_forwarded_witness:
  "\<exists>out s'. onMessage_of (\<lambda>i p c. REDIS_OK) True 9 asked (world 0 (redis1 [] [(0, 0)] [] [] True) []) = Some (out, s')
    \<and> out = [ToRedis 0 0 (c_str (ascii ''get '' @ [107]))] \<and> tags (clients (backend s') ! 0) 0 = [9]"
  using request_is_forwarded [OF reach_idle conf1_ok, where rvc = "\<lambda>i p c. REDIS_OK" and conn = 9 and m = asked]
  by (auto simp: asked_def world_def redis1_def getHiredis_def map_begin_def Let_def)

theorem queued_request_dangles_witness:
  "\<exists>s'. onMessage_of (\<lambda>i p c. 0) False 9 asked (world 0 (redis1 [] [(0, 0)] [] [] True) []) = Some ([], s')
    \<and> doPendingFunctors (\<lambda>i p c. 0) s' = None"
proof -
  obtain s' where s': "onMessage_of (\<lambda>i p c. 0) False 9 asked (world 0 (redis1 [] [(0, 0)] [] [] True) []) = Some ([], s')"
    by (simp add: onMessage_of_def registered_handlers world_def asked_def onQuery_def runInLoop_def Let_def)
  from queued_request_dangles [OF reach_idle conf1_ok _ this, where rvc' = "\<lambda>i p c. 0"] s'
  show ?thesis by (auto simp: asked_def)
qed

definition conf2 :: "unit configure" where
  "conf2 = conf1\<lparr>preConnection := False\<rparr>"

theorem no_preconnection_no_service_witness:
  "\<exists>s :: (nat, byte list) proxy. preach W1 (generated_ops W1) conf2 s
    \<and> (\<forall>out s'. pstep W1 (generated_ops W1) s out s' \<longrightarrow> out = [])"
proof -
  obtain s0 :: "(nat, byte list) proxy" where s0: "new_proxy conf2 0 = Some s0" "conf_preConnect (backend s0) = False"
    by (simp add: new_proxy_def HiredisPool_def getServerAddrs_def preConnect_def conf2_def conf1_def Let_def)
  then have "start (\<lambda>i a k. 0) s0 = Some s0" by (simp add: start_def pool_connect_def)
  with s0 have r: "preach W1 (generated_ops W1) conf2 s0" by (auto intro: preach.started)
  have "conf_ok conf2" "\<not> preConnection conf2" by (simp_all add: conf2_def conf_ok_def conf1_def)
  from no_preconnection_no_service [OF r this] r show ?thesis by blast
qed

theorem toString_exact_witness: "length (toString (- 42)) \<le> 20 \<and> number_of (tl (toString (- 42))) = 42"
  using toString_exact [of "- 42"] by simp

end
