(* ===== verification/Settings.thy ===== *)
theory Settings
  imports StdMap "HOL-Library.List_Lexorder"
begin

text \<open>
  The configuration of the sender: \<open>sender/src/utils/StringUtil.cc\<close>, \<open>SystemConfig.cc\<close> and
  \<open>sender/src/frame/ClientConfig.cc\<close>. Strings are lists of bytes, compared byte by byte as
  \<open>std::map\<close> does; \<open>npos\<close> is the largest \<open>size_t\<close> and additions to it wrap around.
\<close>

section \<open>Operations of std::string\<close>

definition npos :: nat where "npos = 2 ^ 64 - 1"

definition find_first_not_of :: "byte list \<Rightarrow> byte list \<Rightarrow> nat" where
  "find_first_not_of chars str = (case find (\<lambda>i. str ! i \<notin> set chars) [0..<length str] of None \<Rightarrow> npos | Some i \<Rightarrow> i)"

definition find_last_not_of :: "byte list \<Rightarrow> byte list \<Rightarrow> nat" where
  "find_last_not_of chars str = (case find (\<lambda>i. str ! i \<notin> set chars) (rev [0..<length str]) of None \<Rightarrow> npos | Some i \<Rightarrow> i)"

definition find_char :: "byte \<Rightarrow> nat \<Rightarrow> byte list \<Rightarrow> nat" where
  "find_char c start str = (case find (\<lambda>i. str ! i = c) [start..<length str] of None \<Rightarrow> npos | Some i \<Rightarrow> i)"

text \<open>\<open>erase pos n\<close> and \<open>substr pos n\<close> stop at the end of the string.\<close>

definition erase :: "nat \<Rightarrow> nat \<Rightarrow> byte list \<Rightarrow> byte list" where
  "erase pos n str = take pos str @ drop (pos + n) str"

definition substr :: "nat \<Rightarrow> nat \<Rightarrow> byte list \<Rightarrow> byte list" where
  "substr pos n str = take n (drop pos str)"

definition size_add :: "nat \<Rightarrow> nat \<Rightarrow> nat" where
  "size_add a b = (a + b) mod 2 ^ 64"

section \<open>StringUtil\<close>

definition drop_chars :: "byte list" where "drop_chars = [32, 9]"

definition Ltrim :: "byte list \<Rightarrow> byte list" where
  "Ltrim str = erase 0 (find_first_not_of drop_chars str) str"

definition Rtrim :: "byte list \<Rightarrow> byte list" where
  "Rtrim str = erase (size_add (find_last_not_of drop_chars str) 1) npos str"

definition Trim :: "byte list \<Rightarrow> byte list" where
  "Trim str =
     (let str = erase (size_add (find_last_not_of drop_chars str) 1) npos str
      in erase 0 (find_first_not_of drop_chars str) str)"

text \<open>The loop of \<open>Split\<close>, from \<open>start\<close>; \<open>pos\<close> is searched again at the end of each turn.\<close>

function split_loop :: "byte list \<Rightarrow> byte \<Rightarrow> nat \<Rightarrow> byte list list" where
  "split_loop str delim start =
     (let pos = find_char delim start str
      in if pos \<noteq> npos \<and> start \<le> pos \<and> pos < length str then
           (if start < pos then [substr start (pos - start) str] else []) @ split_loop str delim (pos + 1)
         else if start < length str then [substr start npos str] else [])"
  by pat_completeness auto
termination by (relation "measure (\<lambda>(str, delim, start). length str - start)") auto

declare split_loop.simps [simp del]

definition Split :: "byte list \<Rightarrow> byte \<Rightarrow> byte list list" where
  "Split str delim = split_loop str delim 0"

section \<open>SystemConfig\<close>

record sysconfig =
  properties :: "(byte list, byte list) std_map"
  filepath :: "byte list"

text \<open>\<open>line[0]\<close> of an empty string is its terminating NUL.\<close>

definition char0 :: "byte list \<Rightarrow> byte" where
  "char0 s = (case s of [] \<Rightarrow> 0 | c # cs \<Rightarrow> c)"

text \<open>One turn of the loop: the segment name and the properties so far.\<close>

definition load_line :: "byte list \<Rightarrow> byte list \<times> (byte list, byte list) std_map
    \<Rightarrow> byte list \<times> (byte list, byte list) std_map" where
  "load_line line st =
     (let (segmentName, props) = st;
          line = Trim line
      in if char0 line = 35 then (segmentName, props)
         else if char0 line = 91 \<and> find_char 93 0 line \<noteq> npos then
           (substr 1 (find_char 93 0 line - 1) line, props)
         else let pos = find_char 61 0 line
              in if pos \<noteq> npos then
                   let left = Rtrim (substr 0 pos line);
                       right = Trim (substr (pos + 1) npos line);
                       propertyName = (if segmentName = [] then left else segmentName @ [46] @ left)
                   in (segmentName, map_set propertyName right props)
                 else (segmentName, props))"

text \<open>\<open>getline\<close> until it fails: the last line may lack its newline.\<close>

function getlines :: "byte list \<Rightarrow> byte list list" where
  "getlines text =
     (if text = [] then []
      else takeWhile (\<lambda>c. c \<noteq> 10) text # getlines (drop 1 (dropWhile (\<lambda>c. c \<noteq> 10) text)))"
  by auto
termination
proof (relation "measure length")
  fix cs :: "byte list"
  assume "cs \<noteq> []"
  then show "(drop 1 (dropWhile (\<lambda>c. c \<noteq> 10) cs), cs) \<in> measure length"
    using length_dropWhile_le [of "\<lambda>c. c \<noteq> 10" cs] by (cases cs) auto
qed simp

declare getlines.simps [simp del]

definition Load :: "(byte list \<Rightarrow> byte list option) \<Rightarrow> sysconfig \<Rightarrow> sysconfig option" where
  "Load file c = do {
     text \<leftarrow> file (filepath c);
     Some (c\<lparr>properties := snd (foldl (\<lambda>st line. load_line line st) ([], properties c) (getlines text))\<rparr>)
   }"

definition SystemConfig :: "(byte list \<Rightarrow> byte list option) \<Rightarrow> byte list \<Rightarrow> sysconfig option" where
  "SystemConfig file path = Load file \<lparr>properties = [], filepath = path\<rparr>"

text \<open>\<open>operator[]\<close> adds an empty property when there is none.\<close>

definition GetProperty :: "byte list \<Rightarrow> sysconfig \<Rightarrow> byte list \<times> sysconfig" where
  "GetProperty name c =
     (case map_find name (properties c) of
        Some v \<Rightarrow> (v, c)
      | None \<Rightarrow> ([], c\<lparr>properties := map_set name [] (properties c)\<rparr>))"

section \<open>ClientConfig\<close>

record client_config =
  config :: sysconfig
  serverIp :: "byte list"
  server_port :: u16

text \<open>\<open>atoi\<close>: white space, a sign, and the digits up to the first other character.\<close>

definition is_space :: "byte \<Rightarrow> bool" where "is_space c \<longleftrightarrow> c \<in> {9, 10, 11, 12, 13, 32}"

definition digits_value :: "byte list \<Rightarrow> int" where
  "digits_value cs = foldl (\<lambda>n d. 10 * n + (uint d - 48)) 0 (takeWhile (\<lambda>d. 48 \<le> d \<and> d \<le> 57) cs)"

definition atoi :: "byte list \<Rightarrow> int" where
  "atoi s =
     (let s = dropWhile is_space s
      in if s \<noteq> [] \<and> hd s = 45 then - digits_value (tl s)
         else if s \<noteq> [] \<and> hd s = 43 then digits_value (tl s)
         else digits_value s)"

definition ClientConfig :: "(byte list \<Rightarrow> byte list option) \<Rightarrow> client_config option" where
  "ClientConfig file = do {
     c \<leftarrow> SystemConfig file (ascii ''../conf/client.conf'');
     let (ip, c) = GetProperty (ascii ''CLIENT.SERVER_IP'') c;
     let (port, c) = GetProperty (ascii ''CLIENT.PORT'') c;
     Some \<lparr>config = c, serverIp = ip, server_port = word_of_int (atoi port)\<rparr>
   }"

definition GetServerIp :: "client_config \<Rightarrow> byte list" where "GetServerIp c = serverIp c"

definition GetPort :: "client_config \<Rightarrow> u16" where "GetPort c = server_port c"

section \<open>Trimming\<close>

lemma find_map_list: "find P (map f xs) = map_option f (find (\<lambda>x. P (f x)) xs)"
  by (induction xs) simp_all

lemma find_front:
  "find (\<lambda>i. xs ! i \<notin> S) [0..<length xs]
     = (if set xs \<subseteq> S then None else Some (length (takeWhile (\<lambda>c. c \<in> S) xs)))"
proof (induction xs)
  case (Cons x xs)
  have "[0..<length (x # xs)] = 0 # map Suc [0..<length xs]"
    by (simp add: upt_conv_Cons map_Suc_upt del: upt_Suc)
  with Cons show ?case by (auto simp: find_map_list simp del: upt_Suc)
qed simp

lemma find_back:
  "find (\<lambda>i. xs ! i \<notin> S) (rev [0..<length xs])
     = (if set xs \<subseteq> S then None else Some (length (dropWhile (\<lambda>c. c \<in> S) (rev xs)) - 1))"
proof (induction xs rule: rev_induct)
  case (snoc x xs)
  have "find (\<lambda>i. (xs @ [x]) ! i \<notin> S) (rev [0..<length xs]) = find (\<lambda>i. xs ! i \<notin> S) (rev [0..<length xs])"
    by (rule find_cong) (auto simp: nth_append)
  with snoc show ?case by auto
qed simp

lemma Ltrim_eq: "length str < npos \<Longrightarrow> Ltrim str = dropWhile (\<lambda>c. c \<in> set drop_chars) str"
  by (auto simp: Ltrim_def find_first_not_of_def erase_def find_front dropWhile_eq_drop subset_iff
      takeWhile_eq_all_conv [THEN iffD2])

lemma rstrip_take: "rev (dropWhile P (rev xs)) = take (length (dropWhile P (rev xs))) xs"
proof -
  have "xs = rev (dropWhile P (rev xs)) @ rev (takeWhile P (rev xs))"
    by (metis rev_append rev_rev_ident takeWhile_dropWhile_id)
  then show ?thesis by (metis append_eq_conv_conj length_rev)
qed

lemma Rtrim_eq: "length str < npos \<Longrightarrow> Rtrim str = rev (dropWhile (\<lambda>c. c \<in> set drop_chars) (rev str))"
proof (cases "set str \<subseteq> set drop_chars")
  case True
  assume "length str < npos"
  moreover have "dropWhile (\<lambda>c. c \<in> set drop_chars) (rev str) = []"
    using True by (auto simp: dropWhile_eq_Nil_conv)
  ultimately show ?thesis
    using True by (simp add: Rtrim_def find_last_not_of_def find_back erase_def size_add_def npos_def)
next
  case False
  assume len: "length str < npos"
  let ?k = "length (dropWhile (\<lambda>c. c \<in> set drop_chars) (rev str))"
  have k: "0 < ?k" "?k \<le> length str"
    using False length_dropWhile_le [of _ "rev str"] by (auto simp: dropWhile_eq_Nil_conv)
  then have "size_add (?k - 1) 1 = ?k" using len by (simp add: size_add_def npos_def)
  with False len k show ?thesis
    by (simp add: Rtrim_def find_last_not_of_def find_back erase_def rstrip_take)
qed

lemma Trim_RL: "Trim str = Ltrim (Rtrim str)"
  by (simp add: Trim_def Ltrim_def Rtrim_def Let_def)

lemma length_Rtrim: "length str < npos \<Longrightarrow> length (Rtrim str) < npos"
  using length_dropWhile_le [of "\<lambda>c. c \<in> set drop_chars" "rev str"] by (simp add: Rtrim_eq)

text \<open>A text that neither begins nor ends with a blank.\<close>

definition trimmed :: "byte list \<Rightarrow> bool" where
  "trimmed s \<longleftrightarrow> s = [] \<or> hd s \<notin> set drop_chars \<and> last s \<notin> set drop_chars"

lemma dropWhile_hd: "s = [] \<or> \<not> P (hd s) \<Longrightarrow> dropWhile P s = s"
  by (cases s) auto

lemma Rtrim_id: "length s < npos \<Longrightarrow> trimmed s \<Longrightarrow> Rtrim s = s"
  by (cases "s = []") (simp_all add: Rtrim_eq trimmed_def dropWhile_hd hd_rev)

lemma Trim_id: "length s < npos \<Longrightarrow> trimmed s \<Longrightarrow> Trim s = s"
  by (auto simp: Trim_RL Rtrim_id Ltrim_eq trimmed_def intro!: dropWhile_hd)

lemma Trim_trimmed: "length s < npos \<Longrightarrow> trimmed (Trim s)"
proof -
  assume len: "length s < npos"
  let ?b = "\<lambda>c. c \<in> set drop_chars"
  let ?r = "rev (dropWhile ?b (rev s))"
  have t: "Trim s = dropWhile ?b ?r" using len length_Rtrim [OF len] by (simp add: Trim_RL Ltrim_eq Rtrim_eq)
  show ?thesis
  proof (cases "dropWhile ?b ?r = []")
    case True
    then show ?thesis unfolding t trimmed_def by (rule disjI1)
  next
    case False
    then have "hd (dropWhile ?b ?r) \<notin> set drop_chars" using hd_dropWhile [of ?b ?r] by auto
    moreover have "?r \<noteq> []" using False by (metis dropWhile.simps(1))
    then have "dropWhile ?b (rev s) \<noteq> []" by (simp only: rev_is_Nil_conv not_False_eq_True)
    then have "last ?r \<notin> set drop_chars" using hd_dropWhile [of ?b "rev s"] by (auto simp: last_rev)
    moreover have "last (dropWhile ?b ?r) = last ?r"
      using False by (metis last_appendR takeWhile_dropWhile_id)
    ultimately show ?thesis unfolding trimmed_def t by (simp only:) simp
  qed
qed

section \<open>Splitting\<close>

fun fields :: "byte \<Rightarrow> byte list \<Rightarrow> byte list list" where
  "fields d [] = [[]]"
| "fields d (c # cs) =
     (if c = d then [] # fields d cs
      else case fields d cs of [] \<Rightarrow> [[c]] | f # fs \<Rightarrow> (c # f) # fs)"

lemma fields_append: "d \<notin> set xs \<Longrightarrow> fields d (xs @ d # ys) = xs # fields d ys"
  by (induction xs) auto

lemma fields_none: "d \<notin> set xs \<Longrightarrow> fields d xs = [xs]"
  by (induction xs) auto

lemma find_char_cases:
  assumes "start \<le> length str" "length str < npos"
  shows "(find_char c start str = npos \<and> c \<notin> set (drop start str))
    \<or> (\<exists>xs ys. drop start str = xs @ c # ys \<and> c \<notin> set xs \<and> find_char c start str = start + length xs)"
proof (cases "c \<in> set (drop start str)")
  case False
  have "str ! i \<noteq> c" if "start \<le> i" "i < length str" for i
  proof -
    have "i - start < length (drop start str)" using that by simp
    from nth_mem [OF this] that False show ?thesis by auto
  qed
  then have "find (\<lambda>i. str ! i = c) [start..<length str] = None"
    by (auto simp: find_None_iff)
  with False show ?thesis by (simp add: find_char_def)
next
  case True
  then obtain xs ys where s: "drop start str = xs @ c # ys" "c \<notin> set xs" by (metis split_list_first)
  have at: "str ! (start + i) = (xs @ c # ys) ! i" for i
    using assms(1) by (simp flip: s(1))
  have "length str = start + length xs + Suc (length ys)"
    using assms(1) arg_cong [OF s(1), of length] by simp
  moreover have "str ! j \<noteq> c" if "start \<le> j" "j < start + length xs" for j
    using at [of "j - start"] that s(2) by (auto simp: nth_append)
  ultimately have "find (\<lambda>i. str ! i = c) [start..<length str] = Some (start + length xs)"
    using at [of "length xs"] by (auto simp: find_Some_iff simp del: upt_Suc intro!: exI [of _ "length xs"])
  with s show ?thesis by (auto simp: find_char_def)
qed

lemma split_loop_fields:
  "start \<le> length str \<Longrightarrow> length str < npos \<Longrightarrow>
     split_loop str d start = filter (\<lambda>f. f \<noteq> []) (fields d (drop start str))"
proof (induction str d start rule: split_loop.induct)
  case (1 str d start)
  from find_char_cases [OF 1(2,3), of d] show ?case
  proof (elim disjE exE conjE)
    assume "find_char d start str = npos" "d \<notin> set (drop start str)"
    with 1(2,3) show ?thesis
      by (auto simp: split_loop.simps [of str d start] fields_none substr_def)
  next
    fix xs ys
    assume s: "drop start str = xs @ d # ys" "d \<notin> set xs" "find_char d start str = start + length xs"
    have len: "length str = start + length xs + Suc (length ys)"
      using 1(2) arg_cong [OF s(1), of length] by simp
    have ys: "drop (Suc (start + length xs)) str = ys"
      using arg_cong [OF s(1), of "drop (Suc (length xs))"] by (simp add: add.commute)
    have "split_loop str d (find_char d start str + 1)
        = filter (\<lambda>f. f \<noteq> []) (fields d (drop (find_char d start str + 1) str))"
      using s(3) len 1(3) by (intro 1(1) [OF refl]) simp_all
    with s len 1(3) ys show ?thesis
      by (auto simp: split_loop.simps [of str d start] fields_append substr_def Let_def)
  qed
qed

section \<open>Reading a file back\<close>

definition no_newline :: "byte list \<Rightarrow> bool" where "no_newline l \<longleftrightarrow> 10 \<notin> set l"

lemma getlines_line: "no_newline l \<Longrightarrow> getlines (l @ 10 # rest) = l # getlines rest"
  by (subst getlines.simps) (auto simp: no_newline_def takeWhile_append dropWhile_append takeWhile_eq_all_conv [THEN iffD2]
      dropWhile_eq_Nil_conv [THEN iffD2])

lemma getlines_lines: "list_all no_newline ls \<Longrightarrow> getlines (concat (map (\<lambda>l. l @ [10]) ls)) = ls"
  by (induction ls) (simp_all add: getlines_line, simp add: getlines.simps)

text \<open>A file written from sections, each a name and its settings.\<close>

type_synonym ini = "(byte list \<times> (byte list \<times> byte list) list) list"

definition section_lines :: "byte list \<times> (byte list \<times> byte list) list \<Rightarrow> byte list list" where
  "section_lines s = ([91] @ fst s @ [93]) # map (\<lambda>(k, v). k @ [61] @ v) (snd s)"

definition render :: "ini \<Rightarrow> byte list" where
  "render ss = concat (map (\<lambda>l. l @ [10]) (concat (map section_lines ss)))"

definition settings :: "ini \<Rightarrow> (byte list \<times> byte list) list" where
  "settings ss = concat (map (\<lambda>(n, kvs). map (\<lambda>(k, v). (n @ [46] @ k, v)) kvs) ss)"

definition key_ok :: "byte list \<Rightarrow> bool" where
  "key_ok k \<longleftrightarrow> k \<noteq> [] \<and> trimmed k \<and> no_newline k \<and> 61 \<notin> set k \<and> hd k \<noteq> 35 \<and> hd k \<noteq> 91"

definition value_ok :: "byte list \<Rightarrow> bool" where
  "value_ok v \<longleftrightarrow> trimmed v \<and> no_newline v"

definition name_ok :: "byte list \<Rightarrow> bool" where
  "name_ok n \<longleftrightarrow> n \<noteq> [] \<and> no_newline n \<and> 93 \<notin> set n"

definition ini_ok :: "ini \<Rightarrow> bool" where
  "ini_ok ss \<longleftrightarrow> list_all (\<lambda>(n, kvs). name_ok n \<and> list_all (\<lambda>(k, v). key_ok k \<and> value_ok v) kvs) ss
     \<and> length (render ss) < npos"

lemma find_char_append: "c \<notin> set xs \<Longrightarrow> length (xs @ c # ys) < npos \<Longrightarrow> find_char c 0 (xs @ c # ys) = length xs"
proof -
  assume c: "c \<notin> set xs" "length (xs @ c # ys) < npos"
  have tw: "takeWhile (\<lambda>x. x \<noteq> c) (zs @ c # ws) = zs" if "c \<notin> set zs" for zs ws
    using that by (induction zs) auto
  from find_char_cases [of 0 "xs @ c # ys" c] c(2) obtain zs ws where
    "xs @ c # ys = zs @ c # ws" "c \<notin> set zs" "find_char c 0 (xs @ c # ys) = length zs" by auto
  with tw [OF c(1), of ys] tw [of zs ws] show ?thesis by simp
qed

lemma load_section_line:
  assumes "name_ok n" "length n + 2 < npos"
  shows "load_line ([91] @ n @ [93]) (seg, props) = (n, props)"
proof -
  have t: "Trim ([91] @ n @ [93]) = 91 # n @ [93]"
    using Trim_id [of "[91] @ n @ [93]"] assms(2) by (simp add: trimmed_def drop_chars_def)
  have f: "find_char 93 0 (91 # n @ [93]) = length n + 1"
    using find_char_append [of 93 "91 # n" "[]"] assms by (simp add: name_ok_def)
  show ?thesis
    using assms(2) by (simp only: load_line_def t) (simp add: char0_def f substr_def Let_def)
qed

lemma load_setting_line:
  assumes "key_ok k" "value_ok v" "length k + length v + 1 < npos" "seg \<noteq> []"
  shows "load_line (k @ [61] @ v) (seg, props) = (seg, map_set (seg @ [46] @ k) v props)"
proof -
  have t: "Trim (k @ 61 # v) = k @ 61 # v"
    using assms(1-3) by (intro Trim_id) (auto simp: trimmed_def key_ok_def value_ok_def drop_chars_def)
  have f: "find_char 61 0 (k @ 61 # v) = length k"
    using find_char_append [of 61 k v] assms by (simp add: key_ok_def)
  have c: "char0 (k @ 61 # v) = hd k" using assms(1) by (cases k) (simp_all add: key_ok_def char0_def)
  have "Rtrim k = k" "Trim v = v"
    using assms(1-3) by (simp_all add: key_ok_def value_ok_def Rtrim_id Trim_id)
  with assms f c show ?thesis
    by (simp add: load_line_def t Let_def substr_def) (simp add: key_ok_def npos_def)
qed

lemma load_settings:
  "list_all (\<lambda>(k, v). key_ok k \<and> value_ok v \<and> length k + length v + 1 < npos) kvs \<Longrightarrow> seg \<noteq> [] \<Longrightarrow>
     foldl (\<lambda>st line. load_line line st) (seg, props) (map (\<lambda>(k, v). k @ [61] @ v) kvs)
       = (seg, foldl (\<lambda>m (k, v). map_set k v m) props (map (\<lambda>(k, v). (seg @ [46] @ k, v)) kvs))"
  by (induction kvs arbitrary: props) (auto simp: load_setting_line simp del: append.simps)

lemma load_sections:
  "list_all (\<lambda>(n, kvs). name_ok n \<and> length n + 2 < npos \<and>
      list_all (\<lambda>(k, v). key_ok k \<and> value_ok v \<and> length k + length v + 1 < npos) kvs) ss \<Longrightarrow>
     snd (foldl (\<lambda>st line. load_line line st) (seg, props) (concat (map section_lines ss)))
       = foldl (\<lambda>m (k, v). map_set k v m) props (settings ss)"
proof (induction ss arbitrary: seg props)
  case (Cons s ss)
  obtain n kvs where s: "s = (n, kvs)" by fastforce
  with Cons.prems have "name_ok n" "length n + 2 < npos" "n \<noteq> []"
    "list_all (\<lambda>(k, v). key_ok k \<and> value_ok v \<and> length k + length v + 1 < npos) kvs"
    by (auto simp: name_ok_def)
  with Cons s load_section_line [of n seg props] load_settings [of kvs n props] show ?case
    by (simp add: section_lines_def settings_def)
qed (simp add: settings_def)

lemma ini_ok_lines:
  assumes "ini_ok ss"
  shows "list_all no_newline (concat (map section_lines ss))"
    "list_all (\<lambda>(n, kvs). name_ok n \<and> length n + 2 < npos \<and>
      list_all (\<lambda>(k, v). key_ok k \<and> value_ok v \<and> length k + length v + 1 < npos) kvs) ss"
proof -
  show "list_all no_newline (concat (map section_lines ss))"
    using assms by (fastforce simp: ini_ok_def list_all_iff section_lines_def name_ok_def key_ok_def value_ok_def no_newline_def)
  have line: "length l < npos" if "l \<in> set (concat (map section_lines ss))" for l
  proof -
    have "length (l @ [10]) \<le> length (render ss)"
      unfolding render_def length_concat using that
      by (intro member_le_sum_list) (auto simp: comp_def)
    then show ?thesis using assms by (simp add: ini_ok_def)
  qed
  show "list_all (\<lambda>(n, kvs). name_ok n \<and> length n + 2 < npos \<and>
      list_all (\<lambda>(k, v). key_ok k \<and> value_ok v \<and> length k + length v + 1 < npos) kvs) ss"
    unfolding list_all_iff
  proof (clarify, intro conjI)
    fix n kvs
    assume m: "(n, kvs) \<in> set ss"
    then show "name_ok n" using assms by (auto simp: ini_ok_def list_all_iff)
    have "[91] @ n @ [93] \<in> set (concat (map section_lines ss))" using m by (force simp: section_lines_def)
    from line [OF this] show "length n + 2 < npos" by simp
    show "\<forall>(k, v)\<in>set kvs. key_ok k \<and> value_ok v \<and> length k + length v + 1 < npos"
    proof clarify
      fix k v
      assume kv: "(k, v) \<in> set kvs"
      have "k @ [61] @ v \<in> set (concat (map section_lines ss))" using m kv by (force simp: section_lines_def)
      from line [OF this] m kv assms show "key_ok k \<and> value_ok v \<and> length k + length v + 1 < npos"
        by (auto simp: ini_ok_def list_all_iff)
    qed
  qed
qed

lemma map_find_foldl:
  "map_ok m \<Longrightarrow> map_find k (foldl (\<lambda>m (k, v). map_set k v m) m kvs)
     = (case map_of (rev kvs) k of Some v \<Rightarrow> Some v | None \<Rightarrow> map_find k m)"
proof (induction kvs arbitrary: m)
  case (Cons kv kvs)
  obtain l v where kv: "kv = (l, v)" by fastforce
  with Cons smap.find_set [OF Cons.prems, of k l v] smap.ok_set [OF Cons.prems, of l v] show ?case
    by (auto simp: map_add_def split: option.splits)
qed simp

section \<open>Properties\<close>

text \<open>C35: A configuration file written from named sections of settings is read back: after loading, each
  property \<open>section.key\<close> has the value set last for it, and no other property exists.\<close>
theorem config_roundtrip:
  assumes "ini_ok ss" "file path = Some (render ss)"
  shows "\<exists>c. SystemConfig file path = Some c \<and> filepath c = path
    \<and> (\<forall>name. map_find name (properties c) = map_of (rev (settings ss)) name)"
proof -
  have "properties (the (SystemConfig file path)) = foldl (\<lambda>m (k, v). map_set k v m) [] (settings ss)"
    using assms load_sections [OF ini_ok_lines(2) [OF assms(1)], of "[]" "[]"]
    by (simp add: SystemConfig_def Load_def render_def getlines_lines ini_ok_lines(1))
  then show ?thesis
    using assms(2) map_find_foldl [of "[]" _ "settings ss"]
    by (auto simp: SystemConfig_def Load_def split: option.splits)
qed

text \<open>\<open>Trim\<close> removes exactly the blanks and tabs at both ends, for every string shorter than \<open>npos\<close>,
  also when nothing else is left and the search returns \<open>npos\<close>, whose successor wraps around to zero.\<close>
theorem Trim_strips:
  assumes "length s < npos"
  shows "Trim s = dropWhile (\<lambda>c. c \<in> {32, 9}) (rev (dropWhile (\<lambda>c. c \<in> {32, 9}) (rev s)))
    \<and> trimmed (Trim s) \<and> Trim (Trim s) = Trim s"
proof -
  have t: "Trim s = dropWhile (\<lambda>c. c \<in> set drop_chars) (rev (dropWhile (\<lambda>c. c \<in> set drop_chars) (rev s)))"
    using assms length_Rtrim [OF assms] by (simp add: Trim_RL Ltrim_eq Rtrim_eq)
  have "length (Trim s) < npos"
    using assms length_dropWhile_le le_less_trans length_Rtrim [OF assms]
    by (metis Ltrim_eq Trim_RL)
  from Trim_id [OF this Trim_trimmed [OF assms]] Trim_trimmed [OF assms] t show ?thesis
    by (simp add: drop_chars_def)
qed

text \<open>\<open>Split\<close> returns the non-empty fields between the delimiters, in order: the loop over \<open>find\<close> and
  \<open>substr\<close> agrees with the field-by-field definition.\<close>
theorem Split_fields:
  assumes "length str < npos"
  shows "Split str delim = filter (\<lambda>f. f \<noteq> []) (fields delim str)"
  using split_loop_fields [of 0 str delim] assms by (simp add: Split_def)

section \<open>The shipped file\<close>

definition client_conf :: ini where
  "client_conf = [(ascii ''CLIENT'', [(ascii ''SERVER_IP'', ascii ''127.0.0.1''), (ascii ''PORT'', ascii ''8888'')])]"

lemma client_conf_ok: "ini_ok client_conf"
  by (simp add: ini_ok_def client_conf_def name_ok_def key_ok_def value_ok_def no_newline_def trimmed_def drop_chars_def
      render_def section_lines_def ascii_def npos_def)

theorem config_roundtrip_witness:
  "\<exists>c. SystemConfig (\<lambda>p. Some (render client_conf)) [] = Some c
    \<and> map_find (ascii ''CLIENT.PORT'') (properties c) = Some (ascii ''8888'')"
proof -
  obtain c where c: "SystemConfig (\<lambda>p. Some (render client_conf)) [] = Some c"
    "map_find (ascii ''CLIENT.PORT'') (properties c) = map_of (rev (settings client_conf)) (ascii ''CLIENT.PORT'')"
    using config_roundtrip [OF client_conf_ok, of "\<lambda>p. Some (render client_conf)" "[]"] by auto
  then show ?thesis by (simp add: settings_def client_conf_def ascii_def)
qed

theorem Trim_strips_witness: "Trim [32, 9] = [] \<and> Trim [32, 65, 32, 66, 9] = [65, 32, 66]"
  using Trim_strips [of "[32, 9]"] Trim_strips [of "[32, 65, 32, 66, 9]"] by (simp add: npos_def)

theorem Split_fields_witness: "Split [44, 65, 44, 44, 66] 44 = [[65], [66]]"
  using Split_fields [of "[44, 65, 44, 44, 66]" 44] by (simp add: npos_def)

text \<open>The client reads the address and the port of the file the repository ships.\<close>
theorem shipped_client_conf:
  "\<exists>c. ClientConfig (\<lambda>p. if p = ascii ''../conf/client.conf'' then Some (render client_conf) else None) = Some c
    \<and> GetServerIp c = ascii ''127.0.0.1'' \<and> GetPort c = 8888"
proof -
  let ?file = "\<lambda>p. if p = ascii ''../conf/client.conf'' then Some (render client_conf) else None"
  have "properties (the (SystemConfig ?file (ascii ''../conf/client.conf'')))
      = foldl (\<lambda>m (k, v). map_set k v m) [] (settings client_conf)"
    using load_sections [OF ini_ok_lines(2) [OF client_conf_ok], of "[]" "[]"]
    by (simp add: SystemConfig_def Load_def render_def getlines_lines ini_ok_lines(1) [OF client_conf_ok])
  then obtain c where c: "SystemConfig ?file (ascii ''../conf/client.conf'') = Some c"
    "properties c = foldl (\<lambda>m (k, v). map_set k v m) [] (settings client_conf)"
    by (auto simp: SystemConfig_def Load_def)
  have ip: "map_find (ascii ''CLIENT.SERVER_IP'') (properties c) = Some (ascii ''127.0.0.1'')"
    and port: "map_find (ascii ''CLIENT.PORT'') (properties c) = Some (ascii ''8888'')"
    unfolding c(2) using map_find_foldl [of "[]" _ "settings client_conf"]
    by (simp_all add: settings_def client_conf_def ascii_def)
  have "atoi (ascii ''8888'') = 8888"
    by (simp add: atoi_def ascii_def is_space_def digits_value_def)
  with c(1) ip port show ?thesis
    by (simp add: ClientConfig_def GetProperty_def GetServerIp_def GetPort_def Let_def)
qed

end
