(* ===== verification/BankCommands.thy ===== *)
theory BankCommands
  imports Prelude
begin

text \<open>
  The commands of \<open>sender/cmd\<close>: each builds a request packet (command, length, body, an eight byte tail
  folded from a digest), sends it, and reads the answer. The command numbers, the streams, the digest, the
  cipher and the session they use are headers outside the repository: the streams are records of functions,
  the session is its attributes, the packets it receives and the calls made on it.
\<close>

section \<open>The streams\<close>

text \<open>
  \<open>Data\<close> is the whole buffer of an output stream, \<open>Length\<close> its write position. \<open>JOutStream\<close> objects
  start at \<open>jos_new\<close>. \<open>jos_laws\<close>: writing replaces the bytes at the position and moves it.
\<close>

record 'j jout =
  jos_new :: 'j
  Data :: "'j \<Rightarrow> byte list"
  Length :: "'j \<Rightarrow> nat"
  Skip :: "nat \<Rightarrow> 'j \<Rightarrow> 'j"
  Reposition :: "nat \<Rightarrow> 'j \<Rightarrow> 'j"
  WriteBytes :: "byte list \<Rightarrow> 'j \<Rightarrow> 'j"
  put16 :: "u16 \<Rightarrow> 'j \<Rightarrow> 'j"
  put32 :: "u32 \<Rightarrow> 'j \<Rightarrow> 'j"
  put_string :: "byte list \<Rightarrow> 'j \<Rightarrow> 'j"

definition written :: "'j jout \<Rightarrow> byte list \<Rightarrow> 'j \<Rightarrow> 'j \<Rightarrow> bool" where
  "written J xs j j' \<longleftrightarrow> Length J j' = Length J j + length xs \<and> Length J j' \<le> length (Data J j')
     \<and> take (Length J j') (Data J j') = take (Length J j) (Data J j) @ xs
     \<and> drop (Length J j') (Data J j') = drop (Length J j') (Data J j)"

definition jos_laws :: "'j jout \<Rightarrow> (u16 \<Rightarrow> byte list) \<Rightarrow> (u32 \<Rightarrow> byte list) \<Rightarrow> (byte list \<Rightarrow> byte list) \<Rightarrow> bool" where
  "jos_laws J b16 b32 bs \<longleftrightarrow>
     Length J (jos_new J) = 0
     \<and> (\<forall>j n. Length J j \<le> length (Data J j) \<longrightarrow>
          Length J (Skip J n j) = Length J j + n \<and> Length J j + n \<le> length (Data J (Skip J n j))
          \<and> take (Length J j) (Data J (Skip J n j)) = take (Length J j) (Data J j))
     \<and> (\<forall>j n. n \<le> length (Data J j) \<longrightarrow> Length J (Reposition J n j) = n \<and> Data J (Reposition J n j) = Data J j)
     \<and> (\<forall>j xs. Length J j \<le> length (Data J j) \<longrightarrow> written J xs j (WriteBytes J xs j))
     \<and> (\<forall>j x. Length J j \<le> length (Data J j) \<longrightarrow> written J (b16 x) j (put16 J x j))
     \<and> (\<forall>j x. Length J j \<le> length (Data J j) \<longrightarrow> written J (b32 x) j (put32 J x j))
     \<and> (\<forall>j x. Length J j \<le> length (Data J j) \<longrightarrow> written J (bs x) j (put_string J x j))
     \<and> (\<forall>x. length (b16 x) = 2)"

record 'i jin =
  jis_new :: "byte list \<Rightarrow> 'i"
  SetData :: "byte list \<Rightarrow> 'i \<Rightarrow> 'i"
  jis_Skip :: "nat \<Rightarrow> 'i \<Rightarrow> 'i"
  get16 :: "'i \<Rightarrow> u16 \<times> 'i"
  get_int16 :: "'i \<Rightarrow> u16 \<times> 'i"
  get32 :: "'i \<Rightarrow> u32 \<times> 'i"
  get_string :: "'i \<Rightarrow> byte list \<times> 'i"
  ReadBytes :: "nat \<Rightarrow> 'i \<Rightarrow> byte list \<times> 'i"

text \<open>
  \<open>md5\<close> is \<open>MD5::MD5Make\<close>, \<open>idea\<close> is \<open>Idea::Crypt\<close> (key, sixteen bytes, encrypting), \<open>head_size\<close> is
  \<open>sizeof(RequestHead)\<close> and \<open>to_amount\<close> the extraction of an amount from a \<open>stringstream\<close>.
\<close>

record 'f bank_env =
  md5 :: "byte list \<Rightarrow> byte list"
  idea :: "byte list \<Rightarrow> byte list \<Rightarrow> byte list"
  head_size :: nat
  to_amount :: "byte list \<Rightarrow> 'f"

section \<open>Reads of C strings\<close>

text \<open>\<open>n\<close> bytes at \<open>s.c_str()\<close>: reading past the terminating NUL is \<open>None\<close>.\<close>

definition c_bytes :: "nat \<Rightarrow> byte list \<Rightarrow> byte list option" where
  "c_bytes n s = (if n \<le> length s + 1 then Some (take n (s @ [0])) else None)"

text \<open>The string constructed from a character array: up to the first NUL, and \<open>None\<close> when there is none.\<close>

definition c_array :: "byte list \<Rightarrow> byte list option" where
  "c_array cs = (if 0 \<in> set cs then Some (takeWhile (\<lambda>c. c \<noteq> 0) cs) else None)"

text \<open>\<open>stringstream >>\<close> an unsigned integer: \<open>None\<close> leaves the variable as it was, which is uninitialized here.\<close>

definition extract_word :: "byte list \<Rightarrow> 'a::len word option" where
  "extract_word s =
     (let s = dropWhile (\<lambda>c. c \<in> {9, 10, 11, 12, 13, 32}) s;
          neg = (s \<noteq> [] \<and> hd s = 45);
          ds = takeWhile (\<lambda>d. 48 \<le> d \<and> d \<le> 57) (if s \<noteq> [] \<and> hd s \<in> {43, 45} then tl s else s);
          n = foldl (\<lambda>n d. 10 * n + (unat d - 48)) 0 ds
      in if s = [] then None
         else if 2 ^ LENGTH('a) \<le> n then Some (- 1)
         else Some (if neg then - word_of_nat n else word_of_nat n))"

section \<open>Digests\<close>

definition cmd_byte :: "u16 \<Rightarrow> nat \<Rightarrow> byte" where
  "cmd_byte cmd i = ucast (drop_bit (i mod 2) cmd AND 0xff)"

definition hash_step :: "u16 \<Rightarrow> nat \<Rightarrow> byte list \<Rightarrow> byte list" where
  "hash_step cmd i hash =
     (let hash = hash[i := hash ! i XOR hash ! (i + 8)]
      in hash[i := hash ! i XOR cmd_byte cmd i])"

definition fold_hash :: "u16 \<Rightarrow> byte list \<Rightarrow> byte list" where
  "fold_hash cmd hash = fold (hash_step cmd) [0..<8] hash"

definition key_step :: "u16 \<Rightarrow> nat \<Rightarrow> byte list \<Rightarrow> byte list" where
  "key_step cmd i k =
     (let k = k[i := k ! i XOR k ! (i + 8)];
          k = k[i := k ! i XOR cmd_byte cmd i];
          k = k[i + 8 := k ! i XOR k ! (i + 8)]
      in k[i + 8 := k ! (i + 8) XOR cmd_byte cmd i])"

definition idea_key :: "'f bank_env \<Rightarrow> u16 \<Rightarrow> byte list" where
  "idea_key E cmd =
     (let buf = [ucast (drop_bit 8 cmd AND 0xff), ucast (cmd AND 0xff)]
      in fold (key_step cmd) [0..<8] (md5 E buf))"

definition encrypted :: "'f bank_env \<Rightarrow> u16 \<Rightarrow> byte list \<Rightarrow> byte list option" where
  "encrypted E cmd pass = map_option (idea E (idea_key E cmd)) (c_bytes 16 pass)"

section \<open>Requests\<close>

text \<open>The frame around the body, the same statements in every command.\<close>

definition start_packet :: "'j jout \<Rightarrow> u16 \<Rightarrow> nat \<times> 'j" where
  "start_packet J cmd =
     (let jos = put16 J cmd (jos_new J);
          lengthPos = Length J jos
      in (lengthPos, Skip J 2 jos))"

definition finish_packet :: "'j jout \<Rightarrow> 'f bank_env \<Rightarrow> u16 \<Rightarrow> nat \<Rightarrow> 'j \<Rightarrow> byte list" where
  "finish_packet J E cmd lengthPos jos =
     (let tailPos = Length J jos;
          jos = Reposition J lengthPos jos;
          jos = put16 J (word_of_int (int tailPos + 8 - int (head_size E))) jos;
          jos = Reposition J tailPos jos;
          hash = fold_hash cmd (md5 E (take (Length J jos) (Data J jos)));
          jos = WriteBytes J (take 8 hash) jos
      in take (Length J jos) (Data J jos))"

section \<open>Answers\<close>

text \<open>The calls a command makes on its session.\<close>

record 'f detail =
  trans_date :: "byte list"
  account :: "byte list"
  other_account :: "byte list"
  abstract_name :: "byte list"
  amount :: 'f
  balance :: 'f
  total :: u32

datatype 'f session_call = Send "byte list" | Recv | SetErrorCode u16 | SetErrorMsg "byte list"
  | SetResponse string "byte list" | AddDetail "'f detail"

definition read_head :: "'i jin \<Rightarrow> 'i \<Rightarrow> (u16 \<times> u16 \<times> u16 \<times> byte list) \<times> 'i" where
  "read_head I jis =
     (let jis = jis_Skip I 4 jis;
          (cnt, jis) = get16 I jis;
          (seq, jis) = get16 I jis;
          (error_code, jis) = get_int16 I jis;
          (error_msg, jis) = ReadBytes I 30 jis
      in ((cnt, seq, error_code, error_msg), jis))"

text \<open>
  Sending, receiving the first packet and reading its head. \<open>junk\<close> is the byte of \<open>error_msg\<close> that
  \<open>ReadBytes\<close> does not write: the array has 31 bytes and is not initialized. A packet that never comes
  is \<open>None\<close>.
\<close>

definition exchange :: "'i jin \<Rightarrow> byte \<Rightarrow> byte list \<Rightarrow> byte list list \<Rightarrow> (u16 \<times> u16 \<times> 'f session_call list \<times> 'i) option" where
  "exchange I junk pkt packs = (case packs of
     [] \<Rightarrow> None
   | pack # packs \<Rightarrow> do {
       let ((cnt, seq, error_code, error_msg), jis) = read_head I (jis_new I pack);
       msg \<leftarrow> c_array (error_msg @ [junk]);
       Some (cnt, error_code, [Send pkt, Recv, SetErrorCode error_code, SetErrorMsg msg], jis)
     })"

text \<open>The new balance, read by deposits, withdrawals and transfers.\<close>

definition balance_answer :: "'i jin \<Rightarrow> byte \<Rightarrow> byte list \<Rightarrow> byte list list \<Rightarrow> 'f session_call list option" where
  "balance_answer I junk pkt packs = do {
     (cnt, error_code, calls, jis) \<leftarrow> exchange I junk pkt packs;
     if error_code = 0 then do {
       let (name, jis) = get_string I jis;
       let (money, jis) = get_string I jis;
       let (date, jis) = ReadBytes I 19 jis;
       date \<leftarrow> c_array (date @ [0]);
       Some (calls @ [SetResponse ''name'' name, SetResponse ''balance'' money, SetResponse ''trans_date'' date])
     } else Some calls
   }"

text \<open>
  One packet of a bill, and the loop over the packets: \<open>n\<close> turns are left, the head of the list is the
  packet received last. \<open>seq == cnt - 1\<close> is computed on \<open>int\<close>, with the \<open>cnt\<close> of that packet.
\<close>

definition read_detail :: "'i jin \<Rightarrow> 'f bank_env \<Rightarrow> 'i \<Rightarrow> ('f detail \<times> 'i) option" where
  "read_detail I E jis = do {
     let (date, jis) = ReadBytes I 19 jis;
     let (account_id, jis) = ReadBytes I 6 jis;
     let (other, jis) = ReadBytes I 6 jis;
     let (money, jis) = get_string I jis;
     let (abstract, jis) = get_string I jis;
     let (bal, jis) = get_string I jis;
     let (tot, jis) = get32 I jis;
     date \<leftarrow> c_array (date @ [0]);
     account_id \<leftarrow> c_array (account_id @ [0]);
     other \<leftarrow> c_array (other @ [0]);
     Some (\<lparr>trans_date = date, account = account_id, other_account = other, abstract_name = abstract,
       amount = to_amount E money, balance = to_amount E bal, total = tot\<rparr>, jis)
   }"

fun bill_loop :: "'i jin \<Rightarrow> 'f bank_env \<Rightarrow> nat \<Rightarrow> 'i \<Rightarrow> byte list list \<Rightarrow> 'f session_call list option" where
  "bill_loop I E 0 jis packs = Some []"
| "bill_loop I E (Suc n) jis [] = None"
| "bill_loop I E (Suc n) jis (pack # packs) = do {
     let ((cnt, seq, error_code, error_msg), jis) = read_head I (SetData I pack jis);
     (td, jis) \<leftarrow> read_detail I E jis;
     if uint seq = uint cnt - 1 then Some [AddDetail td]
     else if packs = [] then None
     else map_option (\<lambda>calls. AddDetail td # Recv # calls) (bill_loop I E n jis packs)
   }"

definition bill_answer :: "'i jin \<Rightarrow> 'f bank_env \<Rightarrow> byte \<Rightarrow> byte list \<Rightarrow> byte list list \<Rightarrow> 'f session_call list option" where
  "bill_answer I E junk pkt packs = do {
     (cnt, error_code, calls, jis) \<leftarrow> exchange I junk pkt packs;
     if error_code = 0 then do {
       more \<leftarrow> bill_loop I E (unat cnt) jis packs;
       Some (calls @ more)
     } else Some calls
   }"

section \<open>The commands\<close>

text \<open>
  Each \<open>Execute\<close>: \<open>cmd\<close> is its command number, \<open>packs\<close> the packets \<open>Recv\<close> gets. \<open>None\<close> is a read out of
  bounds, the use of an unset variable, or a packet that never comes.
\<close>

type_synonym attributes = "string \<Rightarrow> byte list"

definition UserLogin_Execute :: "'j jout \<Rightarrow> 'i jin \<Rightarrow> 'f bank_env \<Rightarrow> u16 \<Rightarrow> attributes \<Rightarrow> byte \<Rightarrow> byte list list \<Rightarrow> 'f session_call list option" where
  "UserLogin_Execute J I E cmd GetAttribute junk packs = do {
     let (lengthPos, jos) = start_packet J cmd;
     let jos = put_string J (GetAttribute ''name'') jos;
     encryptedPass \<leftarrow> encrypted E cmd (GetAttribute ''pass'');
     let jos = WriteBytes J encryptedPass jos;
     let pkt = finish_packet J E cmd lengthPos jos;
     (cnt, error_code, calls, jis) \<leftarrow> exchange I junk pkt packs;
     Some calls
   }"

definition OpenAccount_Execute :: "'j jout \<Rightarrow> 'i jin \<Rightarrow> 'f bank_env \<Rightarrow> u16 \<Rightarrow> attributes \<Rightarrow> byte \<Rightarrow> byte list list \<Rightarrow> 'f session_call list option" where
  "OpenAccount_Execute J I E cmd GetAttribute junk packs = do {
     let (lengthPos, jos) = start_packet J cmd;
     let jos = put_string J (GetAttribute ''name'') jos;
     encryptedPass \<leftarrow> encrypted E cmd (GetAttribute ''pass'');
     let jos = WriteBytes J encryptedPass jos;
     let jos = WriteBytes J (GetAttribute ''id'') jos;
     let jos = put_string J (GetAttribute ''money'') jos;
     let pkt = finish_packet J E cmd lengthPos jos;
     (cnt, error_code, calls, jis) \<leftarrow> exchange I junk pkt packs;
     if error_code = 0 then do {
       let (account_id, jis) = ReadBytes I 6 jis;
       let (open_date, jis) = get_string I jis;
       account_id \<leftarrow> c_array (account_id @ [0]);
       Some (calls @ [SetResponse ''account_id'' account_id, SetResponse ''open_date'' open_date])
     } else Some calls
   }"

definition Deposit_Execute :: "'j jout \<Rightarrow> 'i jin \<Rightarrow> 'f bank_env \<Rightarrow> u16 \<Rightarrow> attributes \<Rightarrow> byte \<Rightarrow> byte list list \<Rightarrow> 'f session_call list option" where
  "Deposit_Execute J I E cmd GetAttribute junk packs = do {
     let (lengthPos, jos) = start_packet J cmd;
     account_id \<leftarrow> c_bytes 6 (GetAttribute ''account_id'');
     let jos = WriteBytes J account_id jos;
     let jos = put_string J (GetAttribute ''money'') jos;
     let pkt = finish_packet J E cmd lengthPos jos;
     balance_answer I junk pkt packs
   }"

definition Withdrawal_Execute :: "'j jout \<Rightarrow> 'i jin \<Rightarrow> 'f bank_env \<Rightarrow> u16 \<Rightarrow> attributes \<Rightarrow> byte \<Rightarrow> byte list list \<Rightarrow> 'f session_call list option" where
  "Withdrawal_Execute J I E cmd GetAttribute junk packs = do {
     let (lengthPos, jos) = start_packet J cmd;
     account_id \<leftarrow> c_bytes 6 (GetAttribute ''account_id'');
     let jos = WriteBytes J account_id jos;
     encryptedPass \<leftarrow> encrypted E cmd (GetAttribute ''pass'');
     let jos = WriteBytes J encryptedPass jos;
     let jos = put_string J (GetAttribute ''money'') jos;
     let pkt = finish_packet J E cmd lengthPos jos;
     balance_answer I junk pkt packs
   }"

definition Transfer_Execute :: "'j jout \<Rightarrow> 'i jin \<Rightarrow> 'f bank_env \<Rightarrow> u16 \<Rightarrow> attributes \<Rightarrow> byte \<Rightarrow> byte list list \<Rightarrow> 'f session_call list option" where
  "Transfer_Execute J I E cmd GetAttribute junk packs = do {
     let (lengthPos, jos) = start_packet J cmd;
     account_id \<leftarrow> c_bytes 6 (GetAttribute ''account_id'');
     let jos = WriteBytes J account_id jos;
     encryptedPass \<leftarrow> encrypted E cmd (GetAttribute ''pass'');
     let jos = WriteBytes J encryptedPass jos;
     let jos = put_string J (GetAttribute ''money'') jos;
     other_account_id \<leftarrow> c_bytes 6 (GetAttribute ''other_account_id'');
     let jos = WriteBytes J other_account_id jos;
     let pkt = finish_packet J E cmd lengthPos jos;
     balance_answer I junk pkt packs
   }"

definition ChangePassword_Execute :: "'j jout \<Rightarrow> 'i jin \<Rightarrow> 'f bank_env \<Rightarrow> u16 \<Rightarrow> attributes \<Rightarrow> byte \<Rightarrow> byte list list \<Rightarrow> 'f session_call list option" where
  "ChangePassword_Execute J I E cmd GetAttribute junk packs = do {
     let (lengthPos, jos) = start_packet J cmd;
     account_id \<leftarrow> c_bytes 6 (GetAttribute ''account_id'');
     let jos = WriteBytes J account_id jos;
     encryptedPass \<leftarrow> encrypted E cmd (GetAttribute ''pass'');
     let jos = WriteBytes J encryptedPass jos;
     encryptedNew \<leftarrow> encrypted E cmd (GetAttribute ''newpass'');
     let jos = WriteBytes J encryptedNew jos;
     let pkt = finish_packet J E cmd lengthPos jos;
     (cnt, error_code, calls, jis) \<leftarrow> exchange I junk pkt packs;
     Some calls
   }"

definition QueryDayBill_Execute :: "'j jout \<Rightarrow> 'i jin \<Rightarrow> 'f bank_env \<Rightarrow> u16 \<Rightarrow> attributes \<Rightarrow> byte \<Rightarrow> byte list list \<Rightarrow> 'f session_call list option" where
  "QueryDayBill_Execute J I E cmd GetAttribute junk packs = do {
     let (lengthPos, jos) = start_packet J cmd;
     page \<leftarrow> extract_word (GetAttribute ''page'');
     let jos = put32 J page jos;
     date \<leftarrow> c_bytes 10 (GetAttribute ''date'');
     let jos = WriteBytes J date jos;
     let pkt = finish_packet J E cmd lengthPos jos;
     bill_answer I E junk pkt packs
   }"

definition QueryHistoryBill_Execute :: "'j jout \<Rightarrow> 'i jin \<Rightarrow> 'f bank_env \<Rightarrow> u16 \<Rightarrow> attributes \<Rightarrow> byte \<Rightarrow> byte list list \<Rightarrow> 'f session_call list option" where
  "QueryHistoryBill_Execute J I E cmd GetAttribute junk packs = do {
     let (lengthPos, jos) = start_packet J cmd;
     page \<leftarrow> extract_word (GetAttribute ''page'');
     let jos = put32 J page jos;
     begin_date \<leftarrow> c_bytes 10 (GetAttribute ''begin_date'');
     let jos = WriteBytes J begin_date jos;
     end_date \<leftarrow> c_bytes 10 (GetAttribute ''end_date'');
     let jos = WriteBytes J end_date jos;
     let pkt = finish_packet J E cmd lengthPos jos;
     bill_answer I E junk pkt packs
   }"

definition QueryAccountHistoryBill_Execute :: "'j jout \<Rightarrow> 'i jin \<Rightarrow> 'f bank_env \<Rightarrow> u16 \<Rightarrow> attributes \<Rightarrow> byte \<Rightarrow> byte list list \<Rightarrow> 'f session_call list option" where
  "QueryAccountHistoryBill_Execute J I E cmd GetAttribute junk packs = do {
     let (lengthPos, jos) = start_packet J cmd;
     page \<leftarrow> extract_word (GetAttribute ''page'');
     let jos = put32 J page jos;
     account_id \<leftarrow> c_bytes 6 (GetAttribute ''account_id'');
     let jos = WriteBytes J account_id jos;
     begin_date \<leftarrow> c_bytes 10 (GetAttribute ''begin_date'');
     let jos = WriteBytes J begin_date jos;
     end_date \<leftarrow> c_bytes 10 (GetAttribute ''end_date'');
     let jos = WriteBytes J end_date jos;
     let pkt = finish_packet J E cmd lengthPos jos;
     bill_answer I E junk pkt packs
   }"

section \<open>Digests and keys\<close>

text \<open>The reference definitions: half digests combined byte by byte.\<close>

definition mix_bytes :: "u16 \<Rightarrow> byte list" where
  "mix_bytes cmd = map (\<lambda>i. ucast (drop_bit (i mod 2) cmd)) [0..<8]"

definition xors :: "byte list \<Rightarrow> byte list \<Rightarrow> byte list" where
  "xors = map2 (\<lambda>x y. x XOR y)"

lemma list16:
  assumes "length h = 16"
  obtains a0 a1 a2 a3 a4 a5 a6 a7 b0 b1 b2 b3 b4 b5 b6 b7
  where "h = [a0, a1, a2, a3, a4, a5, a6, a7, b0, b1, b2, b3, b4, b5, b6, b7]"
  using assms by (auto simp: numeral_eq_Suc length_Suc_conv)

lemma eight: "[0..<8] = [0, 1, 2, 3, 4, 5, 6, 7]"
  by (simp add: upt_conv_Cons)

lemma cmd_byte_mix: "cmd_byte cmd i = ucast (drop_bit (i mod 2) cmd)"
proof -
  have "(ucast (w AND mask 8) :: byte) = ucast w" for w :: u16
    by (rule bit_word_eqI) (auto simp: bit_simps)
  then show ?thesis by (simp add: cmd_byte_def mask_eq_exp_minus_1)
qed

lemma hash_step_eq:
  "i < length h \<Longrightarrow> hash_step cmd i h = h[i := (h ! i XOR h ! (i + 8)) XOR cmd_byte cmd i]"
  by (simp add: hash_step_def)

lemma fold_hash_halves:
  assumes "length h = 16"
  shows "fold_hash cmd h = xors (xors (take 8 h) (drop 8 h)) (mix_bytes cmd) @ drop 8 h"
proof -
  obtain a0 a1 a2 a3 a4 a5 a6 a7 b0 b1 b2 b3 b4 b5 b6 b7
    where "h = [a0, a1, a2, a3, a4, a5, a6, a7, b0, b1, b2, b3, b4, b5, b6, b7]" by (rule list16 [OF assms])
  then show ?thesis
    by (simp add: fold_hash_def hash_step_eq eight cmd_byte_mix mix_bytes_def xors_def)
qed

lemma xor_twice: "((((a XOR b) XOR c) XOR b) XOR c) = (a :: byte)"
  by (rule bit_word_eqI) (auto simp: bit_simps)

text \<open>The second half of the key is the first half of the digest: what is mixed in cancels.\<close>

lemma key_step_eq:
  assumes "i + 8 < length k"
  shows "key_step cmd i k = k[i := (k ! i XOR k ! (i + 8)) XOR cmd_byte cmd i, i + 8 := k ! i]"
  using assms by (simp add: key_step_def Let_def xor_twice)

lemma fold_key_halves:
  assumes "length h = 16"
  shows "fold (key_step cmd) [0..<8] h = xors (xors (take 8 h) (drop 8 h)) (mix_bytes cmd) @ take 8 h"
proof -
  obtain a0 a1 a2 a3 a4 a5 a6 a7 b0 b1 b2 b3 b4 b5 b6 b7
    where "h = [a0, a1, a2, a3, a4, a5, a6, a7, b0, b1, b2, b3, b4, b5, b6, b7]" by (rule list16 [OF assms])
  then show ?thesis by (simp add: key_step_eq eight cmd_byte_mix mix_bytes_def xors_def)
qed

section \<open>Requests written\<close>

text \<open>\<open>appended J j xs j'\<close>: the bytes before the position are those before plus \<open>xs\<close>.\<close>

definition appended :: "'j jout \<Rightarrow> 'j \<Rightarrow> byte list \<Rightarrow> 'j \<Rightarrow> bool" where
  "appended J j xs j' \<longleftrightarrow> Length J j' \<le> length (Data J j') \<and> Length J j' = Length J j + length xs
     \<and> take (Length J j') (Data J j') = take (Length J j) (Data J j) @ xs"

definition sound :: "'j jout \<Rightarrow> 'j \<Rightarrow> bool" where
  "sound J j \<longleftrightarrow> Length J j \<le> length (Data J j)"

lemma appended_refl: "sound J j \<Longrightarrow> appended J j [] j"
  by (simp add: appended_def sound_def)

lemma appended_sound: "appended J j xs j' \<Longrightarrow> sound J j'"
  by (simp add: appended_def sound_def)

lemma appended_trans: "appended J j xs j' \<Longrightarrow> appended J j' ys j'' \<Longrightarrow> appended J j (xs @ ys) j''"
  by (auto simp: appended_def)

lemma appended_writes:
  assumes "jos_laws J b16 b32 bs" "appended J j xs j'"
  shows "appended J j (xs @ ys) (WriteBytes J ys j')"
    "appended J j (xs @ b16 w) (put16 J w j')"
    "appended J j (xs @ b32 v) (put32 J v j')"
    "appended J j (xs @ bs s) (put_string J s j')"
proof -
  have *: "written J zs j' j'' \<Longrightarrow> appended J j (xs @ zs) j''" for zs j''
    using assms(2) by (auto simp: written_def appended_def)
  have s: "Length J j' \<le> length (Data J j')" using assms(2) by (simp add: appended_def)
  show "appended J j (xs @ ys) (WriteBytes J ys j')" "appended J j (xs @ b16 w) (put16 J w j')"
    "appended J j (xs @ b32 v) (put32 J v j')" "appended J j (xs @ bs s) (put_string J s j')"
    using assms(1) s by (auto simp: jos_laws_def intro!: *)
qed

lemma jos_Skip:
  "jos_laws J b16 b32 bs \<Longrightarrow> Length J j \<le> length (Data J j) \<Longrightarrow>
    Length J (Skip J n j) = Length J j + n \<and> Length J j + n \<le> length (Data J (Skip J n j))
    \<and> take (Length J j) (Data J (Skip J n j)) = take (Length J j) (Data J j)"
  by (simp add: jos_laws_def)

lemma start_packet_ok:
  assumes "jos_laws J b16 b32 bs" "start_packet J cmd = (lengthPos, j)"
  shows "sound J j" "lengthPos = 2" "Length J j = 4" "take 2 (Data J j) = b16 cmd"
proof -
  have new: "sound J (jos_new J)" "Length J (jos_new J) = 0" and two: "length (b16 cmd) = 2"
    using assms(1) by (auto simp: jos_laws_def sound_def)
  note put = appended_writes(2) [OF assms(1) appended_refl [OF new(1)], of cmd]
  let ?j = "put16 J cmd (jos_new J)"
  from put new two have p: "Length J ?j = 2" "2 \<le> length (Data J ?j)" "take 2 (Data J ?j) = b16 cmd"
    by (auto simp: appended_def numeral_2_eq_2)
  have sk: "Length J (Skip J 2 ?j) = Length J ?j + 2 \<and> Length J ?j + 2 \<le> length (Data J (Skip J 2 ?j))
      \<and> take (Length J ?j) (Data J (Skip J 2 ?j)) = take (Length J ?j) (Data J ?j)"
    by (rule jos_Skip [OF assms(1)]) (simp add: p)
  have j: "lengthPos = Length J ?j" "j = Skip J 2 ?j" using assms(2) by (auto simp: start_packet_def Let_def)
  show "sound J j" "lengthPos = 2" "Length J j = 4" "take 2 (Data J j) = b16 cmd"
    using sk p unfolding j sound_def by auto
qed

text \<open>A packet around the body \<open>xs\<close>.\<close>

definition framed :: "'f bank_env \<Rightarrow> (u16 \<Rightarrow> byte list) \<Rightarrow> u16 \<Rightarrow> byte list \<Rightarrow> byte list" where
  "framed E b16 cmd xs =
     (let front = b16 cmd @ b16 (word_of_int (int (length xs) + 12 - int (head_size E))) @ xs;
          h = md5 E front
      in front @ xors (xors (take 8 h) (drop 8 h)) (mix_bytes cmd))"

lemma xors_length: "length (xors xs ys) = min (length xs) (length ys)"
  by (simp add: xors_def)

lemma finish_packet_ok:
  assumes laws: "jos_laws J b16 b32 bs" and start: "start_packet J cmd = (lengthPos, j)"
    and body: "appended J j xs j'" and digest: "\<And>ys. length (md5 E ys) = 16"
  shows "finish_packet J E cmd lengthPos j' = framed E b16 cmd xs"
proof -
  note st = start_packet_ok [OF laws start]
  have len: "Length J j' = 4 + length xs" "4 + length xs \<le> length (Data J j')"
    "take (4 + length xs) (Data J j') = take 4 (Data J j) @ xs"
    using body st by (auto simp: appended_def)
  have two: "length (b16 w) = 2" for w using laws by (simp add: jos_laws_def)
  define w :: u16 where "w = word_of_int (int (length xs) + 12 - int (head_size E))"
  let ?r = "Reposition J 2 j'"
  have r: "Length J ?r = 2" "Data J ?r = Data J j'" using laws len(2) by (auto simp: jos_laws_def)
  have wr: "written J (b16 w) ?r (put16 J w ?r)" using laws r len(2) by (auto simp: jos_laws_def)
  let ?p = "put16 J w ?r"
  have d: "take 4 (Data J ?p) = b16 cmd @ b16 w" "drop 4 (Data J ?p) = drop 4 (Data J j')" "Length J ?p = 4"
      "4 \<le> length (Data J ?p)"
    using wr r two len(2) st(4) arg_cong [OF len(3), of "take 2"] st(1,3)
    by (auto simp: written_def sound_def min_def)
  have same: "length (Data J ?p) = length (Data J j')"
    using arg_cong [OF d(2), of length] d(4) len(2) by simp
  let ?t = "Reposition J (4 + length xs) ?p"
  have t: "Length J ?t = 4 + length xs" "Data J ?t = Data J ?p" using laws len(2) same by (auto simp: jos_laws_def)
  have body': "take (length xs) (drop 4 (Data J j')) = xs"
    using arg_cong [OF len(3), of "drop 4"] len(2) st(1,3) by (simp add: drop_take sound_def)
  have front: "take (Length J ?t) (Data J ?t) = b16 cmd @ b16 w @ xs"
    unfolding t take_add d body' by simp
  let ?h = "fold_hash cmd (md5 E (b16 cmd @ b16 w @ xs))"
  have "appended J ?t [] ?t" using t len(2) same by (intro appended_refl) (simp add: sound_def)
  from appended_writes(1) [OF laws this, of "take 8 ?h"]
  have "take (Length J (WriteBytes J (take 8 ?h) ?t)) (Data J (WriteBytes J (take 8 ?h) ?t)) = b16 cmd @ b16 w @ xs @ take 8 ?h"
    using front unfolding appended_def by (metis append_assoc self_append_conv2)
  moreover have "finish_packet J E cmd lengthPos j'
      = take (Length J (WriteBytes J (take 8 ?h) ?t)) (Data J (WriteBytes J (take 8 ?h) ?t))"
    using front st(2) len(1) by (simp add: finish_packet_def Let_def w_def algebra_simps)
  ultimately show ?thesis
    by (simp add: framed_def Let_def w_def fold_hash_halves [OF digest] xors_length digest mix_bytes_def)
qed

section \<open>Contents of a request\<close>

text \<open>The body of each command: its fields in the order of the protocol.\<close>

datatype bank_command = CMD_LOGIN | CMD_OPEN_ACCOUNT | CMD_DEPOSIT | CMD_WITHDRAW | CMD_TRANSFER | CMD_CHANGE_PASSWORD
  | CMD_DAY_BILL | CMD_HISTORY_BILL | CMD_ACCOUNT_HISTORY_BILL

definition fixed :: "nat \<Rightarrow> byte list \<Rightarrow> byte list" where
  "fixed n s = take n (s @ [0])"

fun fields_of :: "(u32 \<Rightarrow> byte list) \<Rightarrow> (byte list \<Rightarrow> byte list) \<Rightarrow> (byte list \<Rightarrow> byte list) \<Rightarrow> attributes \<Rightarrow> bank_command \<Rightarrow> byte list" where
  "fields_of b32 bs crypt a CMD_LOGIN = bs (a ''name'') @ crypt (a ''pass'')"
| "fields_of b32 bs crypt a CMD_OPEN_ACCOUNT = bs (a ''name'') @ crypt (a ''pass'') @ a ''id'' @ bs (a ''money'')"
| "fields_of b32 bs crypt a CMD_DEPOSIT = fixed 6 (a ''account_id'') @ bs (a ''money'')"
| "fields_of b32 bs crypt a CMD_WITHDRAW = fixed 6 (a ''account_id'') @ crypt (a ''pass'') @ bs (a ''money'')"
| "fields_of b32 bs crypt a CMD_TRANSFER = fixed 6 (a ''account_id'') @ crypt (a ''pass'') @ bs (a ''money'') @ fixed 6 (a ''other_account_id'')"
| "fields_of b32 bs crypt a CMD_CHANGE_PASSWORD = fixed 6 (a ''account_id'') @ crypt (a ''pass'') @ crypt (a ''newpass'')"
| "fields_of b32 bs crypt a CMD_DAY_BILL = b32 (the (extract_word (a ''page''))) @ fixed 10 (a ''date'')"
| "fields_of b32 bs crypt a CMD_HISTORY_BILL = b32 (the (extract_word (a ''page''))) @ fixed 10 (a ''begin_date'') @ fixed 10 (a ''end_date'')"
| "fields_of b32 bs crypt a CMD_ACCOUNT_HISTORY_BILL =
    b32 (the (extract_word (a ''page''))) @ fixed 6 (a ''account_id'') @ fixed 10 (a ''begin_date'') @ fixed 10 (a ''end_date'')"

fun fixed_fields :: "bank_command \<Rightarrow> (string \<times> nat) list" where
  "fixed_fields CMD_LOGIN = [(''pass'', 16)]"
| "fixed_fields CMD_OPEN_ACCOUNT = [(''pass'', 16)]"
| "fixed_fields CMD_DEPOSIT = [(''account_id'', 6)]"
| "fixed_fields CMD_WITHDRAW = [(''account_id'', 6), (''pass'', 16)]"
| "fixed_fields CMD_TRANSFER = [(''account_id'', 6), (''pass'', 16), (''other_account_id'', 6)]"
| "fixed_fields CMD_CHANGE_PASSWORD = [(''account_id'', 6), (''pass'', 16), (''newpass'', 16)]"
| "fixed_fields CMD_DAY_BILL = [(''date'', 10)]"
| "fixed_fields CMD_HISTORY_BILL = [(''begin_date'', 10), (''end_date'', 10)]"
| "fixed_fields CMD_ACCOUNT_HISTORY_BILL = [(''account_id'', 6), (''begin_date'', 10), (''end_date'', 10)]"

definition paged :: "bank_command \<Rightarrow> bool" where
  "paged c \<longleftrightarrow> c \<in> {CMD_DAY_BILL, CMD_HISTORY_BILL, CMD_ACCOUNT_HISTORY_BILL}"

fun execute :: "bank_command \<Rightarrow> 'j jout \<Rightarrow> 'i jin \<Rightarrow> 'f bank_env \<Rightarrow> u16 \<Rightarrow> attributes \<Rightarrow> byte \<Rightarrow> byte list list \<Rightarrow> 'f session_call list option" where
  "execute CMD_LOGIN = UserLogin_Execute"
| "execute CMD_OPEN_ACCOUNT = OpenAccount_Execute"
| "execute CMD_DEPOSIT = Deposit_Execute"
| "execute CMD_WITHDRAW = Withdrawal_Execute"
| "execute CMD_TRANSFER = Transfer_Execute"
| "execute CMD_CHANGE_PASSWORD = ChangePassword_Execute"
| "execute CMD_DAY_BILL = QueryDayBill_Execute"
| "execute CMD_HISTORY_BILL = QueryHistoryBill_Execute"
| "execute CMD_ACCOUNT_HISTORY_BILL = QueryAccountHistoryBill_Execute"

text \<open>What a command has done once it returns: one packet sent, then only receiving and reporting.\<close>

definition sends_only :: "byte list \<Rightarrow> 'f session_call list \<Rightarrow> bool" where
  "sends_only pkt calls \<longleftrightarrow> (\<exists>rest. calls = Send pkt # Recv # rest \<and> (\<forall>p. Send p \<notin> set rest))"

lemma exchange_sends: "exchange I junk pkt packs = Some (cnt, ec, calls, jis) \<Longrightarrow> sends_only pkt calls"
  by (cases packs) (auto simp: exchange_def sends_only_def split: prod.splits Option.bind_splits)

lemma sends_only_append: "sends_only pkt calls \<Longrightarrow> (\<forall>p. Send p \<notin> set later) \<Longrightarrow> sends_only pkt (calls @ later)"
  by (auto simp: sends_only_def)

lemma bill_loop_sends: "bill_loop I E n jis packs = Some calls \<Longrightarrow> Send p \<notin> set calls"
  by (induction I E n jis packs arbitrary: calls rule: bill_loop.induct)
    (auto split: prod.splits Option.bind_splits if_splits)

lemma answers_send:
  "balance_answer I junk pkt packs = Some calls \<Longrightarrow> sends_only pkt calls"
  "bill_answer I E junk pkt packs = Some calls \<Longrightarrow> sends_only pkt calls"
  by (auto simp: balance_answer_def bill_answer_def exchange_sends intro!: sends_only_append dest: bill_loop_sends
      split: prod.splits Option.bind_splits if_splits)

lemma finish_body:
  assumes "jos_laws J b16 b32 bs" "start_packet J cmd = (lengthPos, j)" "\<And>ys. length (md5 E ys) = 16"
    "appended J j xs j'" "xs = ys"
  shows "finish_packet J E cmd lengthPos j' = framed E b16 cmd ys"
  using finish_packet_ok [OF assms(1,2,4,3)] assms(5) by simp

lemma encrypted_fixed: "encrypted E cmd s = Some x \<Longrightarrow> x = idea E (idea_key E cmd) (fixed 16 s)"
  by (auto simp: encrypted_def c_bytes_def fixed_def split: if_splits)

lemma c_bytes_fixed: "c_bytes n s = Some x \<Longrightarrow> x = fixed n s"
  by (auto simp: c_bytes_def fixed_def split: if_splits)

lemmas Execute_defs = UserLogin_Execute_def OpenAccount_Execute_def Deposit_Execute_def Withdrawal_Execute_def
  Transfer_Execute_def ChangePassword_Execute_def QueryDayBill_Execute_def QueryHistoryBill_Execute_def
  QueryAccountHistoryBill_Execute_def

text \<open>The shape of a packet, as its receiver can check it.\<close>

lemma framed_shape:
  assumes "\<And>w. length (b16 w) = 2" "\<And>ys. length (md5 E ys) = 16"
    and "pkt = framed E b16 cmd xs"
  shows "pkt = b16 cmd @ b16 (word_of_int (int (length pkt) - int (head_size E))) @ xs @ drop (length pkt - 8) pkt"
    "drop (length pkt - 8) pkt = take 8 (fold_hash cmd (md5 E (take (length pkt - 8) pkt)))"
    "length pkt = length xs + 12"
proof -
  define front where "front = b16 cmd @ b16 (word_of_int (int (length xs) + 12 - int (head_size E))) @ xs"
  define t where "t = xors (xors (take 8 (md5 E front)) (drop 8 (md5 E front))) (mix_bytes cmd)"
  have p: "pkt = front @ t" by (simp add: assms(3) framed_def front_def t_def Let_def)
  have t: "length t = 8" by (simp add: t_def xors_length assms(2) mix_bytes_def)
  have f: "length front = length xs + 4" by (simp add: front_def assms(1))
  show len: "length pkt = length xs + 12" by (simp add: p t f)
  show "pkt = b16 cmd @ b16 (word_of_int (int (length pkt) - int (head_size E))) @ xs @ drop (length pkt - 8) pkt"
    by (simp add: p t) (simp add: front_def assms(1) add.commute)
  show "drop (length pkt - 8) pkt = take 8 (fold_hash cmd (md5 E (take (length pkt - 8) pkt)))"
    by (simp add: p t fold_hash_halves assms(2) t_def [symmetric])
qed

lemma sends_only_cong: "sends_only p calls \<Longrightarrow> p = q \<Longrightarrow> sends_only q calls"
  by simp

lemma execute_framed:
  assumes laws: "jos_laws J b16 b32 bs" and digest: "\<And>ys. length (md5 E ys) = 16"
    and run: "execute c J I E cmd GetAttribute junk packs = Some calls"
  shows "sends_only (framed E b16 cmd (fields_of b32 bs (idea E (idea_key E cmd) \<circ> fixed 16) GetAttribute c)) calls"
proof -
  obtain lengthPos j where st: "start_packet J cmd = (lengthPos, j)" by force
  note packet = finish_body [OF laws st digest] and writes = appended_writes [OF laws]
    and start = appended_refl [OF start_packet_ok(1) [OF laws st]]
  show ?thesis
    using run
    by (cases c; simp add: Execute_defs st Let_def split: Option.bind_splits if_splits prod.splits)
      (auto dest!: encrypted_fixed c_bytes_fixed exchange_sends answers_send intro!: sends_only_append;
       (erule sends_only_cong, rule packet, (rule writes start)+, simp))+
qed

text \<open>A packet of a bill: its head has count \<open>cnt\<close> and number \<open>seq\<close>, and a transaction follows.\<close>

definition bill_pack :: "'i jin \<Rightarrow> 'f bank_env \<Rightarrow> u16 \<Rightarrow> u16 \<Rightarrow> 'f detail \<Rightarrow> byte list \<Rightarrow> bool" where
  "bill_pack I E cnt seq d pack \<longleftrightarrow>
     (\<forall>jis. \<exists>ec msg jis' jis''. read_head I (SetData I pack jis) = ((cnt, seq, ec, msg), jis')
        \<and> read_detail I E jis' = Some (d, jis''))"

lemma bill_loop_all:
  assumes "ds \<noteq> []" "length ps = length ds" "k + length ds = unat cnt"
    "\<forall>i<length ds. bill_pack I E cnt (word_of_nat (k + i)) (ds ! i) (ps ! i)"
  shows "bill_loop I E (length ds) jis (ps @ rest)
    = Some (AddDetail (hd ds) # concat (map (\<lambda>d. [Recv, AddDetail d]) (tl ds)))"
  using assms
proof (induction ds arbitrary: ps k jis)
  case (Cons d ds)
  obtain p ps' where ps: "ps = p # ps'" using Cons.prems(2) by (cases ps) auto
  obtain ec msg jis' jis'' where rd: "read_head I (SetData I p jis) = ((cnt, word_of_nat k, ec, msg), jis')"
    "read_detail I E jis' = Some (d, jis'')"
    using Cons.prems(4) ps unfolding bill_pack_def by fastforce
  have "k < 2 ^ 16" using Cons.prems(3) unsigned_less [of cnt, where 'a = nat] by simp
  then have k: "uint (word_of_nat k :: u16) = int k" by (simp add: unsigned_of_nat take_bit_nat_eq_self)
  have "int (k + length (d # ds)) = int (unat cnt)" using Cons.prems(3) by simp
  then have c: "uint cnt = int k + int (length ds) + 1" by simp
  show ?case
  proof (cases ds)
    case Nil
    with rd k c ps show ?thesis by simp
  next
    case (Cons d' ds')
    have "\<forall>i<length ds. bill_pack I E cnt (word_of_nat (Suc k + i)) (ds ! i) (ps' ! i)"
    proof (intro allI impI)
      fix i assume "i < length ds"
      with Cons.prems(4) [rule_format, of "Suc i"] ps
      show "bill_pack I E cnt (word_of_nat (Suc k + i)) (ds ! i) (ps' ! i)" by simp
    qed
    with Cons.prems(2,3) ps Cons have "bill_loop I E (length ds) jis' (ps' @ rest)
        = Some (AddDetail (hd ds) # concat (map (\<lambda>d. [Recv, AddDetail d]) (tl ds)))" for jis'
      by (intro Cons.IH [where k = "Suc k"]) auto
    moreover have "ps' \<noteq> []" "int k \<noteq> uint cnt - 1" using c Cons.prems(2,3) ps Cons by auto
    ultimately show ?thesis using rd k ps Cons by simp
  qed
qed simp

section \<open>A memory stream\<close>

definition mem_write :: "byte list \<Rightarrow> byte list \<times> nat \<Rightarrow> byte list \<times> nat" where
  "mem_write xs j = (take (snd j) (fst j) @ xs @ drop (snd j + length xs) (fst j), snd j + length xs)"

definition mem_jout :: "(byte list \<times> nat) jout" where
  "mem_jout = \<lparr>jos_new = ([], 0), Data = fst, Length = snd,
     Skip = (\<lambda>n j. (fst j @ replicate (snd j + n - length (fst j)) 0, snd j + n)),
     Reposition = (\<lambda>n j. (fst j, n)), WriteBytes = mem_write,
     put16 = (\<lambda>w. mem_write (le_bytes 2 w)), put32 = (\<lambda>w. mem_write (le_bytes 4 w)),
     put_string = (\<lambda>s. mem_write (le_bytes 2 (word_of_nat (length s) :: u16) @ s))\<rparr>"

lemma mem_written: "snd j \<le> length (fst j) \<Longrightarrow> written mem_jout xs j (mem_write xs j)"
  by (cases j) (auto simp: written_def mem_jout_def mem_write_def)

lemma mem_laws: "jos_laws mem_jout (le_bytes 2) (le_bytes 4) (\<lambda>s. le_bytes 2 (word_of_nat (length s) :: u16) @ s)"
  using mem_written by (auto simp: jos_laws_def mem_jout_def)

definition mem_jin :: "(byte list) jin" where
  "mem_jin = \<lparr>jis_new = (\<lambda>p. p), SetData = (\<lambda>p i. p), jis_Skip = drop,
     get16 = (\<lambda>i. (le_word (take 2 i), drop 2 i)), get_int16 = (\<lambda>i. (le_word (take 2 i), drop 2 i)),
     get32 = (\<lambda>i. (le_word (take 4 i), drop 4 i)),
     get_string = (\<lambda>i. let n = unat (le_word (take 2 i) :: u16) in (take n (drop 2 i), drop (2 + n) i)),
     ReadBytes = (\<lambda>n i. (take n i, drop n i))\<rparr>"

definition mem_env :: "nat bank_env" where
  "mem_env = \<lparr>md5 = (\<lambda>xs. take 16 (xs @ replicate 16 0)), idea = (\<lambda>k x. xors k x), head_size = 4, to_amount = length\<rparr>"

lemma mem_md5: "length (md5 mem_env ys) = 16"
  by (simp add: mem_env_def)

section \<open>Properties\<close>

text \<open>C22: Every command that returns has sent exactly one packet, before receiving anything. Its receiver can
  check it: the command number, the length of what follows the head, the fields in the order of the
  protocol, and a tail that is the folded digest of everything before it. This is for all streams, digests
  of sixteen bytes and ciphers.\<close>
theorem requests_are_framed:
  assumes "jos_laws J b16 b32 bs" "\<forall>ys. length (md5 E ys) = 16"
    "execute c J I E cmd GetAttribute junk packs = Some calls"
  shows "\<exists>pkt. sends_only pkt calls
    \<and> pkt = b16 cmd @ b16 (word_of_int (int (length pkt) - int (head_size E)))
        @ fields_of b32 bs (idea E (idea_key E cmd) \<circ> fixed 16) GetAttribute c @ drop (length pkt - 8) pkt
    \<and> drop (length pkt - 8) pkt = take 8 (fold_hash cmd (md5 E (take (length pkt - 8) pkt)))"
proof -
  let ?pkt = "framed E b16 cmd (fields_of b32 bs (idea E (idea_key E cmd) \<circ> fixed 16) GetAttribute c)"
  have two: "\<And>w. length (b16 w) = 2" using assms(1) by (simp add: jos_laws_def)
  have digest: "\<And>ys. length (md5 E ys) = 16" using assms(2) by simp
  show ?thesis
    using execute_framed [OF assms(1) digest assms(3)] framed_shape(1,2) [where ?b16.0 = b16, OF two digest refl]
    by blast
qed

text \<open>The key that encrypts a password holds no secret: it is computed from the command number alone, and
  the number that is mixed into its second half twice cancels, so that this half is the first half of the
  digest unchanged.\<close>
theorem key_of_command:
  assumes "\<forall>ys. length (md5 E ys) = 16"
  shows "idea_key E cmd = (let h = md5 E [ucast (drop_bit 8 cmd AND 0xff), ucast (cmd AND 0xff)]
    in xors (xors (take 8 h) (drop 8 h)) (mix_bytes cmd) @ take 8 h)"
  unfolding Let_def idea_key_def using fold_key_halves assms by simp

text \<open>C27: A bill of \<open>cnt\<close> packets is reported completely and in order, with one \<open>Recv\<close> between two packets and
  none after the last; whatever follows the last packet is left unread.\<close>
theorem bill_reported:
  assumes "exchange I junk pkt (ps @ rest) = Some (cnt, 0, calls, jis)"
    "ds \<noteq> []" "length ps = length ds" "length ds = unat cnt"
    "\<forall>i<length ds. bill_pack I E cnt (word_of_nat i) (ds ! i) (ps ! i)"
  shows "bill_answer I E junk pkt (ps @ rest)
    = Some (calls @ AddDetail (hd ds) # concat (map (\<lambda>d. [Recv, AddDetail d]) (tl ds)))"
  using assms bill_loop_all [of ds ps 0 cnt I E jis rest] by (simp add: bill_answer_def)

text \<open>A page is extracted from every text that is not blank: a text that does not start with a number gives
  zero, one that is out of range the greatest value.\<close>

abbreviation blank :: "byte list \<Rightarrow> bool" where
  "blank s \<equiv> \<forall>c \<in> set s. c \<in> {9, 10, 11, 12, 13, 32}"

lemma extract_word_None: "extract_word s = None \<longleftrightarrow> blank s"
  by (simp add: extract_word_def Let_def)


section \<open>Instances\<close>

definition login_attributes :: attributes where
  "login_attributes = (\<lambda>f. if f = ''name'' then [65] else replicate 15 49)"

definition refusal :: "byte list" where
  "refusal = replicate 8 0 @ [1, 0] @ replicate 30 0"

theorem requests_are_framed_witness:
  "\<exists>pkt :: byte list. sends_only pkt (the (execute CMD_LOGIN mem_jout mem_jin mem_env 1 login_attributes 0 [refusal]))
    \<and> take 2 pkt = le_bytes 2 (1 :: u16)"
proof -
  have "execute CMD_LOGIN mem_jout mem_jin mem_env 1 login_attributes 0 [refusal] \<noteq> None"
    by (simp add: Execute_defs login_attributes_def encrypted_def c_bytes_def exchange_def read_head_def mem_jin_def
        refusal_def c_array_def split: prod.splits)
  then have "execute CMD_LOGIN mem_jout mem_jin mem_env 1 login_attributes 0 [refusal]
      = Some (the (execute CMD_LOGIN mem_jout mem_jin mem_env 1 login_attributes 0 [refusal]))" by simp
  from requests_are_framed [OF mem_laws _ this] mem_md5 obtain pkt where
    "sends_only pkt (the (execute CMD_LOGIN mem_jout mem_jin mem_env 1 login_attributes 0 [refusal]))"
    "\<exists>rest. pkt = le_bytes 2 (1 :: u16) @ rest" by blast
  then show ?thesis by (auto simp: numeral_2_eq_2)
qed

theorem key_of_command_witness: "drop 8 (idea_key mem_env 7) = [0, 7, 0, 0, 0, 0, 0, 0]"
proof -
  have "length (md5 mem_env [ucast (drop_bit 8 (7 :: u16) AND 0xff), ucast ((7 :: u16) AND 0xff)]) = 16" by (rule mem_md5)
  then have "drop 8 (idea_key mem_env 7) = take 8 (md5 mem_env [0, 7])"
    using key_of_command [of mem_env 7] mem_md5 by (simp add: Let_def xors_length mix_bytes_def)
  also have "\<dots> = [0, 7, 0, 0, 0, 0, 0, 0]" by (simp add: mem_env_def numeral_eq_Suc)
  finally show ?thesis .
qed

definition bill_page :: "u16 \<Rightarrow> byte list" where
  "bill_page seq = replicate 4 0 @ [2, 0] @ le_bytes 2 seq @ replicate 32 0
     @ replicate 19 65 @ replicate 6 66 @ replicate 6 67 @ replicate 6 0 @ [1, 0, 0, 0]"

definition bill_line :: "nat detail" where
  "bill_line = \<lparr>trans_date = replicate 19 65, account = replicate 6 66, other_account = replicate 6 67,
     abstract_name = [], amount = 0, balance = 0, total = 1\<rparr>"

lemma bill_page_read:
  "read_head mem_jin (bill_page 0) = ((2, 0, 0, replicate 30 0), drop 40 (bill_page 0))"
  "read_head mem_jin (bill_page 1) = ((2, 1, 0, replicate 30 0), drop 40 (bill_page 0))"
  "read_detail mem_jin mem_env (drop 40 (bill_page 0)) = Some (bill_line, [])"
  by code_simp+

lemma bill_page_packs: "bill_pack mem_jin mem_env 2 0 bill_line (bill_page 0)"
  "bill_pack mem_jin mem_env 2 1 bill_line (bill_page 1)"
proof -
  have "SetData mem_jin p jis = p" for p jis by (simp add: mem_jin_def)
  then show "bill_pack mem_jin mem_env 2 0 bill_line (bill_page 0)" "bill_pack mem_jin mem_env 2 1 bill_line (bill_page 1)"
    by (simp_all add: bill_pack_def bill_page_read)
qed

theorem bill_reported_witness:
  "\<exists>calls. bill_answer mem_jin mem_env 0 [9] [bill_page 0, bill_page 1]
    = Some (calls @ [AddDetail bill_line, Recv, AddDetail bill_line])"
proof -
  have "jis_new mem_jin p = p" for p by (simp add: mem_jin_def)
  then have x: "exchange mem_jin 0 [9] ([bill_page 0, bill_page 1] @ [])
      = Some (2, 0, [Send [9], Recv, SetErrorCode 0, SetErrorMsg []], drop 40 (bill_page 0))"
    by (simp add: exchange_def bill_page_read c_array_def numeral_eq_Suc)
  from bill_reported [OF x, of "[bill_line, bill_line]" mem_env] bill_page_packs show ?thesis
    by (auto simp: nth_Cons' less_Suc_eq)
qed

lemma refusal_head: "read_head mem_jin (jis_new mem_jin refusal) = ((0, 0, 1, replicate 30 0), [])"
  by code_simp


end
