(* ===== verification/EventLoop.thy ===== *)
theory EventLoop
  imports Main
begin

text \<open>
  The event loop of \<open>muduo/net/EventLoop.cc\<close>, on which the proxy runs: one thread polls, handles events and
  calls the functors other threads (and its own callbacks) have queued; an eventfd wakes it up. The
  thread of the loop and the others interleave; each step is what a thread does between two points
  at which another thread can see a difference. Functors are values, and calling one is a list of operations
  on the loop chosen by the environment.
\<close>

section \<open>State\<close>

text \<open>
  Where the thread of the loop is. \<open>Handling w k\<close>: the wakeup channel (if \<open>w\<close>) and \<open>k\<close> other active channels are
  still to be handled. \<open>Calling fs\<close>: the functors of the local vector not called yet.
\<close>

datatype 'f stage = Idle | Polling | Handling bool nat | Swapping | Calling "'f list"

text \<open>
  Below \<open>eventfd\<close> (the counter of \<open>wakeupFd_\<close>) are components of the model: \<open>waking\<close> counts the threads between
  \<open>push_back\<close> (or the assignment to \<open>quit_\<close>) and \<open>wakeup\<close>, \<open>early\<close> says that a functor was queued by the thread of
  the loop outside \<open>loop\<close> since the last swap, and the others record what was queued and called.
\<close>

record 'f event_loop =
  threadId :: nat
  looping :: bool
  quitting :: bool
  eventHandling :: bool
  callingPendingFunctors :: bool
  pendingFunctors :: "'f list"
  eventfd :: nat
  stage :: "'f stage"
  waking :: nat
  early :: bool
  queued :: "'f list"
  executed :: "'f list"
  direct :: "'f list"

definition new_event_loop :: "nat \<Rightarrow> 'f event_loop" where
  "new_event_loop tid = \<lparr>threadId = tid, looping = False, quitting = False, eventHandling = False,
     callingPendingFunctors = False, pendingFunctors = [], eventfd = 0, stage = Idle, waking = 0,
     early = False, queued = [], executed = [], direct = []\<rparr>"

section \<open>Operations\<close>

definition isInLoopThread :: "nat \<Rightarrow> 'f event_loop \<Rightarrow> bool" where
  "isInLoopThread tid s \<longleftrightarrow> threadId s = tid"

text \<open>An eventfd holds at most \<open>2 ^ 64 - 2\<close>; a write that would exceed it fails, the descriptor does not block.\<close>

definition wakeup :: "'f event_loop \<Rightarrow> 'f event_loop" where
  "wakeup s = (if eventfd s + 1 \<le> 2 ^ 64 - 2 then s\<lparr>eventfd := eventfd s + 1\<rparr> else s)"

definition loop_handleRead :: "'f event_loop \<Rightarrow> 'f event_loop" where
  "loop_handleRead s = s\<lparr>eventfd := 0\<rparr>"

definition push_functor :: "'f \<Rightarrow> 'f event_loop \<Rightarrow> 'f event_loop" where
  "push_functor f s = s\<lparr>pendingFunctors := pendingFunctors s @ [f], queued := queued s @ [f]\<rparr>"

definition queueInLoop :: "nat \<Rightarrow> 'f \<Rightarrow> 'f event_loop \<Rightarrow> 'f event_loop" where
  "queueInLoop tid f s =
     (let s = push_functor f s
      in if \<not> isInLoopThread tid s \<or> callingPendingFunctors s then wakeup s else s)"

definition runInLoop :: "nat \<Rightarrow> 'f \<Rightarrow> 'f event_loop \<Rightarrow> 'f event_loop" where
  "runInLoop tid f s =
     (if isInLoopThread tid s then s\<lparr>direct := direct s @ [f]\<rparr> else queueInLoop tid f s)"

definition quit :: "nat \<Rightarrow> 'f event_loop \<Rightarrow> 'f event_loop" where
  "quit tid s =
     (let s = s\<lparr>quitting := True\<rparr>
      in if \<not> isInLoopThread tid s then wakeup s else s)"

text \<open>What a callback does in the thread of the loop.\<close>

datatype 'f op = QueueInLoop 'f | RunInLoop 'f | Quit

primrec perform :: "'f op \<Rightarrow> 'f event_loop \<Rightarrow> 'f event_loop" where
  "perform (QueueInLoop f) s = queueInLoop (threadId s) f s"
| "perform (RunInLoop f) s = runInLoop (threadId s) f s"
| "perform Quit s = quit (threadId s) s"

section \<open>Steps\<close>

text \<open>The condition of the loop, and what follows it.\<close>

definition loop_while :: "'f event_loop \<Rightarrow> 'f event_loop" where
  "loop_while s = (if quitting s then s\<lparr>looping := False, stage := Idle\<rparr> else s\<lparr>stage := Polling\<rparr>)"

text \<open>
  The steps of the thread of the loop, then those of the others. \<open>Poll k\<close>: the poll returns with \<open>k\<close> active channels
  beside the wakeup channel, which is active whenever the counter is positive.
\<close>

datatype 'f label =
    Start | Poll nat | HandleRead | HandleEvent "'f op list" | HandleDone | Swap | Call "'f op list" | Finish
  | Before "'f op list" | Enqueue 'f | ForeignQuit | Wake

definition loop_label :: "'f label \<Rightarrow> bool" where
  "loop_label l \<longleftrightarrow> (case l of Before ops \<Rightarrow> False | Enqueue f \<Rightarrow> False | ForeignQuit \<Rightarrow> False | Wake \<Rightarrow> False | _ \<Rightarrow> True)"

fun estep :: "'f label \<Rightarrow> 'f event_loop \<Rightarrow> 'f event_loop option" where
  "estep Start s =
     (if stage s = Idle \<and> \<not> looping s then Some (loop_while (s\<lparr>looping := True, quitting := False\<rparr>)) else None)"
| "estep (Poll k) s =
     (if stage s = Polling then Some (s\<lparr>eventHandling := True, stage := Handling (0 < eventfd s) k\<rparr>) else None)"
| "estep HandleRead s =
     (case stage s of Handling True k \<Rightarrow> Some (loop_handleRead (s\<lparr>stage := Handling False k\<rparr>)) | _ \<Rightarrow> None)"
| "estep (HandleEvent ops) s =
     (case stage s of Handling w (Suc k) \<Rightarrow> Some (fold perform ops (s\<lparr>stage := Handling w k\<rparr>)) | _ \<Rightarrow> None)"
| "estep HandleDone s =
     (if stage s = Handling False 0 then Some (s\<lparr>eventHandling := False, callingPendingFunctors := True, stage := Swapping\<rparr>)
      else None)"
| "estep Swap s =
     (if stage s = Swapping then Some (s\<lparr>stage := Calling (pendingFunctors s), pendingFunctors := [], early := False\<rparr>)
      else None)"
| "estep (Call ops) s =
     (case stage s of Calling (f # fs) \<Rightarrow>
        Some (fold perform ops (s\<lparr>stage := Calling fs, executed := executed s @ [f]\<rparr>)) | _ \<Rightarrow> None)"
| "estep Finish s =
     (if stage s = Calling [] then Some (loop_while (s\<lparr>callingPendingFunctors := False\<rparr>)) else None)"
| "estep (Before ops) s =
     (if stage s = Idle then Some (fold perform ops (s\<lparr>early := early s \<or> (\<exists>f. QueueInLoop f \<in> set ops)\<rparr>)) else None)"
| "estep (Enqueue f) s = Some ((push_functor f s)\<lparr>waking := waking s + 1\<rparr>)"
| "estep ForeignQuit s = Some (s\<lparr>quitting := True, waking := waking s + 1\<rparr>)"
| "estep Wake s = (if 0 < waking s then Some (wakeup (s\<lparr>waking := waking s - 1\<rparr>)) else None)"

inductive ereach :: "'f event_loop \<Rightarrow> bool" where
  init: "ereach (new_event_loop tid)"
| step: "ereach s \<Longrightarrow> estep l s = Some s' \<Longrightarrow> ereach s'"

fun esteps :: "'f label list \<Rightarrow> 'f event_loop \<Rightarrow> 'f event_loop option" where
  "esteps [] s = Some s"
| "esteps (l # ls) s = Option.bind (estep l s) (esteps ls)"

lemma esteps_reach: "esteps ls s = Some s' \<Longrightarrow> ereach s \<Longrightarrow> ereach s'"
  by (induction ls arbitrary: s) (auto intro: ereach.step split: Option.bind_splits)

text \<open>\<open>queueInLoop\<close> and \<open>quit\<close> of another thread are its two steps.\<close>

lemma foreign_steps:
  assumes "threadId s \<noteq> tid"
  shows "esteps [Enqueue f, Wake] s = Some (queueInLoop tid f s)"
    "esteps [ForeignQuit, Wake] s = Some (quit tid s)"
  using assms by (simp_all add: queueInLoop_def quit_def isInLoopThread_def push_functor_def wakeup_def Let_def)

section \<open>Invariant\<close>

definition batch :: "'f stage \<Rightarrow> 'f list" where
  "batch st = (case st of Calling fs \<Rightarrow> fs | _ \<Rightarrow> [])"

definition wakes :: "'f event_loop \<Rightarrow> bool" where
  "wakes s \<longleftrightarrow> 0 < eventfd s \<or> 0 < waking s"

definition loop_inv :: "'f event_loop \<Rightarrow> bool" where
  "loop_inv s \<longleftrightarrow>
     executed s @ batch (stage s) @ pendingFunctors s = queued s
     \<and> (callingPendingFunctors s \<longleftrightarrow> stage s = Swapping \<or> (\<exists>fs. stage s = Calling fs))
     \<and> (eventHandling s \<longleftrightarrow> (\<exists>w k. stage s = Handling w k))
     \<and> (looping s \<longleftrightarrow> stage s \<noteq> Idle)
     \<and> (stage s \<in> {Idle, Polling} \<or> (\<exists>fs. stage s = Calling fs) \<longrightarrow>
          pendingFunctors s \<noteq> [] \<longrightarrow> wakes s \<or> (early s \<and> (\<forall>fs. stage s \<noteq> Calling fs)))
     \<and> (stage s = Polling \<and> quitting s \<longrightarrow> wakes s)"

lemma wakeup_simps [simp]:
  "stage (wakeup s) = stage s" "pendingFunctors (wakeup s) = pendingFunctors s" "queued (wakeup s) = queued s"
  "executed (wakeup s) = executed s" "threadId (wakeup s) = threadId s" "looping (wakeup s) = looping s"
  "callingPendingFunctors (wakeup s) = callingPendingFunctors s" "eventHandling (wakeup s) = eventHandling s"
  "waking (wakeup s) = waking s" "early (wakeup s) = early s" "quitting (wakeup s) = quitting s" "0 < eventfd (wakeup s)"
  by (simp_all add: wakeup_def)

lemma wakes_wakeup [simp]: "wakes (wakeup s)"
  by (simp add: wakes_def)

lemma perform_frame [simp]:
  "stage (perform x s) = stage s" "executed (perform x s) = executed s" "threadId (perform x s) = threadId s"
  "looping (perform x s) = looping s" "callingPendingFunctors (perform x s) = callingPendingFunctors s"
  "eventHandling (perform x s) = eventHandling s" "early (perform x s) = early s" "waking (perform x s) = waking s"
  by (cases x; simp add: queueInLoop_def runInLoop_def quit_def push_functor_def Let_def)+

lemma performs_frame [simp]:
  "stage (fold perform ops s) = stage s" "executed (fold perform ops s) = executed s"
  "threadId (fold perform ops s) = threadId s" "looping (fold perform ops s) = looping s"
  "callingPendingFunctors (fold perform ops s) = callingPendingFunctors s"
  "eventHandling (fold perform ops s) = eventHandling s" "early (fold perform ops s) = early s"
  by (induction ops arbitrary: s) simp_all

lemma perform_inv:
  assumes "loop_inv s" "stage s \<noteq> Polling" "stage s = Idle \<Longrightarrow> early s \<or> (\<forall>f. x \<noteq> QueueInLoop f)"
  shows "loop_inv (perform x s)"
  using assms
  by (cases x) (auto simp: loop_inv_def queueInLoop_def runInLoop_def quit_def push_functor_def isInLoopThread_def Let_def wakes_def batch_def)

lemma performs_inv:
  "loop_inv s \<Longrightarrow> stage s \<noteq> Polling \<Longrightarrow> (stage s = Idle \<Longrightarrow> early s \<or> (\<forall>f. QueueInLoop f \<notin> set ops)) \<Longrightarrow>
    loop_inv (fold perform ops s)"
proof (induction ops arbitrary: s)
  case (Cons x ops)
  have "loop_inv (perform x s)" using Cons.prems by (intro perform_inv) auto
  moreover have "stage (perform x s) \<noteq> Polling" using Cons.prems by simp
  ultimately show ?case using Cons.prems(3) by (auto intro!: Cons.IH)
qed simp

lemma loop_while_inv:
  assumes "executed s @ pendingFunctors s = queued s" "\<not> callingPendingFunctors s" "\<not> eventHandling s" "looping s"
    "pendingFunctors s \<noteq> [] \<Longrightarrow> wakes s \<or> early s"
  shows "loop_inv (loop_while s)"
  using assms by (auto simp: loop_inv_def loop_while_def batch_def wakes_def)

lemma loop_inv_init: "loop_inv (new_event_loop tid)"
  by (simp add: loop_inv_def new_event_loop_def batch_def)

lemma estep_inv:
  assumes "loop_inv s" "estep l s = Some s'"
  shows "loop_inv s'"
proof (cases l)
  case Start
  then show ?thesis using assms
    by (auto simp: loop_inv_def [of s] batch_def wakes_def intro!: loop_while_inv split: if_splits)
next
  case Finish
  then show ?thesis using assms
    by (auto simp: loop_inv_def [of s] batch_def wakes_def intro!: loop_while_inv split: if_splits)
next
  case (HandleEvent ops)
  then obtain w k where s: "stage s = Handling w (Suc k)" "s' = fold perform ops (s\<lparr>stage := Handling w k\<rparr>)"
    using assms(2) by (auto split: stage.splits nat.splits)
  have "loop_inv (s\<lparr>stage := Handling w k\<rparr>)" using assms(1) s(1) by (auto simp: loop_inv_def batch_def wakes_def)
  then show ?thesis unfolding s(2) by (rule performs_inv) auto
next
  case (Call ops)
  then obtain f fs where s: "stage s = Calling (f # fs)"
      "s' = fold perform ops (s\<lparr>stage := Calling fs, executed := executed s @ [f]\<rparr>)"
    using assms(2) by (auto split: stage.splits list.splits)
  have "loop_inv (s\<lparr>stage := Calling fs, executed := executed s @ [f]\<rparr>)"
    using assms(1) s(1) by (auto simp: loop_inv_def batch_def wakes_def)
  then show ?thesis unfolding s(2) by (rule performs_inv) auto
next
  case (Before ops)
  then have s: "stage s = Idle" "s' = fold perform ops (s\<lparr>early := early s \<or> (\<exists>f. QueueInLoop f \<in> set ops)\<rparr>)"
    using assms(2) by (auto split: if_splits)
  have "loop_inv (s\<lparr>early := early s \<or> (\<exists>f. QueueInLoop f \<in> set ops)\<rparr>)"
    using assms(1) s(1) by (auto simp: loop_inv_def batch_def wakes_def)
  then show ?thesis unfolding s(2) by (rule performs_inv) (use s(1) in auto)
next
  case (Poll k)
  then have "stage s = Polling" "s' = s\<lparr>eventHandling := True, stage := Handling (0 < eventfd s) k\<rparr>"
    using assms(2) by (auto split: if_splits)
  then show ?thesis using assms(1) by (simp add: loop_inv_def batch_def)
next
  case HandleRead
  then obtain k where "stage s = Handling True k" "s' = loop_handleRead (s\<lparr>stage := Handling False k\<rparr>)"
    using assms(2) by (auto split: stage.splits bool.splits)
  then show ?thesis using assms(1) by (simp add: loop_inv_def batch_def loop_handleRead_def ex_bool_eq)
next
  case HandleDone
  then have "stage s = Handling False 0" "s' = s\<lparr>eventHandling := False, callingPendingFunctors := True, stage := Swapping\<rparr>"
    using assms(2) by (auto split: if_splits)
  then show ?thesis using assms(1) by (simp add: loop_inv_def batch_def)
next
  case Swap
  then have "stage s = Swapping" "s' = s\<lparr>stage := Calling (pendingFunctors s), pendingFunctors := [], early := False\<rparr>"
    using assms(2) by (auto split: if_splits)
  then show ?thesis using assms(1) by (simp add: loop_inv_def batch_def)
next
  case (Enqueue f)
  then have "s' = (push_functor f s)\<lparr>waking := waking s + 1\<rparr>" using assms(2) by simp
  then show ?thesis using assms(1) by (simp add: loop_inv_def push_functor_def wakes_def flip: append_assoc)
next
  case ForeignQuit
  then have "s' = s\<lparr>quitting := True, waking := waking s + 1\<rparr>" using assms(2) by simp
  then show ?thesis using assms(1) by (simp add: loop_inv_def wakes_def)
next
  case Wake
  then have "s' = wakeup (s\<lparr>waking := waking s - 1\<rparr>)" using assms(2) by (simp split: if_splits)
  then show ?thesis using assms(1) by (simp add: loop_inv_def)
qed

lemma ereach_inv: "ereach s \<Longrightarrow> loop_inv s"
  by (induction rule: ereach.induct) (auto intro: loop_inv_init estep_inv)

section \<open>Progress\<close>

lemma perform_queued: "\<exists>xs. queued (perform x s) = queued s @ xs"
  by (cases x) (auto simp: queueInLoop_def runInLoop_def quit_def push_functor_def Let_def)

lemma performs_queued: "\<exists>xs. queued (fold perform ops s) = queued s @ xs"
proof (induction ops arbitrary: s)
  case (Cons x ops)
  obtain xs ys where "queued (perform x s) = queued s @ xs"
    "queued (fold perform ops (perform x s)) = queued (perform x s) @ ys"
    using perform_queued [of x s] Cons.IH [of "perform x s"] by blast
  then show ?case by simp
qed simp

lemma estep_queued:
  assumes "estep l s = Some s'"
  shows "\<exists>xs. queued s' = queued s @ xs"
proof (cases l)
  case (HandleEvent ops)
  with assms obtain w k where "s' = fold perform ops (s\<lparr>stage := Handling w k\<rparr>)" by (auto split: stage.splits nat.splits)
  with performs_queued [of ops "s\<lparr>stage := Handling w k\<rparr>"] show ?thesis by simp
next
  case (Call ops)
  with assms obtain fs f where "s' = fold perform ops (s\<lparr>stage := Calling fs, executed := executed s @ [f]\<rparr>)"
    by (auto split: stage.splits list.splits)
  with performs_queued [of ops "s\<lparr>stage := Calling fs, executed := executed s @ [f]\<rparr>"] show ?thesis by simp
next
  case (Before ops)
  with assms performs_queued [of ops "s\<lparr>early := early s \<or> (\<exists>f. QueueInLoop f \<in> set ops)\<rparr>"] show ?thesis
    by (simp split: if_splits)
qed (use assms in \<open>auto simp: loop_while_def loop_handleRead_def push_functor_def split: if_splits stage.splits bool.splits\<close>)

text \<open>How far the thread of the loop is from having called the first \<open>n\<close> functors.\<close>

definition due :: "nat \<Rightarrow> 'f event_loop \<Rightarrow> nat \<times> nat" where
  "due n s = (case stage s of
     Calling fs \<Rightarrow> (if n \<le> length (executed s) + length fs then 0 else 5, length fs)
   | Swapping \<Rightarrow> (1, 0)
   | Handling w k \<Rightarrow> (2, k + (if w then 1 else 0))
   | Polling \<Rightarrow> (3, 0)
   | Idle \<Rightarrow> (4, 0))"

lemma due_loop:
  assumes "loop_inv s" "n \<le> length (queued s)" "estep l s = Some s'" "loop_label l" "\<not> quitting s" "\<not> quitting s'"
  shows "n \<le> length (executed s') \<or> (due n s', due n s) \<in> less_than <*lex*> less_than"
proof -
  have q: "length (executed s) + length (batch (stage s)) + length (pendingFunctors s) = length (queued s)"
    using assms(1) unfolding loop_inv_def by (metis append_assoc length_append)
  show ?thesis
    using assms(2-6) q
    by (cases l) (auto simp: due_def batch_def loop_label_def loop_while_def loop_handleRead_def
        split: if_splits stage.splits bool.splits list.splits nat.splits)
qed

lemma due_cong: "stage s' = stage s \<Longrightarrow> executed s' = executed s \<Longrightarrow> due n s' = due n s"
  by (simp add: due_def split: stage.split)

lemma due_other:
  assumes "estep l s = Some s'" "\<not> loop_label l"
  shows "due n s' = due n s"
  using assms by (cases l) (auto simp: loop_label_def push_functor_def intro!: due_cong split: if_splits)

text \<open>A run: a label and a state at every instant.\<close>

definition loop_run :: "(nat \<Rightarrow> 'f label) \<Rightarrow> (nat \<Rightarrow> 'f event_loop) \<Rightarrow> bool" where
  "loop_run l \<sigma> \<longleftrightarrow> (\<forall>i. estep (l i) (\<sigma> i) = Some (\<sigma> (Suc i)))"

lemma loop_run_reach: "loop_run l \<sigma> \<Longrightarrow> ereach (\<sigma> 0) \<Longrightarrow> ereach (\<sigma> i)"
  by (induction i) (auto simp: loop_run_def intro: ereach.step)

lemma loop_run_queued:
  assumes "loop_run l \<sigma>" "i \<le> j"
  shows "\<exists>xs. queued (\<sigma> j) = queued (\<sigma> i) @ xs"
  using assms(2)
proof (induction j rule: dec_induct)
  case (step j)
  have "estep (l j) (\<sigma> j) = Some (\<sigma> (Suc j))" using assms(1) by (simp add: loop_run_def)
  from estep_queued [OF this] step.IH show ?case by force
qed simp

lemma loop_run_other:
  assumes "loop_run l \<sigma>" "\<forall>j\<in>{i..<k}. \<not> loop_label (l j)" "i \<le> k"
  shows "due n (\<sigma> k) = due n (\<sigma> i)"
  using assms(3,2)
proof (induction k rule: dec_induct)
  case (step k)
  have "estep (l k) (\<sigma> k) = Some (\<sigma> (Suc k))" using assms(1) by (simp add: loop_run_def)
  from due_other [OF this, of n] step show ?case by simp
qed simp

lemma progress:
  assumes "loop_run l \<sigma>" "ereach (\<sigma> 0)" "\<forall>i. \<exists>j\<ge>i. loop_label (l j)" "\<forall>i. \<not> quitting (\<sigma> i)"
  shows "n \<le> length (queued (\<sigma> i)) \<Longrightarrow> \<exists>m\<ge>i. n \<le> length (executed (\<sigma> m))"
proof (induction "due n (\<sigma> i)" arbitrary: i rule: wf_induct_rule [OF wf_lex_prod [OF wf_less_than wf_less_than]])
  case 1
  define j where "j = (LEAST j. i \<le> j \<and> loop_label (l j))"
  have j: "i \<le> j" "loop_label (l j)"
    using LeastI_ex [of "\<lambda>j. i \<le> j \<and> loop_label (l j)"] assms(3) unfolding j_def by auto
  have "\<forall>k\<in>{i..<j}. \<not> loop_label (l k)" unfolding j_def using not_less_Least by fastforce
  then have d: "due n (\<sigma> j) = due n (\<sigma> i)" using loop_run_other [OF assms(1) _ j(1)] by blast
  have st: "estep (l j) (\<sigma> j) = Some (\<sigma> (Suc j))" using assms(1) by (simp add: loop_run_def)
  have more: "n \<le> length (queued (\<sigma> k))" if "i \<le> k" for k
    using loop_run_queued [OF assms(1) that] 1(2) by auto
  from due_loop [OF ereach_inv [OF loop_run_reach [OF assms(1,2)]] more [OF j(1)] st j(2)] assms(4)
  consider "n \<le> length (executed (\<sigma> (Suc j)))" | "(due n (\<sigma> (Suc j)), due n (\<sigma> i)) \<in> less_than <*lex*> less_than"
    unfolding d by blast
  then show ?case
  proof cases
    case 1
    with j(1) show ?thesis by (intro exI [of _ "Suc j"]) simp
  next
    case 2
    have "i \<le> Suc j" using j(1) by simp
    from 1(1) [OF 2 more [OF this]] this show ?thesis by (meson le_trans)
  qed
qed

section \<open>Properties\<close>

text \<open>C15: Functors queued from any thread are called in the order in which they were queued, each at most once,
  and none is lost: in every reachable state those called, those of the batch being called and those pending
  are exactly those queued.\<close>
theorem functors_in_order:
  assumes "ereach s"
  shows "executed s @ batch (stage s) @ pendingFunctors s = queued s"
  using ereach_inv [OF assms] by (simp add: loop_inv_def)

text \<open>C5: No wakeup is lost. Whenever the loop is about to block in the poll with a functor pending, or after
  another thread has asked it to quit, the wakeup descriptor is readable, or a thread is about to write
  to it; only a functor queued by the thread of the loop before \<open>loop\<close> is excepted.\<close>
theorem no_lost_wakeup:
  assumes "ereach s" "stage s = Polling" "pendingFunctors s \<noteq> [] \<and> \<not> early s \<or> quitting s"
  shows "0 < eventfd s \<or> 0 < waking s"
  using ereach_inv [OF assms(1)] assms(2,3) by (auto simp: loop_inv_def wakes_def)

text \<open>C6: Every queued functor is called: in every run in which the thread of the loop keeps taking steps and
  nobody asks it to quit, a functor queued at any position is called at that position, whatever the callbacks
  do and however the other threads interleave.\<close>
theorem queued_functor_called:
  assumes "loop_run l \<sigma>" "ereach (\<sigma> 0)" "\<forall>i. \<exists>j\<ge>i. loop_label (l j)" "\<forall>i. \<not> quitting (\<sigma> i)"
    "n < length (queued (\<sigma> i))"
  shows "\<exists>m\<ge>i. n < length (executed (\<sigma> m)) \<and> executed (\<sigma> m) ! n = queued (\<sigma> i) ! n"
proof -
  obtain m where m: "i \<le> m" "Suc n \<le> length (executed (\<sigma> m))"
    using progress [OF assms(1-4), of "Suc n" i] assms(5) by auto
  obtain xs where q: "queued (\<sigma> m) = queued (\<sigma> i) @ xs" using loop_run_queued [OF assms(1) m(1)] by blast
  have "executed (\<sigma> m) @ batch (stage (\<sigma> m)) @ pendingFunctors (\<sigma> m) = queued (\<sigma> i) @ xs"
    using ereach_inv [OF loop_run_reach [OF assms(1,2)], of m] q by (simp add: loop_inv_def)
  from arg_cong [OF this, of "\<lambda>ys. ys ! n"] m assms(5) show ?thesis by (auto simp: nth_append)
qed

section \<open>Instances\<close>

text \<open>A loop with one functor queued, and its run: one turn that calls it, then empty turns for ever.\<close>

definition loop_turn :: "nat list \<Rightarrow> nat list \<Rightarrow> nat \<Rightarrow> nat event_loop" where
  "loop_turn ex pend r = \<lparr>threadId = 1, looping = True, quitting = False, eventHandling = (r = 1),
     callingPendingFunctors = (r = 2 \<or> r = 3), pendingFunctors = pend, eventfd = 0,
     stage = [Polling, Handling False 0, Swapping, Calling []] ! r, waking = 0, early = (pend \<noteq> []),
     queued = [7], executed = ex, direct = []\<rparr>"

definition turns :: "nat \<Rightarrow> nat event_loop" where
  "turns i = (if i < 3 then loop_turn [] [7] i
     else if i = 3 then (loop_turn [] [] 3)\<lparr>stage := Calling [7]\<rparr> else loop_turn [7] [] ((i - 1) mod 4))"

definition turn_label :: "nat \<Rightarrow> nat label" where
  "turn_label i = (if i = 3 then Call [] else [Poll 0, HandleDone, Swap, Finish] ! (if i < 3 then i else (i - 1) mod 4))"

lemma turn_steps:
  assumes "r < 4"
  shows "estep ([Poll 0, HandleDone, Swap, Finish] ! r) (loop_turn [7] [] r) = Some (loop_turn [7] [] (Suc r mod 4))"
proof -
  from assms consider "r = 0" | "r = 1" | "r = 2" | "r = 3" by linarith
  then show ?thesis by cases (simp_all add: loop_turn_def loop_while_def)
qed

lemma turns_run: "loop_run turn_label turns"
  unfolding loop_run_def
proof
  fix i :: nat
  consider "i = 0" | "i = 1" | "i = 2" | "i = 3" | "3 < i" by linarith
  then show "estep (turn_label i) (turns i) = Some (turns (Suc i))"
  proof cases
    case 5
    then have "Suc ((i - 1) mod 4) mod 4 = i mod 4" by (simp add: mod_Suc_eq)
    with turn_steps [of "(i - 1) mod 4"] 5 show ?thesis by (simp add: turn_label_def turns_def)
  qed (simp_all add: turn_label_def turns_def loop_turn_def loop_while_def)
qed

lemma turns_reach: "ereach (turns 0)"
proof -
  have "esteps [Before [QueueInLoop 7], Start] (new_event_loop 1) = Some (turns 0)"
    by (simp add: new_event_loop_def turns_def loop_turn_def queueInLoop_def isInLoopThread_def push_functor_def loop_while_def)
  then show ?thesis by (rule esteps_reach [OF _ ereach.init])
qed

lemma turn_label_loop: "loop_label (turn_label i)"
proof -
  have "loop_label ([Poll 0, HandleDone, Swap, Finish] ! r :: nat label)" if "r < 4" for r
    using that by (auto simp: less_Suc_eq numeral_eq_Suc loop_label_def)
  moreover have "loop_label (Call [] :: nat label)" by (simp add: loop_label_def)
  ultimately show ?thesis by (simp add: turn_label_def)
qed

theorem functors_in_order_witness: "executed (turns 0) @ pendingFunctors (turns 0) = [7]"
  using functors_in_order [OF turns_reach] by (simp add: turns_def loop_turn_def batch_def)

theorem no_lost_wakeup_witness:
  "\<exists>s. esteps [Start, Enqueue 7, Wake] (new_event_loop 1 :: nat event_loop) = Some s \<and> 0 < eventfd s"
proof -
  obtain s :: "nat event_loop" where s: "esteps [Start, Enqueue 7, Wake] (new_event_loop 1) = Some s" "stage s = Polling"
    "pendingFunctors s = [7]" "\<not> early s" "waking s = 0"
    by (simp add: new_event_loop_def wakeup_def push_functor_def loop_while_def)
  from no_lost_wakeup [OF esteps_reach [OF s(1) ereach.init] s(2)] s show ?thesis by auto
qed

theorem queued_functor_called_witness: "\<exists>m. 0 < length (executed (turns m)) \<and> executed (turns m) ! 0 = 7"
proof -
  have "\<forall>i. \<not> quitting (turns i)" by (simp add: turns_def loop_turn_def)
  moreover have "\<forall>i. \<exists>j\<ge>i. loop_label (turn_label j)" using turn_label_loop by blast
  moreover have "0 < length (queued (turns 0))" "queued (turns 0) ! 0 = 7" by (simp_all add: turns_def loop_turn_def)
  ultimately show ?thesis using queued_functor_called [OF turns_run turns_reach, of 0 0] by auto
qed

end
