(* ===== verification/Channel.thy ===== *)
theory Channel
  imports Prelude
begin

text \<open>
  \<open>muduo/net/Channel.cc\<close> and \<open>Channel.h\<close>: the events a file descriptor is registered for, and the dispatch of those
  that the poller reports. Callbacks are values; handling an event is the list of callbacks it calls, in
  order. The masks are those of \<open>poll.h\<close> on Linux.
\<close>

definition POLLIN :: u32 where "POLLIN = 1"
definition POLLPRI :: u32 where "POLLPRI = 2"
definition POLLOUT :: u32 where "POLLOUT = 4"
definition POLLERR :: u32 where "POLLERR = 8"
definition POLLHUP :: u32 where "POLLHUP = 16"
definition POLLNVAL :: u32 where "POLLNVAL = 32"
definition POLLRDHUP :: u32 where "POLLRDHUP = 8192"

definition kNoneEvent :: u32 where "kNoneEvent = 0"

definition kReadEvent :: u32 where "kReadEvent = POLLIN OR POLLPRI"

definition kWriteEvent :: u32 where "kWriteEvent = POLLOUT"

record 'cb io_channel =
  events :: u32
  revents :: u32
  tied :: bool
  readCallback :: "'cb option"
  writeCallback :: "'cb option"
  closeCallback :: "'cb option"
  errorCallback :: "'cb option"

definition new_channel :: "'cb io_channel" where
  "new_channel = \<lparr>events = 0, revents = 0, tied = False, readCallback = None, writeCallback = None,
     closeCallback = None, errorCallback = None\<rparr>"

definition isNoneEvent :: "'cb io_channel \<Rightarrow> bool" where
  "isNoneEvent ch \<longleftrightarrow> events ch = kNoneEvent"

definition enableReading :: "'cb io_channel \<Rightarrow> 'cb io_channel" where
  "enableReading ch = ch\<lparr>events := events ch OR kReadEvent\<rparr>"

definition enableWriting :: "'cb io_channel \<Rightarrow> 'cb io_channel" where
  "enableWriting ch = ch\<lparr>events := events ch OR kWriteEvent\<rparr>"

definition disableWriting :: "'cb io_channel \<Rightarrow> 'cb io_channel" where
  "disableWriting ch = ch\<lparr>events := events ch AND NOT kWriteEvent\<rparr>"

definition disableAll :: "'cb io_channel \<Rightarrow> 'cb io_channel" where
  "disableAll ch = ch\<lparr>events := kNoneEvent\<rparr>"

definition isWriting :: "'cb io_channel \<Rightarrow> bool" where
  "isWriting ch \<longleftrightarrow> events ch AND kWriteEvent \<noteq> 0"

definition tie :: "'cb io_channel \<Rightarrow> 'cb io_channel" where
  "tie ch = ch\<lparr>tied := True\<rparr>"

definition handleEventWithGuard :: "'cb io_channel \<Rightarrow> 'cb list" where
  "handleEventWithGuard ch =
     (let called = (\<lambda>cb. case cb of None \<Rightarrow> [] | Some f \<Rightarrow> [f]);
          r = revents ch
      in (if r AND POLLHUP \<noteq> 0 \<and> r AND POLLIN = 0 then called (closeCallback ch) else [])
         @ (if r AND (POLLERR OR POLLNVAL) \<noteq> 0 then called (errorCallback ch) else [])
         @ (if r AND (POLLIN OR POLLPRI OR POLLRDHUP) \<noteq> 0 then called (readCallback ch) else [])
         @ (if r AND POLLOUT \<noteq> 0 then called (writeCallback ch) else []))"

text \<open>\<open>alive\<close>: the object the channel is tied to still exists.\<close>

definition handleEvent :: "bool \<Rightarrow> 'cb io_channel \<Rightarrow> 'cb list" where
  "handleEvent alive ch =
     (if tied ch then (if alive then handleEventWithGuard ch else []) else handleEventWithGuard ch)"

section \<open>Registered events\<close>

text \<open>Reading is registered by the bits of \<open>kReadEvent\<close>; one bit tells.\<close>

definition isReading :: "'cb io_channel \<Rightarrow> bool" where
  "isReading ch \<longleftrightarrow> events ch AND POLLIN \<noteq> 0"

lemmas poll_masks = POLLIN_def POLLPRI_def POLLOUT_def POLLERR_def POLLHUP_def POLLNVAL_def POLLRDHUP_def
  kNoneEvent_def kReadEvent_def kWriteEvent_def

lemma isWriting_bit: "isWriting ch \<longleftrightarrow> bit (events ch) 2"
  using and_exp_eq_0_iff_not_bit [of "events ch" 2] by (simp add: isWriting_def poll_masks)

lemma isReading_bit: "isReading ch \<longleftrightarrow> bit (events ch) 0"
  using and_exp_eq_0_iff_not_bit [of "events ch" 0] by (simp add: isReading_def poll_masks)

lemma channel_writing [simp]:
  "isWriting (enableReading ch) = isWriting ch"
  "isWriting (enableWriting ch)"
  "\<not> isWriting (disableWriting ch)"
  "\<not> isWriting (disableAll ch)"
  "isWriting (tie ch) = isWriting ch"
  by (simp_all add: isWriting_bit enableReading_def enableWriting_def disableWriting_def disableAll_def tie_def
      poll_masks bit_simps)

lemma channel_reading [simp]:
  "isReading (enableReading ch)"
  "isReading (enableWriting ch) = isReading ch"
  "isReading (disableWriting ch) = isReading ch"
  "\<not> isReading (disableAll ch)"
  "isReading (tie ch) = isReading ch"
  by (simp_all add: isReading_bit enableReading_def enableWriting_def disableWriting_def disableAll_def tie_def
      poll_masks bit_simps)

lemma channel_none [simp]:
  "isNoneEvent (disableAll ch)" "isReading ch \<Longrightarrow> \<not> isNoneEvent ch" "isWriting ch \<Longrightarrow> \<not> isNoneEvent ch"
  by (auto simp: isNoneEvent_def disableAll_def isReading_bit isWriting_bit poll_masks)


end
