(* ===== verification/TcpConnection.thy ===== *)
theory TcpConnection
  imports Buffer Channel
begin

text \<open>
  A connection of \<open>muduo/net/TcpConnection.cc\<close>: what is sent goes to the kernel at once or waits in the output
  buffer until the socket is writable, a shutdown waits until the buffer is flushed, and the callbacks
  report the connection up and down. The kernel answers each write, the loop runs the queued functors in
  order (theory \<open>EventLoop\<close>), and the user code behind the message callback is a parameter.
\<close>

section \<open>State\<close>

datatype StateE = kDisconnected | kConnecting | kConnected | kDisconnecting

datatype handler = HandleRead | HandleWrite | HandleClose | HandleError

text \<open>Functors the connection queues on its loop.\<close>

datatype task = SendInLoop "byte list" | ShutdownInLoop | WriteComplete | HighWaterMark nat

datatype notice = ConnectionUp | ConnectionDown | ConnectionClosed | WriteCompleted | HighWater nat | SocketError

text \<open>
  Where the loop stands with the channel of the connection: \<open>Quiet\<close> when it is not handling events or the
  poller did not report the channel, \<open>Active\<close> when the channel waits in \<open>activeChannels_\<close> for its turn,
  \<open>Handling\<close> with the callbacks that \<open>handleEventWithGuard\<close> still calls when it is the current one, and
  \<open>Handled\<close> until the loop is through with the other channels.
\<close>

datatype dispatch = Quiet | Active | Handling "handler list" | Handled

text \<open>
  \<open>added\<close> says that the poller knows the channel.
  \<open>sent\<close> is what the kernel has accepted, \<open>fin\<close> says that \<open>shutdownWrite\<close> was called, \<open>tasks\<close> the functors queued
  and not yet run, \<open>reports\<close> the user callbacks called; \<open>accepted\<close> is a component of the model only: the bytes that
  \<open>sendInLoop\<close> did not give up.
\<close>

record tcp_connection =
  conn_state :: StateE
  channel :: "handler io_channel"
  added :: bool
  phase :: dispatch
  highWaterMark :: nat
  inputBuffer :: buffer
  outputBuffer :: buffer
  has_writeComplete :: bool
  has_highWater :: bool
  sent :: "byte list"
  fin :: bool
  tasks :: "task list"
  reports :: "notice list"
  accepted :: "byte list"

definition new_connection :: "bool \<Rightarrow> bool \<Rightarrow> tcp_connection" where
  "new_connection wc hw = \<lparr>conn_state = kConnecting,
     channel = new_channel\<lparr>readCallback := Some HandleRead, writeCallback := Some HandleWrite,
       closeCallback := Some HandleClose, errorCallback := Some HandleError\<rparr>,
     added = False, phase = Quiet,
     highWaterMark = 64 * 1024 * 1024, inputBuffer = new_buffer, outputBuffer = new_buffer,
     has_writeComplete = wc, has_highWater = hw, sent = [], fin = False, tasks = [], reports = [], accepted = []\<rparr>"

definition setState :: "StateE \<Rightarrow> tcp_connection \<Rightarrow> tcp_connection" where
  "setState s c = c\<lparr>conn_state := s\<rparr>"

definition queue_task :: "task \<Rightarrow> tcp_connection \<Rightarrow> tcp_connection" where
  "queue_task t c = c\<lparr>tasks := tasks c @ [t]\<rparr>"

definition report :: "notice \<Rightarrow> tcp_connection \<Rightarrow> tcp_connection" where
  "report r c = c\<lparr>reports := reports c @ [r]\<rparr>"

text \<open>The answer of the kernel to a write: a number of bytes taken, or an \<open>errno\<close>.\<close>

datatype wresult = Wrote nat | EWOULDBLOCK | EPIPE | OtherErrno

text \<open>After \<open>shutdownWrite\<close> every write fails; a write of something takes at least one byte.\<close>

definition possible :: "byte list \<Rightarrow> tcp_connection \<Rightarrow> wresult \<Rightarrow> bool" where
  "possible data c w \<longleftrightarrow>
     (if fin c then w = EPIPE else (case w of Wrote n \<Rightarrow> n \<le> length data \<and> (data \<noteq> [] \<longrightarrow> 0 < n) | _ \<Rightarrow> True))"

section \<open>Sending\<close>

text \<open>The direct write: the bytes written and whether sending is given up.\<close>

definition direct_write :: "byte list \<Rightarrow> wresult \<Rightarrow> tcp_connection \<Rightarrow> tcp_connection \<times> nat \<times> bool" where
  "direct_write data w c =
     (if \<not> isWriting (channel c) \<and> readableBytes (outputBuffer c) = 0 then
        (case w of
           Wrote n \<Rightarrow>
             let c = c\<lparr>sent := sent c @ take n data, accepted := accepted c @ take n data\<rparr>
             in (if length data - n = 0 \<and> has_writeComplete c then queue_task WriteComplete c else c, n, False)
         | EWOULDBLOCK \<Rightarrow> (c, 0, False)
         | EPIPE \<Rightarrow> (c, 0, True)
         | OtherErrno \<Rightarrow> (c, 0, False))
      else (c, 0, False))"

text \<open>What could not be written waits in the output buffer.\<close>

definition buffer_rest :: "byte list \<Rightarrow> tcp_connection \<Rightarrow> tcp_connection option" where
  "buffer_rest rest c = do {
     let remaining = length rest;
     let oldLen = readableBytes (outputBuffer c);
     let c = (if highWaterMark c \<le> oldLen + remaining \<and> oldLen < highWaterMark c \<and> has_highWater c
              then queue_task (HighWaterMark (oldLen + remaining)) c else c);
     out \<leftarrow> append_data rest (outputBuffer c);
     let c = c\<lparr>outputBuffer := out, accepted := accepted c @ rest\<rparr>;
     Some (if \<not> isWriting (channel c) then c\<lparr>channel := enableWriting (channel c)\<rparr> else c)
   }"

definition sendInLoop :: "byte list \<Rightarrow> wresult \<Rightarrow> tcp_connection \<Rightarrow> tcp_connection option" where
  "sendInLoop data w c =
     (if conn_state c = kDisconnected then Some c
      else let (c, nwrote, error) = direct_write data w c;
               remaining = length data - nwrote
           in if \<not> error \<and> 0 < remaining then buffer_rest (drop nwrote data) c else Some c)"

text \<open>\<open>send\<close> of bytes, by the thread of the loop or another; \<open>send_buf\<close> is the overload for a \<open>Buffer\<close>, which it empties.\<close>

definition send_data :: "bool \<Rightarrow> byte list \<Rightarrow> wresult \<Rightarrow> tcp_connection \<Rightarrow> tcp_connection option" where
  "send_data in_loop data w c =
     (if conn_state c = kConnected then
        (if in_loop then sendInLoop data w c else Some (queue_task (SendInLoop data) c))
      else Some c)"

definition send_buf :: "bool \<Rightarrow> buffer \<Rightarrow> wresult \<Rightarrow> tcp_connection \<Rightarrow> (tcp_connection \<times> buffer) option" where
  "send_buf in_loop buf w c =
     (if conn_state c = kConnected then
        (if in_loop then do {
           c \<leftarrow> sendInLoop (bytes_at buf (peek buf) (readableBytes buf)) w c;
           Some (c, retrieveAll buf)
         } else do {
           (message, buf) \<leftarrow> retrieveAllAsString buf;
           Some (queue_task (SendInLoop message) c, buf)
         })
      else Some (c, buf))"

definition shutdownInLoop :: "tcp_connection \<Rightarrow> tcp_connection" where
  "shutdownInLoop c = (if \<not> isWriting (channel c) then c\<lparr>fin := True\<rparr> else c)"

definition shutdown :: "bool \<Rightarrow> tcp_connection \<Rightarrow> tcp_connection" where
  "shutdown in_loop c =
     (if conn_state c = kConnected then
        let c = setState kDisconnecting c
        in if in_loop then shutdownInLoop c else queue_task ShutdownInLoop c
      else c)"

section \<open>Opening and closing\<close>

text \<open>\<open>None\<close> is a failed assertion.\<close>

definition connectEstablished :: "tcp_connection \<Rightarrow> tcp_connection option" where
  "connectEstablished c = do {
     assert_that (conn_state c = kConnecting);
     let c = setState kConnected c;
     let c = c\<lparr>channel := enableReading (tie (channel c)), added := True\<rparr>;
     Some (report ConnectionUp c)
   }"

text \<open>\<open>EventLoop::removeChannel\<close> with the poller's: while the loop handles events the channel must be the current one
  or not active, and the poller must know it.\<close>

definition removeChannel :: "tcp_connection \<Rightarrow> tcp_connection option" where
  "removeChannel c = do {
     assert_that (phase c \<noteq> Active \<and> phase c \<noteq> Handled);
     assert_that (added c);
     assert_that (isNoneEvent (channel c));
     Some (c\<lparr>added := False\<rparr>)
   }"

definition connectDestroyed :: "tcp_connection \<Rightarrow> tcp_connection option" where
  "connectDestroyed c = do {
     let c = (if conn_state c = kConnected then
                report ConnectionDown ((setState kDisconnected c)\<lparr>channel := disableAll (channel c)\<rparr>)
              else c);
     assert_that (isNoneEvent (channel c));
     removeChannel c
   }"

definition handleClose :: "tcp_connection \<Rightarrow> tcp_connection option" where
  "handleClose c = do {
     assert_that (conn_state c = kConnected \<or> conn_state c = kDisconnecting);
     let c = setState kDisconnected c;
     let c = c\<lparr>channel := disableAll (channel c)\<rparr>;
     Some (report ConnectionClosed (report ConnectionDown c))
   }"

definition handleError :: "tcp_connection \<Rightarrow> tcp_connection" where
  "handleError c = report SocketError c"

section \<open>Events\<close>

text \<open>\<open>on_message\<close> is the message callback: what it leaves of the input buffer. What it sends are steps of their own.\<close>

definition handleRead :: "(buffer \<Rightarrow> buffer) \<Rightarrow> unit + byte list
    \<Rightarrow> tcp_connection \<Rightarrow> tcp_connection option" where
  "handleRead on_message r c = do {
     (n, b) \<leftarrow> readFd r (inputBuffer c);
     (case n of
        Inr n \<Rightarrow>
          if 0 < n then Some (c\<lparr>inputBuffer := on_message b\<rparr>)
          else handleClose (c\<lparr>inputBuffer := b\<rparr>)
      | Inl e \<Rightarrow> Some (handleError (c\<lparr>inputBuffer := b\<rparr>)))
   }"

definition handleWrite :: "wresult \<Rightarrow> tcp_connection \<Rightarrow> tcp_connection option" where
  "handleWrite w c =
     (if isWriting (channel c) then
        (case w of
           Wrote n \<Rightarrow>
             if 0 < n then do {
               let data = bytes_at (outputBuffer c) (peek (outputBuffer c)) (readableBytes (outputBuffer c));
               let c = c\<lparr>sent := sent c @ take n data\<rparr>;
               out \<leftarrow> retrieve n (outputBuffer c);
               let c = c\<lparr>outputBuffer := out\<rparr>;
               if readableBytes out = 0 then
                 let c = c\<lparr>channel := disableWriting (channel c)\<rparr>;
                     c = (if has_writeComplete c then queue_task WriteComplete c else c)
                 in Some (if conn_state c = kDisconnecting then shutdownInLoop c else c)
               else Some c
             } else Some c
         | _ \<Rightarrow> Some c)
      else Some c)"

section \<open>Steps\<close>

text \<open>The poller reports what was asked for, and errors, hang-ups and invalid descriptors always.\<close>

definition reported :: "u32 \<Rightarrow> handler io_channel \<Rightarrow> bool" where
  "reported r ch \<longleftrightarrow> r AND NOT (events ch OR POLLERR OR POLLHUP OR POLLNVAL) = 0"

text \<open>The callback that the loop calls next on the channel, and those that follow it.\<close>

definition next_handler :: "tcp_connection \<Rightarrow> (handler \<times> handler list) option" where
  "next_handler c =
     (case (case phase c of Active \<Rightarrow> handleEvent True (channel c) | Handling hs \<Rightarrow> hs | _ \<Rightarrow> []) of
        [] \<Rightarrow> None
      | h # hs \<Rightarrow> Some (h, hs))"

text \<open>
  What can happen to a connection: its owner opens or destroys it, any thread sends or shuts down, the poller reports
  the channel, the loop calls the callbacks of the dispatch one after the other, and when no events are handled it
  runs the oldest functor. A callback can send, shut down and destroy: those are steps of their own after it.
\<close>

inductive tstep :: "tcp_connection \<Rightarrow> tcp_connection \<Rightarrow> bool" where
  established: "phase c = Quiet \<Longrightarrow> connectEstablished c = Some c' \<Longrightarrow> tstep c c'"
| sending: "possible data c w \<Longrightarrow> send_data in_loop data w c = Some c' \<Longrightarrow> tstep c c'"
| shutting: "tstep c (shutdown in_loop c)"
| task_send: "phase c = Quiet \<Longrightarrow> tasks c = SendInLoop data # ts \<Longrightarrow> possible data c w \<Longrightarrow>
    sendInLoop data w (c\<lparr>tasks := ts\<rparr>) = Some c' \<Longrightarrow> tstep c c'"
| task_shutdown: "phase c = Quiet \<Longrightarrow> tasks c = ShutdownInLoop # ts \<Longrightarrow> tstep c (shutdownInLoop (c\<lparr>tasks := ts\<rparr>))"
| task_complete: "phase c = Quiet \<Longrightarrow> tasks c = WriteComplete # ts \<Longrightarrow> tstep c (report WriteCompleted (c\<lparr>tasks := ts\<rparr>))"
| task_high: "phase c = Quiet \<Longrightarrow> tasks c = HighWaterMark n # ts \<Longrightarrow> tstep c (report (HighWater n) (c\<lparr>tasks := ts\<rparr>))"
| polled: "phase c = Quiet \<Longrightarrow> added c \<Longrightarrow> \<not> isNoneEvent (channel c) \<Longrightarrow> reported r (channel c) \<Longrightarrow>
    tstep c (c\<lparr>channel := (channel c)\<lparr>revents := r\<rparr>, phase := Active\<rparr>)"
| reading: "next_handler c = Some (HandleRead, hs) \<Longrightarrow> \<forall>b. buf_inv b \<longrightarrow> buf_inv (f b) \<Longrightarrow>
    handleRead f r (c\<lparr>phase := Handling hs\<rparr>) = Some c' \<Longrightarrow> tstep c c'"
| writing: "next_handler c = Some (HandleWrite, hs) \<Longrightarrow> possible (content (outputBuffer c)) c w \<Longrightarrow>
    handleWrite w (c\<lparr>phase := Handling hs\<rparr>) = Some c' \<Longrightarrow> tstep c c'"
| closing: "next_handler c = Some (HandleClose, hs) \<Longrightarrow> handleClose (c\<lparr>phase := Handling hs\<rparr>) = Some c' \<Longrightarrow> tstep c c'"
| failing: "next_handler c = Some (HandleError, hs) \<Longrightarrow> tstep c (handleError (c\<lparr>phase := Handling hs\<rparr>))"
| handled: "phase c = Active \<or> (\<exists>hs. phase c = Handling hs) \<Longrightarrow> next_handler c = None \<Longrightarrow> tstep c (c\<lparr>phase := Handled\<rparr>)"
| round_over: "phase c = Handled \<Longrightarrow> tstep c (c\<lparr>phase := Quiet\<rparr>)"
| destroyed: "connectDestroyed c = Some c' \<Longrightarrow> tstep c c'"

inductive treach :: "tcp_connection \<Rightarrow> bool" where
  fresh: "treach (new_connection wc hw)"
| more: "treach c \<Longrightarrow> tstep c c' \<Longrightarrow> treach c'"

section \<open>Invariant\<close>

fun up_down :: "StateE \<Rightarrow> notice list" where
  "up_down kConnecting = []"
| "up_down kDisconnected = [ConnectionUp, ConnectionDown]"
| "up_down st = [ConnectionUp]"

definition updown :: "notice \<Rightarrow> bool" where
  "updown r \<longleftrightarrow> r = ConnectionUp \<or> r = ConnectionDown"

definition watching :: "tcp_connection \<Rightarrow> bool" where
  "watching c \<longleftrightarrow> (if conn_state c = kConnected \<or> conn_state c = kDisconnecting
     then isReading (channel c) \<and> isWriting (channel c) = (content (outputBuffer c) \<noteq> [])
     else isNoneEvent (channel c) \<and> (conn_state c = kConnecting \<longrightarrow> content (outputBuffer c) = []))"

definition closing_ok :: "tcp_connection \<Rightarrow> bool" where
  "closing_ok c \<longleftrightarrow> (fin c \<or> ShutdownInLoop \<in> set (tasks c) \<longrightarrow> conn_state c = kDisconnecting \<or> conn_state c = kDisconnected)
     \<and> (fin c \<and> conn_state c = kDisconnecting \<longrightarrow> content (outputBuffer c) = [])
     \<and> (conn_state c = kConnecting \<longrightarrow> tasks c = [])"

definition tinv :: "tcp_connection \<Rightarrow> bool" where
  "tinv c \<longleftrightarrow> buf_inv (outputBuffer c) \<and> buf_inv (inputBuffer c)
     \<and> sent c @ content (outputBuffer c) = accepted c
     \<and> watching c \<and> closing_ok c \<and> filter updown (reports c) = up_down (conn_state c)"

lemmas tinv_defs = tinv_def watching_def closing_ok_def

lemma tinv_frame: "tinv (c\<lparr>phase := p\<rparr>) = tinv c" "tinv (c\<lparr>added := a\<rparr>) = tinv c"
  "tinv (c\<lparr>channel := (channel c)\<lparr>revents := r\<rparr>\<rparr>) = tinv c"
  "tinv (c\<lparr>channel := (channel c)\<lparr>revents := r\<rparr>, phase := p\<rparr>) = tinv c"
  by (simp_all add: tinv_defs isReading_def isWriting_def isNoneEvent_def)

lemma none_writing: "isNoneEvent ch \<Longrightarrow> \<not> isWriting ch"
  using channel_none(3) by blast

lemma none_reading: "isNoneEvent ch \<Longrightarrow> \<not> isReading ch"
  using channel_none(2) by blast

lemma tinv_new: "tinv (new_connection wc hw)"
  by (simp add: tinv_defs new_connection_def new_buffer_ok new_channel_def isNoneEvent_def poll_masks)

text \<open>Bookkeeping that the invariant does not see.\<close>

lemma tinv_task:
  assumes "tinv c" "conn_state c \<noteq> kConnecting" "t = ShutdownInLoop \<Longrightarrow> conn_state c \<noteq> kConnected"
  shows "tinv (queue_task t c)"
  using assms by (cases "conn_state c") (auto simp: tinv_defs queue_task_def)

lemma tinv_report: "tinv c \<Longrightarrow> \<not> updown r \<Longrightarrow> tinv (report r c)"
  by (simp add: tinv_defs report_def)

lemma tinv_pop: "tinv c \<Longrightarrow> tasks c = t # ts \<Longrightarrow> tinv (c\<lparr>tasks := ts\<rparr>)"
  by (auto simp: tinv_defs)

text \<open>A connection that may send.\<close>

lemma tinv_open:
  assumes "tinv c" "conn_state c \<noteq> kDisconnected" "conn_state c \<noteq> kConnecting"
  shows "isReading (channel c)" "isWriting (channel c) = (content (outputBuffer c) \<noteq> [])"
    "fin c \<Longrightarrow> content (outputBuffer c) = []" "readableBytes (outputBuffer c) = length (content (outputBuffer c))"
  using assms by (cases "conn_state c"; auto simp: tinv_defs readable_content)+

lemma direct_write_busy:
  "isWriting (channel c) \<Longrightarrow> direct_write data w c = (c, 0, False)"
  by (simp add: direct_write_def)

lemma direct_write_tinv:
  assumes inv: "tinv c" and st: "conn_state c \<noteq> kDisconnected" "conn_state c \<noteq> kConnecting"
    and pos: "possible data c w" and dw: "direct_write data w c = (c1, n, err)"
  shows "tinv c1 \<and> conn_state c1 = conn_state c \<and> (fin c1 \<longrightarrow> err)"
proof (cases "isWriting (channel c)")
  case True
  then have "\<not> fin c" using tinv_open [OF inv st] by auto
  with True dw inv show ?thesis by (simp add: direct_write_busy)
next
  case False
  then have empty: "content (outputBuffer c) = []" "readableBytes (outputBuffer c) = 0"
    using tinv_open [OF inv st] by auto
  have "tinv (c\<lparr>sent := sent c @ xs, accepted := accepted c @ xs\<rparr>)" for xs
    using inv empty(1) by (auto simp: tinv_defs)
  moreover from this have "tinv (queue_task WriteComplete (c\<lparr>sent := sent c @ xs, accepted := accepted c @ xs\<rparr>))" for xs
    using st by (intro tinv_task) auto
  ultimately show ?thesis
    using dw pos inv False empty(2)
    by (cases w) (auto simp: direct_write_def possible_def queue_task_def Let_def split: if_splits)
qed

lemma buffer_rest_tinv:
  assumes inv: "tinv c" and st: "conn_state c \<noteq> kDisconnected" "conn_state c \<noteq> kConnecting" and "\<not> fin c" "rest \<noteq> []"
  shows "\<exists>c'. buffer_rest rest c = Some c' \<and> tinv c' \<and> isWriting (channel c') \<and> conn_state c' = conn_state c
    \<and> accepted c' = accepted c @ rest"
proof -
  define d where "d = (if highWaterMark c \<le> readableBytes (outputBuffer c) + length rest
    \<and> readableBytes (outputBuffer c) < highWaterMark c \<and> has_highWater c
    then queue_task (HighWaterMark (readableBytes (outputBuffer c) + length rest)) c else c)"
  have d: "tinv d" "conn_state d = conn_state c" "outputBuffer d = outputBuffer c" "accepted d = accepted c" "fin d = fin c"
    "channel d = channel c"
    using inv st unfolding d_def by (auto simp: queue_task_def intro!: tinv_task [unfolded queue_task_def])
  from d(1) have "buf_inv (outputBuffer d)" by (simp add: tinv_def)
  from append_data_ok [OF this, of rest] obtain out where
    out: "append_data rest (outputBuffer d) = Some out" "buf_inv out" "content out = content (outputBuffer d) @ rest" by blast
  have op: "isReading (channel d)" "isWriting (channel d) = (content (outputBuffer d) \<noteq> [])"
    by (rule tinv_open [OF d(1)]; use st d(2) in simp)+
  define e where "e = d\<lparr>outputBuffer := out, accepted := accepted d @ rest\<rparr>"
  define e' where "e' = (if \<not> isWriting (channel e) then e\<lparr>channel := enableWriting (channel e)\<rparr> else e)"
  have e: "buf_inv (outputBuffer e)" "content (outputBuffer e) = content (outputBuffer d) @ rest" "channel e = channel d"
    "sent e @ content (outputBuffer e) = accepted e" "inputBuffer e = inputBuffer d" "conn_state e = conn_state d"
    "fin e = fin d" "tasks e = tasks d" "reports e = reports d"
    using d(1) out by (simp_all add: e_def tinv_def flip: append_assoc)
  have "tinv e'"
    using d(1,2,5) st op assms(4,5) e by (cases "conn_state d") (auto simp: tinv_defs e'_def)
  moreover have "isWriting (channel e')" "conn_state e' = conn_state c" "accepted e' = accepted c @ rest"
    using d by (simp_all add: e'_def e_def)
  moreover have "buffer_rest rest c = Some e'"
    using out(1) d(3) by (simp add: buffer_rest_def Let_def d_def [symmetric] e_def e'_def)
  ultimately show ?thesis by blast
qed

lemma sendInLoop_tinv:
  assumes inv: "tinv c" and st: "conn_state c \<noteq> kConnecting" and pos: "possible data c w"
  shows "\<exists>c'. sendInLoop data w c = Some c' \<and> tinv c'"
proof (cases "conn_state c = kDisconnected")
  case True
  then show ?thesis using inv by (simp add: sendInLoop_def)
next
  case False
  obtain c1 n err where dw: "direct_write data w c = (c1, n, err)" using prod_cases3 by blast
  note d = direct_write_tinv [OF inv False st pos dw]
  show ?thesis
  proof (cases "\<not> err \<and> 0 < length data - n")
    case True
    with d False st buffer_rest_tinv [of c1 "drop n data"] dw show ?thesis by (auto simp: sendInLoop_def)
  next
    case False
    with d dw \<open>conn_state c \<noteq> kDisconnected\<close> show ?thesis by (auto simp: sendInLoop_def)
  qed
qed

lemma shutdownInLoop_tinv:
  assumes "tinv c" "conn_state c = kDisconnecting \<or> conn_state c = kDisconnected"
  shows "tinv (shutdownInLoop c)"
  using assms by (auto simp: shutdownInLoop_def tinv_defs)

lemma shutdown_tinv: "tinv c \<Longrightarrow> tinv (shutdown in_loop c)"
proof -
  assume inv: "tinv c"
  have "conn_state c = kConnected \<Longrightarrow> tinv (setState kDisconnecting c)"
    using inv by (auto simp: tinv_defs setState_def)
  then show ?thesis
    using inv by (auto simp: shutdown_def Let_def setState_def intro!: shutdownInLoop_tinv tinv_task)
qed

lemma connectEstablished_tinv: "tinv c \<Longrightarrow> connectEstablished c = Some c' \<Longrightarrow> tinv c'"
  by (auto simp: connectEstablished_def tinv_defs setState_def report_def updown_def dest: none_writing split: Option.bind_splits)

definition go_down :: "tcp_connection \<Rightarrow> tcp_connection" where
  "go_down c = report ConnectionDown ((setState kDisconnected c)\<lparr>channel := disableAll (channel c)\<rparr>)"

lemma tinv_down:
  assumes "tinv c" "conn_state c = kConnected \<or> conn_state c = kDisconnecting"
  shows "tinv (go_down c)"
proof -
  have "filter updown (reports c) = [ConnectionUp]" using assms by (auto simp: tinv_def)
  then show ?thesis using assms(1) by (simp add: tinv_defs go_down_def setState_def report_def updown_def)
qed

lemma handleClose_down:
  "handleClose c = (if conn_state c = kConnected \<or> conn_state c = kDisconnecting
     then Some (report ConnectionClosed (go_down c)) else None)"
  by (simp add: handleClose_def go_down_def setState_def)

lemma handleClose_tinv: "tinv c \<Longrightarrow> handleClose c = Some c' \<Longrightarrow> tinv c'"
  by (auto simp: handleClose_down updown_def intro!: tinv_report tinv_down split: if_splits)

lemma connectDestroyed_down:
  "connectDestroyed c = (let d = if conn_state c = kConnected then go_down c else c
     in if isNoneEvent (channel d) \<and> phase c \<noteq> Active \<and> phase c \<noteq> Handled \<and> added c then Some (d\<lparr>added := False\<rparr>) else None)"
  by (auto simp: connectDestroyed_def removeChannel_def go_down_def setState_def report_def Let_def)

lemma connectDestroyed_tinv: "tinv c \<Longrightarrow> connectDestroyed c = Some c' \<Longrightarrow> tinv c'"
  by (auto simp: connectDestroyed_down Let_def tinv_frame intro!: tinv_down split: if_splits)

lemma tinv_up:
  assumes "tinv c" "\<not> isNoneEvent (channel c)"
  shows "conn_state c = kConnected \<or> conn_state c = kDisconnecting"
  using assms unfolding tinv_def watching_def by metis

lemma handleRead_tinv:
  assumes "tinv c" "conn_state c \<noteq> kConnecting" "\<forall>b. buf_inv b \<longrightarrow> buf_inv (f b)"
  shows "if conn_state c = kDisconnected \<and> r = Inr [] then handleRead f r c = None
    else \<exists>c'. handleRead f r c = Some c' \<and> tinv c'"
proof -
  have keep: "tinv (c\<lparr>inputBuffer := b\<rparr>)" if "buf_inv b" for b using assms(1) that by (simp add: tinv_defs)
  have inb: "buf_inv (inputBuffer c)" using assms(1) by (simp add: tinv_def)
  show ?thesis
  proof (cases r)
    case (Inl e)
    then show ?thesis using keep [OF inb]
      by (auto simp: handleRead_def readFd_def handleError_def updown_def intro!: tinv_report)
  next
    case (Inr d)
    obtain b where b: "readFd (Inr d) (inputBuffer c) = Some (Inr (length d) :: unit + nat, b)" "buf_inv b"
      using readFd_ok [OF inb, of d] by blast
    show ?thesis
      using Inr b keep [of "f b"] keep [OF b(2)] assms(2,3)
      by (cases "conn_state c"; cases d)
        (auto simp: handleRead_def handleClose_down updown_def intro!: tinv_report tinv_down)
  qed
qed

lemma handleWrite_tinv:
  assumes inv: "tinv c" and wr: "isWriting (channel c)" and pos: "possible (content (outputBuffer c)) c w"
  shows "\<exists>c'. handleWrite w c = Some c' \<and> tinv c'"
proof (cases "\<exists>n. w = Wrote n \<and> 0 < n")
  case False
  with wr inv show ?thesis by (cases w) (auto simp: handleWrite_def)
next
  case True
  then obtain n where w: "w = Wrote n" "0 < n" by blast
  have st: "conn_state c = kConnected \<or> conn_state c = kDisconnecting"
    using tinv_up [OF inv] none_writing wr by blast
  have nf: "\<not> fin c" and n: "n \<le> length (content (outputBuffer c))" using pos w by (auto simp: possible_def split: if_splits)
  have buf: "buf_inv (outputBuffer c)" using inv by (simp add: tinv_def)
  obtain out where out: "retrieve n (outputBuffer c) = Some out" "buf_inv out"
    "content out = drop n (content (outputBuffer c))" using retrieve_ok [OF buf n] by blast
  have data: "bytes_at (outputBuffer c) (peek (outputBuffer c)) (readableBytes (outputBuffer c)) = content (outputBuffer c)"
    using buf by (simp add: bytes_at_content readable_content)
  define d where "d = c\<lparr>sent := sent c @ take n (content (outputBuffer c)), outputBuffer := out\<rparr>"
  have d: "sent d @ content out = accepted d" using inv out(3) by (simp add: d_def tinv_def)
  show ?thesis
  proof (cases "content out = []")
    case False
    have "tinv d" using inv st out d False nf by (auto simp: tinv_defs d_def)
    then show ?thesis using wr w out False data
      by (auto simp: handleWrite_def d_def readable_content Let_def)
  next
    case True
    define e where "e = d\<lparr>channel := disableWriting (channel d)\<rparr>"
    have e: "tinv e" "\<not> isWriting (channel e)" "conn_state e = conn_state c"
      using inv st out d True nf by (auto simp: tinv_defs e_def d_def)
    define g where "g = (if has_writeComplete e then queue_task WriteComplete e else e)"
    have g: "tinv g" "conn_state g = conn_state c"
      using e st unfolding g_def by (auto simp: queue_task_def intro!: tinv_task [unfolded queue_task_def])
    have "tinv (if conn_state g = kDisconnecting then shutdownInLoop g else g)"
      using g by (auto intro: shutdownInLoop_tinv)
    moreover have "handleWrite w c = Some (if conn_state g = kDisconnecting then shutdownInLoop g else g)"
      using wr w out True data
      by (simp add: handleWrite_def readable_content Let_def g_def e_def d_def)
    ultimately show ?thesis by blast
  qed
qed

lemma send_data_tinv:
  assumes "tinv c" "possible data c w"
  shows "\<exists>c'. send_data in_loop data w c = Some c' \<and> tinv c'"
  using assms sendInLoop_tinv [OF assms(1) _ assms(2)] by (auto simp: send_data_def intro!: tinv_task)

lemma handleWrite_idle: "\<not> isWriting (channel c) \<Longrightarrow> handleWrite w c = Some c"
  by (simp add: handleWrite_def)

section \<open>The dispatch\<close>

text \<open>What no operation but the dispatch itself changes.\<close>

definition frame :: "tcp_connection \<Rightarrow> dispatch \<times> bool \<times> handler io_channel" where
  "frame c = (phase c, added c, (channel c)\<lparr>events := 0, tied := True\<rparr>)"

lemmas frame_defs = frame_def queue_task_def report_def setState_def enableWriting_def disableWriting_def disableAll_def

lemma direct_write_frame: "direct_write data w c = (c', n, e) \<Longrightarrow> frame c' = frame c \<and> conn_state c' = conn_state c"
  by (auto simp: direct_write_def frame_defs Let_def split: if_splits wresult.splits)

lemma buffer_rest_frame: "buffer_rest d c = Some c' \<Longrightarrow> frame c' = frame c \<and> conn_state c' = conn_state c"
  by (auto simp: buffer_rest_def frame_defs Let_def split: if_splits Option.bind_splits)

lemma sendInLoop_frame: "sendInLoop data w c = Some c' \<Longrightarrow> frame c' = frame c \<and> conn_state c' = conn_state c"
  by (auto simp: sendInLoop_def split: if_splits prod.splits dest!: buffer_rest_frame direct_write_frame)

lemma send_data_frame: "send_data in_loop data w c = Some c' \<Longrightarrow> frame c' = frame c \<and> conn_state c' = conn_state c"
  by (auto simp: send_data_def frame_defs split: if_splits dest!: sendInLoop_frame [unfolded frame_defs])

lemma shutdownInLoop_frame: "frame (shutdownInLoop c) = frame c \<and> conn_state (shutdownInLoop c) = conn_state c"
  by (simp add: shutdownInLoop_def frame_defs)

lemma shutdown_frame: "frame (shutdown in_loop c) = frame c
  \<and> conn_state (shutdown in_loop c) = (if conn_state c = kConnected then kDisconnecting else conn_state c)"
  by (simp add: shutdown_def shutdownInLoop_def frame_defs Let_def)

lemma handleWrite_frame: "handleWrite w c = Some c' \<Longrightarrow> frame c' = frame c \<and> conn_state c' = conn_state c"
  by (auto simp: handleWrite_def shutdownInLoop_def frame_defs Let_def split: if_splits wresult.splits Option.bind_splits)

lemma go_down_frame: "frame (go_down c) = frame c \<and> conn_state (go_down c) = kDisconnected"
  by (simp add: go_down_def frame_defs)

lemma handleClose_frame: "handleClose c = Some c' \<Longrightarrow> frame c' = frame c \<and> conn_state c' = kDisconnected"
  using go_down_frame [of c] by (auto simp: handleClose_down frame_def report_def split: if_splits)

lemma handleRead_frame:
  "handleRead f r c = Some c' \<Longrightarrow> frame c' = frame c \<and> (conn_state c' = conn_state c \<or> conn_state c' = kDisconnected)"
  by (auto simp: handleRead_def handleError_def frame_def report_def
      dest!: handleClose_frame split: Option.bind_splits sum.splits if_splits)

text \<open>
  The close callback comes first or not at all, so that it finds the connection open; a read callback that
  finds it closed was called after it, because of a hang-up without data, or the channel is gone from the poller.
\<close>

definition hung_up :: "handler io_channel \<Rightarrow> bool" where
  "hung_up ch \<longleftrightarrow> revents ch AND POLLHUP \<noteq> 0 \<and> revents ch AND POLLIN = 0 \<and> revents ch AND (POLLPRI OR POLLRDHUP) \<noteq> 0"

abbreviation is_open :: "tcp_connection \<Rightarrow> bool" where
  "is_open c \<equiv> conn_state c = kConnected \<or> conn_state c = kDisconnecting"

definition phase_ok :: "tcp_connection \<Rightarrow> bool" where
  "phase_ok c \<longleftrightarrow> closeCallback (channel c) = Some HandleClose \<and> readCallback (channel c) = Some HandleRead
     \<and> writeCallback (channel c) = Some HandleWrite \<and> errorCallback (channel c) = Some HandleError
     \<and> (conn_state c = kConnecting \<longrightarrow> \<not> added c \<and> phase c = Quiet) \<and> (is_open c \<longrightarrow> added c)
     \<and> (phase c = Active \<longrightarrow> is_open c)
     \<and> (\<forall>hs. phase c = Handling hs \<longrightarrow> distinct hs \<and> HandleClose \<notin> set hs
          \<and> (HandleRead \<in> set hs \<and> conn_state c = kDisconnected \<and> added c \<longrightarrow> hung_up (channel c)))"

lemma phase_frame:
  assumes "phase_ok c" "frame c' = frame c"
    "conn_state c' = conn_state c \<or> conn_state c = kConnected \<and> conn_state c' = kDisconnecting"
  shows "phase_ok c'"
proof -
  obtain ch' ch where ch: "channel c' = ch'" "channel c = ch" by simp
  have "ch'\<lparr>events := 0, tied := True\<rparr> = ch\<lparr>events := 0, tied := True\<rparr>" "phase c' = phase c" "added c' = added c"
    using assms(2) ch by (simp_all add: frame_def)
  then show ?thesis using assms(1,3) ch
    by (cases ch; cases ch'; cases "conn_state c") (auto simp: phase_ok_def hung_up_def)
qed

lemma and_or_zero: "(r :: u32) AND (a OR b) = 0 \<longleftrightarrow> r AND a = 0 \<and> r AND b = 0"
  by (simp add: bit.conj_disj_distrib or_eq_0_iff)

lemma dispatch_order:
  assumes "closeCallback ch = Some HandleClose" "readCallback ch = Some HandleRead"
    "writeCallback ch = Some HandleWrite" "errorCallback ch = Some HandleError" "handleEvent True ch = h # hs"
  shows "distinct (h # hs) \<and> HandleClose \<notin> set hs \<and> (h = HandleClose \<and> HandleRead \<in> set hs \<longrightarrow> hung_up ch)"
proof -
  have "handleEventWithGuard ch = h # hs" using assms(5) by (simp add: handleEvent_def split: if_splits)
  then show ?thesis
    using assms(1-4) by (auto simp: handleEventWithGuard_def hung_up_def and_or_zero Let_def split: if_splits)
qed

lemma next_handler_ok:
  assumes p: "phase_ok c" and n: "next_handler c = Some (h, hs)"
  shows "phase_ok (c\<lparr>phase := Handling hs\<rparr>)" "conn_state c \<noteq> kConnecting"
    "h = HandleClose \<Longrightarrow> is_open c \<and> (HandleRead \<in> set hs \<longrightarrow> hung_up (channel c))"
    "h = HandleRead \<Longrightarrow> HandleRead \<notin> set hs \<and> (conn_state c = kDisconnected \<and> added c \<longrightarrow> hung_up (channel c))"
proof -
  have a: "phase c = Active \<and> handleEvent True (channel c) = h # hs \<and> is_open c \<or> phase c = Handling (h # hs)"
    using p n by (auto simp: next_handler_def phase_ok_def split: dispatch.splits list.splits)
  note order = dispatch_order [of "channel c" h hs]
  show "conn_state c \<noteq> kConnecting" using a p by (auto simp: phase_ok_def)
  show "phase_ok (c\<lparr>phase := Handling hs\<rparr>)" using a p order by (auto simp: phase_ok_def)
  show "h = HandleClose \<Longrightarrow> is_open c \<and> (HandleRead \<in> set hs \<longrightarrow> hung_up (channel c))"
    using a p order by (auto simp: phase_ok_def)
  show "h = HandleRead \<Longrightarrow> HandleRead \<notin> set hs \<and> (conn_state c = kDisconnected \<and> added c \<longrightarrow> hung_up (channel c))"
    using a p order by (auto simp: phase_ok_def)
qed

lemma close_phase:
  assumes p: "phase_ok c" and f: "frame c' = frame c" and st: "conn_state c' = kDisconnected" "conn_state c \<noteq> kConnecting"
    and ph: "phase c = Handling hs" and hr: "HandleRead \<in> set hs \<longrightarrow> hung_up (channel c)"
  shows "phase_ok c'"
proof -
  obtain ch' ch where ch: "channel c' = ch'" "channel c = ch" by simp
  have "ch'\<lparr>events := 0, tied := True\<rparr> = ch\<lparr>events := 0, tied := True\<rparr>" "phase c' = phase c" "added c' = added c"
    using f ch by (simp_all add: frame_def)
  then show ?thesis using p st ph hr ch
    by (cases ch; cases ch') (auto simp: phase_ok_def hung_up_def)
qed

lemma phase_pop: "phase_ok (c\<lparr>tasks := ts\<rparr>) = phase_ok c" "frame (c\<lparr>tasks := ts\<rparr>) = frame c"
  by (simp_all add: phase_ok_def frame_def)

lemma report_frame: "frame (report r c) = frame c" "conn_state (report r c) = conn_state c"
  by (simp_all add: frame_def report_def)

definition cinv :: "tcp_connection \<Rightarrow> bool" where
  "cinv c \<longleftrightarrow> tinv c \<and> phase_ok c"

lemma cinv_new: "cinv (new_connection wc hw)"
  using tinv_new by (simp add: cinv_def phase_ok_def new_connection_def)

lemma established_cinv:
  assumes "cinv c" "phase c = Quiet" "connectEstablished c = Some c'"
  shows "cinv c'"
proof -
  have "phase_ok c'" using assms
    by (auto simp: cinv_def phase_ok_def connectEstablished_def setState_def report_def enableReading_def tie_def
        split: Option.bind_splits)
  with assms connectEstablished_tinv show ?thesis by (auto simp: cinv_def)
qed

lemma destroyed_cinv:
  assumes "cinv c" "connectDestroyed c = Some c'"
  shows "cinv c'"
proof -
  have "phase_ok c'" using assms
    by (auto simp: cinv_def phase_ok_def connectDestroyed_down go_down_def setState_def report_def disableAll_def Let_def
        tinv_defs split: if_splits dest: none_reading)
  with assms connectDestroyed_tinv show ?thesis by (auto simp: cinv_def)
qed

lemma reading_cinv:
  assumes inv: "cinv c" and n: "next_handler c = Some (HandleRead, hs)" and f: "\<forall>b. buf_inv b \<longrightarrow> buf_inv (f b)"
    and h: "handleRead f r (c\<lparr>phase := Handling hs\<rparr>) = Some c'"
  shows "cinv c'"
proof -
  let ?d = "c\<lparr>phase := Handling hs\<rparr>"
  have p: "phase_ok c" and d: "tinv ?d" using inv by (simp_all add: cinv_def tinv_frame)
  note ok = next_handler_ok [OF p n]
  have "tinv c'" using handleRead_tinv [OF d _ f, of r] ok(2) h by (auto split: if_splits)
  moreover from handleRead_frame [OF h] have "phase_ok c'"
    using ok(1,2,4) phase_frame [OF ok(1)] close_phase [OF ok(1)] by auto
  ultimately show ?thesis by (simp add: cinv_def)
qed

lemma writing_cinv:
  assumes inv: "cinv c" and n: "next_handler c = Some (HandleWrite, hs)" and pos: "possible (content (outputBuffer c)) c w"
    and h: "handleWrite w (c\<lparr>phase := Handling hs\<rparr>) = Some c'"
  shows "cinv c'"
proof -
  let ?d = "c\<lparr>phase := Handling hs\<rparr>"
  have p: "phase_ok c" and d: "tinv ?d" using inv by (simp_all add: cinv_def tinv_frame)
  have pos': "possible (content (outputBuffer ?d)) ?d w" using pos by (simp add: possible_def)
  have "tinv c'"
    using handleWrite_tinv [OF d _ pos'] h d by (cases "isWriting (channel ?d)") (auto simp: handleWrite_idle)
  moreover from handleWrite_frame [OF h] have "phase_ok c'"
    using phase_frame [OF next_handler_ok(1) [OF p n], of c'] by auto
  ultimately show ?thesis by (simp add: cinv_def)
qed

lemma closing_cinv:
  assumes inv: "cinv c" and n: "next_handler c = Some (HandleClose, hs)"
    and h: "handleClose (c\<lparr>phase := Handling hs\<rparr>) = Some c'"
  shows "cinv c'"
proof -
  have p: "phase_ok c" and d: "tinv (c\<lparr>phase := Handling hs\<rparr>)" using inv by (simp_all add: cinv_def tinv_frame)
  note ok = next_handler_ok [OF p n]
  from handleClose_frame [OF h] ok(2,3) have "phase_ok c'" by (intro close_phase [OF ok(1), of c' hs]) auto
  with handleClose_tinv [OF d h] show ?thesis by (simp add: cinv_def)
qed

lemma task_send_cinv:
  assumes inv: "cinv c" and t: "tasks c = SendInLoop data # ts" and pos: "possible data c w"
    and s: "sendInLoop data w (c\<lparr>tasks := ts\<rparr>) = Some c'"
  shows "cinv c'"
proof -
  have i: "tinv c" "phase_ok c" using inv by (simp_all add: cinv_def)
  have "conn_state c \<noteq> kConnecting" using i(1) t by (auto simp: tinv_defs)
  moreover have "possible data (c\<lparr>tasks := ts\<rparr>) w" using pos by (simp add: possible_def)
  ultimately have "tinv c'" using sendInLoop_tinv [OF tinv_pop [OF i(1) t]] s by force
  moreover have "phase_ok c'"
    using sendInLoop_frame [OF s] phase_frame [OF i(2), of c'] by (simp add: phase_pop)
  ultimately show ?thesis by (simp add: cinv_def)
qed

lemma tstep_cinv: "tstep c c' \<Longrightarrow> cinv c \<Longrightarrow> cinv c'"
proof (induction rule: tstep.induct)
  case (sending data c w in_loop c')
  then show ?case
    using send_data_tinv [of c data w in_loop] send_data_frame phase_frame [of c c'] by (auto simp: cinv_def)
next
  case (shutting c in_loop)
  then show ?case using shutdown_tinv shutdown_frame [of in_loop c] phase_frame [of c "shutdown in_loop c"]
    by (auto simp: cinv_def split: if_splits)
next
  case (task_shutdown c ts)
  have "tinv (shutdownInLoop (c\<lparr>tasks := ts\<rparr>))"
    using task_shutdown by (intro shutdownInLoop_tinv tinv_pop) (auto simp: cinv_def tinv_defs)
  with task_shutdown shutdownInLoop_frame [of "c\<lparr>tasks := ts\<rparr>"] phase_frame [of c "shutdownInLoop (c\<lparr>tasks := ts\<rparr>)"]
  show ?case by (simp add: cinv_def phase_pop)
next
  case (task_complete c ts)
  then show ?case using phase_frame [of c "report WriteCompleted (c\<lparr>tasks := ts\<rparr>)"]
    by (auto simp: cinv_def report_frame phase_pop updown_def intro!: tinv_report tinv_pop)
next
  case (task_high c n ts)
  then show ?case using phase_frame [of c "report (HighWater n) (c\<lparr>tasks := ts\<rparr>)"]
    by (auto simp: cinv_def report_frame phase_pop updown_def intro!: tinv_report tinv_pop)
next
  case (polled c r)
  have "is_open c" using polled tinv_up by (auto simp: cinv_def)
  with polled show ?case by (auto simp: cinv_def tinv_frame phase_ok_def)
next
  case (failing c hs)
  have "phase_ok (c\<lparr>phase := Handling hs\<rparr>)" using failing next_handler_ok(1) by (auto simp: cinv_def)
  then have "phase_ok (handleError (c\<lparr>phase := Handling hs\<rparr>))"
    using phase_frame [of "c\<lparr>phase := Handling hs\<rparr>" "handleError (c\<lparr>phase := Handling hs\<rparr>)"]
    by (auto simp: handleError_def report_frame)
  with failing show ?case by (simp add: cinv_def handleError_def tinv_report tinv_frame updown_def)
next
  case (handled c)
  then show ?case by (auto simp: cinv_def tinv_frame phase_ok_def)
next
  case (round_over c)
  then show ?case by (auto simp: cinv_def tinv_frame phase_ok_def)
qed (blast intro: established_cinv destroyed_cinv reading_cinv writing_cinv closing_cinv task_send_cinv)+

lemma treach_cinv: "treach c \<Longrightarrow> cinv c"
  by (induction rule: treach.induct) (auto intro: cinv_new tstep_cinv)

lemma treach_tinv: "treach c \<Longrightarrow> tinv c"
  using treach_cinv by (simp add: cinv_def)

section \<open>Flushing\<close>

text \<open>The loop reports the socket writable again and again; \<open>ns\<close> are the numbers of bytes the kernel would take
  each time, 0 when it takes none after all.\<close>

definition kernel_takes :: "nat \<Rightarrow> tcp_connection \<Rightarrow> wresult" where
  "kernel_takes n c = (if n = 0 then EWOULDBLOCK else Wrote (min n (readableBytes (outputBuffer c))))"

primrec flush :: "nat list \<Rightarrow> tcp_connection \<Rightarrow> tcp_connection option" where
  "flush [] c = Some c"
| "flush (n # ns) c = Option.bind (handleWrite (kernel_takes n c) c) (flush ns)"

lemma handleWrite_some:
  assumes inv: "tinv c" and st: "conn_state c = kConnected \<or> conn_state c = kDisconnecting"
    and n: "0 < n" "n \<le> length (content (outputBuffer c))" and nf: "\<not> fin c"
  shows "\<exists>c'. handleWrite (Wrote n) c = Some c' \<and> tinv c' \<and> sent c' = sent c @ take n (content (outputBuffer c))
    \<and> content (outputBuffer c') = drop n (content (outputBuffer c)) \<and> conn_state c' = conn_state c
    \<and> accepted c' = accepted c \<and> (fin c' \<longleftrightarrow> n = length (content (outputBuffer c)) \<and> conn_state c = kDisconnecting)"
proof -
  have wr: "isWriting (channel c)" using inv st n by (auto simp: tinv_defs)
  have "possible (content (outputBuffer c)) c (Wrote n)" using n nf by (auto simp: possible_def)
  from handleWrite_tinv [OF inv wr this] obtain c' where c': "handleWrite (Wrote n) c = Some c'" "tinv c'" by blast
  have buf: "buf_inv (outputBuffer c)" using inv by (simp add: tinv_def)
  obtain out where out: "retrieve n (outputBuffer c) = Some out" "buf_inv out"
    "content out = drop n (content (outputBuffer c))" using retrieve_ok [OF buf n(2)] by blast
  have data: "bytes_at (outputBuffer c) (peek (outputBuffer c)) (readableBytes (outputBuffer c)) = content (outputBuffer c)"
    using buf by (simp add: bytes_at_content readable_content)
  show ?thesis
    using c' wr n out data nf
    by (auto simp: handleWrite_def readable_content queue_task_def shutdownInLoop_def Let_def split: if_splits)
qed

definition flushing :: "tcp_connection \<Rightarrow> bool" where
  "flushing c \<longleftrightarrow> content (outputBuffer c) \<noteq> [] \<and> isWriting (channel c) \<and> \<not> fin c"

definition flushed :: "StateE \<Rightarrow> byte list \<Rightarrow> tcp_connection \<Rightarrow> bool" where
  "flushed st bs c \<longleftrightarrow> content (outputBuffer c) = [] \<and> sent c = bs \<and> \<not> isWriting (channel c) \<and> (fin c \<longleftrightarrow> st = kDisconnecting)"

lemma flush_all:
  "tinv c \<Longrightarrow> is_open c \<Longrightarrow> \<not> fin c \<Longrightarrow> content (outputBuffer c) \<noteq> [] \<Longrightarrow>
    length (content (outputBuffer c)) \<le> length (filter ((<) 0) ns) \<Longrightarrow>
    \<exists>k \<le> length ns. (\<forall>j < k. \<exists>d. flush (take j ns) c = Some d \<and> flushing d)
      \<and> (\<exists>d. flush (take k ns) c = Some d \<and> flushed (conn_state c) (accepted c) d)"
proof (induction ns arbitrary: c)
  case (Cons n ns)
  let ?o = "content (outputBuffer c)"
  have now: "flushing c" using Cons.prems by (auto simp: flushing_def tinv_defs)
  have lift: ?case if "handleWrite (kernel_takes n c) c = Some c'" "k \<le> length ns"
    "\<forall>j < k. \<exists>d. flush (take j ns) c' = Some d \<and> flushing d"
    "\<exists>d. flush (take k ns) c' = Some d \<and> flushed (conn_state c) (accepted c) d" for c' k
    using that now by (intro exI [of _ "Suc k"]) (auto simp: less_Suc_eq_0_disj)
  show ?case
  proof (cases "n = 0")
    case True
    then have "handleWrite (kernel_takes n c) c = Some c" by (simp add: handleWrite_def kernel_takes_def)
    with Cons.IH [OF Cons.prems(1-4)] Cons.prems(5) True lift show ?thesis by auto
  next
    case False
    define m where "m = min n (length ?o)"
    have m: "0 < m" "m \<le> length ?o" using False Cons.prems(4) by (simp_all add: m_def)
    have "buf_inv (outputBuffer c)" using Cons.prems(1) by (simp add: tinv_def)
    then have w: "kernel_takes n c = Wrote m" using False by (simp add: kernel_takes_def m_def readable_content)
    obtain c' where c': "handleWrite (Wrote m) c = Some c'" "tinv c'" "sent c' = sent c @ take m ?o"
      "content (outputBuffer c') = drop m ?o" "conn_state c' = conn_state c" "accepted c' = accepted c"
      "fin c' \<longleftrightarrow> m = length ?o \<and> conn_state c = kDisconnecting"
      using handleWrite_some [OF Cons.prems(1,2) m Cons.prems(3)] by blast
    show ?thesis
    proof (cases "m = length ?o")
      case True
      have "sent c @ ?o = accepted c" using Cons.prems(1) by (simp add: tinv_def)
      moreover have "\<not> isWriting (channel c')" using c' Cons.prems(2) True by (auto simp: tinv_defs)
      ultimately have "flushed (conn_state c) (accepted c) c'" using c' True by (simp add: flushed_def)
      with lift [of c' 0] c'(1) w show ?thesis by simp
    next
      case rest: False
      with m c' Cons.prems False have "\<not> fin c'" "content (outputBuffer c') \<noteq> []"
        "length (content (outputBuffer c')) \<le> length (filter ((<) 0) ns)" by auto
      from Cons.IH [OF c'(2) _ this] Cons.prems(2) c'(5,6) obtain k where
        "k \<le> length ns" "\<forall>j < k. \<exists>d. flush (take j ns) c' = Some d \<and> flushing d"
        "\<exists>d. flush (take k ns) c' = Some d \<and> flushed (conn_state c) (accepted c) d" by auto
      with lift [of c' k] c'(1) w show ?thesis by simp
    qed
  qed
qed simp

section \<open>Properties\<close>

lemma sendInLoop_accepts:
  assumes inv: "tinv c" and st: "conn_state c \<noteq> kConnecting" and pos: "possible data c w"
    and send: "sendInLoop data w c = Some c'"
  shows "accepted c' = accepted c @ data \<or> accepted c' = accepted c \<and> (w = EPIPE \<or> conn_state c = kDisconnected)"
proof (cases "conn_state c = kDisconnected")
  case True
  then show ?thesis using send by (simp add: sendInLoop_def)
next
  case False
  obtain c1 n err where dw: "direct_write data w c = (c1, n, err)" using prod_cases3 by blast
  note d = direct_write_tinv [OF inv False st pos dw]
  have acc: "accepted c1 = accepted c @ take n data" "err \<Longrightarrow> n = 0 \<and> w = EPIPE"
    using dw by (auto simp: direct_write_def queue_task_def Let_def split: if_splits wresult.splits)
  show ?thesis
  proof (cases "\<not> err \<and> n < length data")
    case True
    then have r: "drop n data \<noteq> []" "\<not> err" by auto
    have "sendInLoop data w c = buffer_rest (drop n data) c1"
      using True False dw by (simp add: sendInLoop_def)
    with send buffer_rest_tinv [of c1 "drop n data"] d False st r acc(1) show ?thesis by auto
  next
    case False
    with send dw \<open>conn_state c \<noteq> kDisconnected\<close> have "c' = c1" by (auto simp: sendInLoop_def)
    with acc False show ?thesis by (cases err) auto
  qed
qed

text \<open>C8: Nothing that is sent is lost, duplicated or reordered. In every reachable state the bytes the kernel has
  taken followed by those in the output buffer are exactly the bytes accepted, in order; a message sent is
  accepted whole, unless the peer is gone, when nothing of it is; and writable events are asked for
  exactly while an open connection has something buffered.\<close>
theorem bytes_in_order:
  assumes "treach c"
  shows "sent c @ content (outputBuffer c) = accepted c
    \<and> (isWriting (channel c) \<longleftrightarrow> (conn_state c = kConnected \<or> conn_state c = kDisconnecting) \<and> content (outputBuffer c) \<noteq> [])
    \<and> (conn_state c \<noteq> kConnecting \<and> possible data c w \<longrightarrow> (\<exists>c'. sendInLoop data w c = Some c'
         \<and> (accepted c' = accepted c @ data \<or> accepted c' = accepted c \<and> (w = EPIPE \<or> conn_state c = kDisconnected))))"
proof -
  have inv: "tinv c" by (rule treach_tinv [OF assms])
  then have "sent c @ content (outputBuffer c) = accepted c"
    "isWriting (channel c) \<longleftrightarrow> (conn_state c = kConnected \<or> conn_state c = kDisconnecting) \<and> content (outputBuffer c) \<noteq> []"
    by (cases "conn_state c"; auto simp: tinv_defs none_writing)+
  with sendInLoop_accepts [OF inv] sendInLoop_tinv [OF inv] show ?thesis by meson
qed

text \<open>C10: Flushing ends, and only then the writing side is closed. Whatever the kernel takes at each writable event,
  nothing at all now and then, after some number of events everything accepted has been sent, the
  interest in writing is dropped and the writing side is closed if and only if a shutdown was asked for;
  this happens at the latest at the event at which it has taken something as often as there were
  bytes; before, the writing side is open and the interest is kept.\<close>
theorem flush_completes:
  assumes "treach c" "conn_state c = kConnected \<or> conn_state c = kDisconnecting" "content (outputBuffer c) \<noteq> []"
    "length (content (outputBuffer c)) \<le> length (filter (\<lambda>n. 0 < n) ns)"
  shows "\<exists>k \<le> length ns.
      (\<forall>j < k. \<exists>d. flush (take j ns) c = Some d \<and> content (outputBuffer d) \<noteq> [] \<and> isWriting (channel d) \<and> \<not> fin d)
    \<and> (\<exists>d. flush (take k ns) c = Some d \<and> content (outputBuffer d) = [] \<and> sent d = accepted c
        \<and> \<not> isWriting (channel d) \<and> (fin d \<longleftrightarrow> conn_state c = kDisconnecting))"
proof -
  have inv: "tinv c" by (rule treach_tinv [OF assms(1)])
  then have "\<not> fin c" using assms(2,3) by (auto simp: tinv_defs)
  from flush_all [OF inv assms(2) this assms(3,4)] show ?thesis
    by (simp add: flushing_def flushed_def)
qed

text \<open>C12: The user sees a connection go up once and down once, in this order, and the writing side is closed only
  after a shutdown was asked for and, unless the peer closed first, after everything accepted was sent.\<close>
theorem closing_protocol:
  assumes "treach c"
  shows "filter updown (reports c) = up_down (conn_state c)
    \<and> (fin c \<longrightarrow> conn_state c = kDisconnecting \<and> sent c = accepted c \<or> conn_state c = kDisconnected)"
  using treach_tinv [OF assms] by (auto simp: tinv_defs)

text \<open>C25: The callbacks that the loop calls on a connection, whatever the poller reports and the kernel answers, fail no
  assertion, except a read of zero bytes on a connection that is closed already: it asserts, and it can
  follow only a hang-up reported together with urgent data but no input, or a destruction by an earlier
  callback of the same dispatch. Sending never asserts. \<open>connectDestroyed\<close> asserts exactly when the
  poller does not know the channel (before \<open>connectEstablished\<close>, or the second time), when the connection is
  shutting down, or while the channel is active in the loop without being the current one.\<close>
theorem assertions_of_connection:
  assumes "treach c"
  shows "(next_handler c = Some (HandleClose, hs) \<longrightarrow> handleClose (c\<lparr>phase := Handling hs\<rparr>) \<noteq> None)
    \<and> (next_handler c = Some (HandleWrite, hs) \<and> possible (content (outputBuffer c)) c w \<longrightarrow>
         handleWrite w (c\<lparr>phase := Handling hs\<rparr>) \<noteq> None)
    \<and> (next_handler c = Some (HandleRead, hs) \<and> (\<forall>b. buf_inv b \<longrightarrow> buf_inv (f b)) \<longrightarrow>
         (handleRead f r (c\<lparr>phase := Handling hs\<rparr>) = None \<longleftrightarrow> conn_state c = kDisconnected \<and> r = Inr [])
       \<and> (conn_state c = kDisconnected \<longrightarrow> added c \<longrightarrow> revents (channel c) AND POLLHUP \<noteq> 0
            \<and> revents (channel c) AND POLLIN = 0 \<and> revents (channel c) AND (POLLPRI OR POLLRDHUP) \<noteq> 0))
    \<and> (possible data c w \<longrightarrow> send_data in_loop data w c \<noteq> None)
    \<and> (connectDestroyed c = None \<longleftrightarrow> \<not> added c \<or> conn_state c = kDisconnecting \<or> phase c = Active \<or> phase c = Handled)"
proof -
  have inv: "tinv c" and p: "phase_ok c" using treach_cinv [OF assms] by (simp_all add: cinv_def)
  have d: "tinv (c\<lparr>phase := Handling hs\<rparr>)" using inv by (simp add: tinv_frame)
  have "handleClose (c\<lparr>phase := Handling hs\<rparr>) \<noteq> None" if "next_handler c = Some (HandleClose, hs)"
    using next_handler_ok(3) [OF p that] by (auto simp: handleClose_down)
  moreover have "handleWrite w (c\<lparr>phase := Handling hs\<rparr>) \<noteq> None" if "possible (content (outputBuffer c)) c w"
  proof -
    have "possible (content (outputBuffer (c\<lparr>phase := Handling hs\<rparr>))) (c\<lparr>phase := Handling hs\<rparr>) w"
      using that by (simp add: possible_def)
    with handleWrite_tinv [OF d] show ?thesis
      by (cases "isWriting (channel (c\<lparr>phase := Handling hs\<rparr>))") (auto simp: handleWrite_idle)
  qed
  moreover have "(handleRead f r (c\<lparr>phase := Handling hs\<rparr>) = None \<longleftrightarrow> conn_state c = kDisconnected \<and> r = Inr [])
      \<and> (conn_state c = kDisconnected \<longrightarrow> added c \<longrightarrow> hung_up (channel c))"
    if n: "next_handler c = Some (HandleRead, hs)" and f: "\<forall>b. buf_inv b \<longrightarrow> buf_inv (f b)"
    using handleRead_tinv [OF d _ f, of r] next_handler_ok(2,4) [OF p n] by (auto split: if_splits)
  moreover have "connectDestroyed c = None \<longleftrightarrow> \<not> added c \<or> conn_state c = kDisconnecting \<or> phase c = Active \<or> phase c = Handled"
    using inv none_reading by (cases "conn_state c") (auto simp: connectDestroyed_down tinv_defs go_down_def report_def setState_def)
  ultimately show ?thesis
    using send_data_tinv [OF inv, of data w in_loop] by (auto simp: hung_up_def)
qed

text \<open>C38: Data sent from another thread can be dropped by a later shutdown: \<open>send\<close> finds the connection open and
  queues a functor; if the thread of the loop shuts the connection down before it runs, the writing side is
  closed first, and the functor gives the data up whatever the kernel answers.\<close>
theorem late_send_dropped:
  assumes "treach c" "conn_state c = kConnected" "tasks c = []" "content (outputBuffer c) = []"
  shows "\<exists>c1. send_data False data w c = Some c1 \<and> tasks (shutdown True c1) = [SendInLoop data] \<and> fin (shutdown True c1)
    \<and> (\<forall>w'. possible data (shutdown True c1) w' \<longrightarrow>
         sendInLoop data w' ((shutdown True c1)\<lparr>tasks := []\<rparr>) = Some ((shutdown True c1)\<lparr>tasks := []\<rparr>))"
proof -
  have inv: "tinv c" by (rule treach_tinv [OF assms(1)])
  have "\<not> isWriting (channel c)" "readableBytes (outputBuffer c) = 0"
    using inv assms(2,4) by (auto simp: tinv_defs readable_content)
  with assms(2,3) show ?thesis
    by (auto simp: send_data_def shutdown_def setState_def queue_task_def shutdownInLoop_def possible_def sendInLoop_def
        direct_write_def Let_def)
qed

section \<open>Instances\<close>

definition open_connection :: tcp_connection where
  "open_connection = the (connectEstablished (new_connection False False))"

lemma open_connection_ok:
  "connectEstablished (new_connection False False) = Some open_connection" "conn_state open_connection = kConnected"
  "tasks open_connection = []" "content (outputBuffer open_connection) = []" "\<not> fin open_connection"
  "\<not> isWriting (channel open_connection)" "sent open_connection = []" "accepted open_connection = []"
  by (simp_all add: open_connection_def connectEstablished_def new_connection_def setState_def report_def new_buffer_ok
      new_channel_def isWriting_bit enableReading_def tie_def poll_masks)

lemma open_reach: "treach open_connection"
  by (rule treach.more [OF treach.fresh tstep.established [OF _ open_connection_ok(1)]]) (simp add: new_connection_def)

text \<open>Three bytes of which the kernel takes one, then a shutdown.\<close>

lemma busy_reach:
  obtains c where "treach c" "conn_state c = kDisconnecting" "sent c = [1]" "content (outputBuffer c) = [2, 3]"
    "accepted c = [1, 2, 3]"
proof -
  have inv: "tinv open_connection" by (rule treach_tinv [OF open_reach])
  have dw: "direct_write [1, 2, 3] (Wrote 1) open_connection
      = (open_connection\<lparr>sent := [1], accepted := [1]\<rparr>, 1, False)"
    using open_connection_ok inv by (simp add: direct_write_def tinv_def readable_content)
  have pos: "possible [1, 2, 3] open_connection (Wrote 1)" using open_connection_ok by (simp add: possible_def)
  let ?d = "open_connection\<lparr>sent := [1], accepted := [1]\<rparr>"
  have "tinv ?d" using direct_write_tinv [OF inv _ _ pos dw] open_connection_ok by simp
  from buffer_rest_tinv [OF this, of "[2, 3]"] open_connection_ok obtain c where
    c: "buffer_rest [2, 3] ?d = Some c" "tinv c" "isWriting (channel c)" "conn_state c = kConnected" "accepted c = [1, 2, 3]"
    by auto
  have "send_data True [1, 2, 3] (Wrote 1) open_connection = Some c"
    using c dw open_connection_ok by (simp add: send_data_def sendInLoop_def)
  then have r: "treach c" by (rule treach.more [OF open_reach tstep.sending [OF pos]])
  have s: "sent c = [1]"
    using c(1) by (auto simp: buffer_rest_def queue_task_def Let_def split: Option.bind_splits if_splits)
  have "sent c @ content (outputBuffer c) = [1, 2, 3]" using c(2,5) by (simp add: tinv_def)
  with s have o: "content (outputBuffer c) = [2, 3]" by simp
  show thesis
  proof (rule that [of "shutdown True c"])
    show "treach (shutdown True c)" by (rule treach.more [OF r tstep.shutting])
  qed (use c s o in \<open>simp_all add: shutdown_def shutdownInLoop_def setState_def\<close>)
qed

theorem bytes_in_order_witness: "\<exists>c :: tcp_connection. sent c = [1] \<and> content (outputBuffer c) = [2, 3] \<and> isWriting (channel c)"
proof -
  obtain c where c: "treach c" "conn_state c = kDisconnecting" "sent c = [1]" "content (outputBuffer c) = [2, 3]" "accepted c = [1, 2, 3]"
    by (rule busy_reach)
  with bytes_in_order [OF c(1), of "[]" EPIPE] have "isWriting (channel c)" by auto
  with c show ?thesis by blast
qed

theorem flush_completes_witness:
  "\<exists>c. sent c = [1] \<and> (\<exists>k \<le> 4. \<exists>d. flush (take k [0, 1, 0, 5]) c = Some d \<and> sent d = [1, 2, 3] \<and> fin d)"
proof -
  obtain c where c: "treach c" "conn_state c = kDisconnecting" "sent c = [1]" "content (outputBuffer c) = [2, 3]" "accepted c = [1, 2, 3]"
    by (rule busy_reach)
  let ?ns = "[0, 1, 0, 5] :: nat list"
  have open_c: "conn_state c = kConnected \<or> conn_state c = kDisconnecting" "content (outputBuffer c) \<noteq> []"
    "length (content (outputBuffer c)) \<le> length (filter (\<lambda>n. 0 < n) ?ns)"
    using c(2,4) by simp_all
  from flush_completes [OF c(1) open_c] obtain k d where
    k: "k \<le> length ?ns" "flush (take k ?ns) c = Some d" "sent d = accepted c" "fin d \<longleftrightarrow> conn_state c = kDisconnecting"
    by (elim exE conjE)
  from k(1) have "k \<le> 4" by simp
  moreover have "sent d = [1, 2, 3]" "fin d" using k(3,4) c(2,5) by simp_all
  ultimately show ?thesis using c(3) k(2) by blast
qed

theorem closing_protocol_witness: "filter updown (reports open_connection) = [ConnectionUp]"
  using closing_protocol [OF open_reach] open_connection_ok(2) by simp

text \<open>A hang-up reported with urgent data: the close callback, then a read of zero bytes.\<close>

lemma hang_up_reach:
  obtains c where "treach c" "conn_state c = kDisconnected" "added c" "next_handler c = Some (HandleRead, [])"
proof -
  let ?r = "POLLHUP OR POLLPRI"
  let ?c = "open_connection\<lparr>channel := (channel open_connection)\<lparr>revents := ?r\<rparr>, phase := Active\<rparr>"
  have open_ok: "phase open_connection = Quiet" "added open_connection" "events (channel open_connection) = kReadEvent"
    "closeCallback (channel open_connection) = Some HandleClose" "readCallback (channel open_connection) = Some HandleRead"
    by (simp_all add: open_connection_def connectEstablished_def new_connection_def setState_def report_def
        new_channel_def enableReading_def tie_def poll_masks)
  have "tstep open_connection ?c"
    using open_ok by (intro tstep.polled) (simp_all add: isNoneEvent_def reported_def poll_masks)
  then have r1: "treach ?c" by (rule treach.more [OF open_reach])
  have n: "next_handler ?c = Some (HandleClose, [HandleRead])"
    using open_ok by (simp add: next_handler_def handleEvent_def handleEventWithGuard_def poll_masks)
  let ?d = "report ConnectionClosed (go_down (?c\<lparr>phase := Handling [HandleRead]\<rparr>))"
  have "handleClose (?c\<lparr>phase := Handling [HandleRead]\<rparr>) = Some ?d"
    using open_connection_ok(2) by (simp add: handleClose_down)
  with n have "tstep ?c ?d" by (rule tstep.closing)
  then have "treach ?d" by (rule treach.more [OF r1])
  moreover have "conn_state ?d = kDisconnected" "added ?d" "next_handler ?d = Some (HandleRead, [])"
    using open_ok by (simp_all add: report_def go_down_def setState_def next_handler_def)
  ultimately show thesis by (rule that)
qed

theorem assertions_of_connection_witness:
  "(\<exists>c. conn_state c = kDisconnecting \<and> connectDestroyed c = None)
   \<and> (\<exists>c. added c \<and> handleRead (\<lambda>b. b) (Inr []) (c\<lparr>phase := Handling []\<rparr>) = None)"
proof -
  obtain c where c: "treach c" "conn_state c = kDisconnecting" by (rule busy_reach)
  obtain d where d: "treach d" "conn_state d = kDisconnected" "added d" "next_handler d = Some (HandleRead, [])"
    by (rule hang_up_reach)
  from assertions_of_connection [OF c(1)] c(2) have "connectDestroyed c = None" by blast
  moreover from assertions_of_connection [OF d(1), of "[]" EPIPE "\<lambda>b. b" "Inr []"] d
  have "handleRead (\<lambda>b. b) (Inr []) (d\<lparr>phase := Handling []\<rparr>) = None" by simp
  ultimately show ?thesis using c(2) d(3) by blast
qed

theorem late_send_dropped_witness:
  "\<exists>c1. send_data False [7] (Wrote 1) open_connection = Some c1 \<and> fin (shutdown True c1)
    \<and> accepted (the (sendInLoop [7] EPIPE ((shutdown True c1)\<lparr>tasks := []\<rparr>))) = []"
proof -
  obtain c1 where c1: "send_data False [7] (Wrote 1) open_connection = Some c1" "fin (shutdown True c1)"
    "\<forall>w'. possible [7] (shutdown True c1) w' \<longrightarrow>
         sendInLoop [7] w' ((shutdown True c1)\<lparr>tasks := []\<rparr>) = Some ((shutdown True c1)\<lparr>tasks := []\<rparr>)"
    using late_send_dropped [OF open_reach open_connection_ok(2-4)] by blast
  have "accepted (shutdown True c1) = []"
    using c1(1) open_connection_ok by (auto simp: send_data_def shutdown_def setState_def shutdownInLoop_def queue_task_def)
  with c1 show ?thesis by (auto simp: possible_def)
qed

end
