(* ===== verification/RankScore.thy ===== *)
theory RankScore
  imports BankCommands Settings
begin

text \<open>
  The rank score dictionary of the sender: \<open>sender/src/dictionary/PreRankScoreDic.cc\<close> reads it from a file,
  \<open>sender/src/TransferManager.cc\<close> looks the command up, and \<open>sender/src/cmd/PreRankScore.cc\<close> is the
  command that would send it. The source is a draft in which some variables have two names
  (\<open>rank\<close> and \<open>rankScore\<close>, \<open>name_\<close> and \<open>file_name\<close>); each pair is one variable here. The two tables of
  \<open>TransferManager\<close> are kept apart: the constructor fills \<open>m_actions\<close>, which is declared nowhere, and the
  lookup searches \<open>actions_\<close>.
\<close>

section \<open>Rows\<close>

text \<open>\<open>double\<close> is a type parameter; \<open>read_double\<close> is what extraction leaves in a variable, given its old value.\<close>

record 'f rank_score =
  adspaceId :: u64
  solutionId :: u32
  ctr :: 'f
  cvr :: 'f
  timestamp :: u64

definition new_rank_score :: "'f \<Rightarrow> 'f rank_score" where
  "new_rank_score minus_one = \<lparr>adspaceId = 0, solutionId = 0, ctr = minus_one, cvr = minus_one, timestamp = 0\<rparr>"

definition extract_into :: "byte list \<Rightarrow> 'a::len word \<Rightarrow> 'a word" where
  "extract_into s old = (case extract_word s of None \<Rightarrow> old | Some w \<Rightarrow> w)"

definition ParseRow :: "(byte list \<Rightarrow> 'f \<Rightarrow> 'f) \<Rightarrow> byte list list \<Rightarrow> 'f rank_score \<Rightarrow> bool \<times> 'f rank_score" where
  "ParseRow read_double result rank =
     (if length result \<noteq> 5 then (False, rank)
      else let rank = rank\<lparr>adspaceId := extract_into (result ! 0) (adspaceId rank)\<rparr>;
               rank = rank\<lparr>solutionId := extract_into (result ! 1) (solutionId rank)\<rparr>;
               rank = rank\<lparr>ctr := read_double (result ! 2) (ctr rank)\<rparr>;
               rank = rank\<lparr>cvr := read_double (result ! 3) (cvr rank)\<rparr>;
               rank = rank\<lparr>timestamp := extract_into (result ! 4) (timestamp rank)\<rparr>
           in (True, rank))"

section \<open>Fetching\<close>

text \<open>
  \<open>getline\<close> on a stream that throws on \<open>failbit\<close>: at the end of the file nothing can be extracted and it throws;
  a line that ends at the end of the file, without a newline, sets \<open>eofbit\<close> only.
\<close>

definition getline :: "byte list \<Rightarrow> (byte list \<times> byte list \<times> bool) option" where
  "getline rest =
     (if rest = [] then None
      else let line = takeWhile (\<lambda>c. c \<noteq> 10) rest;
               more = dropWhile (\<lambda>c. c \<noteq> 10) rest
           in Some (line, drop 1 more, more = []))"

text \<open>The loop of \<open>FetcherData\<close>; \<open>split\<close> is \<open>boost::split\<close> at the character 1. The loop ends with \<open>Broke\<close> or \<open>Threw\<close>.\<close>

datatype 'f fetched = Broke "'f rank_score list" | Threw

function fetch_loop :: "(byte list \<Rightarrow> byte list list) \<Rightarrow> (byte list \<Rightarrow> 'f \<Rightarrow> 'f) \<Rightarrow> 'f \<Rightarrow> byte list
    \<Rightarrow> 'f rank_score list \<Rightarrow> 'f fetched" where
  "fetch_loop split read_double minus_one rest datas =
     (case getline rest of
        None \<Rightarrow> Threw
      | Some (line, rest', eof) \<Rightarrow>
          if eof then Broke datas
          else let (ok, rankScore) = ParseRow read_double (split line) (new_rank_score minus_one)
               in fetch_loop split read_double minus_one rest' (if ok then datas @ [rankScore] else datas))"
  by pat_completeness auto
termination
proof (relation "measure (\<lambda>(split, read_double, minus_one, rest, datas). length rest)")
  fix split :: "byte list \<Rightarrow> byte list list" and read_double :: "byte list \<Rightarrow> 'f \<Rightarrow> 'f" and minus_one :: 'f
    and rest datas x line y rest' eof z ok rank
  assume "getline rest = Some x" "(line, y) = x" "(rest', eof) = y" "\<not> eof"
  then have "rest \<noteq> []" "rest' = drop 1 (dropWhile (\<lambda>c. c \<noteq> 10) rest)" "dropWhile (\<lambda>c. c \<noteq> 10) rest \<noteq> []"
    by (auto simp: getline_def Let_def split: if_splits)
  then have "length rest' < length rest"
    using length_dropWhile_le [of "\<lambda>c. c \<noteq> 10" rest] by (cases "dropWhile (\<lambda>c. c \<noteq> 10) rest") auto
  then show "((split, read_double, minus_one, rest', if ok then datas @ [rank] else datas),
      split, read_double, minus_one, rest, datas) \<in> measure (\<lambda>(split, read_double, minus_one, rest, datas). length rest)"
    by simp
qed simp

declare fetch_loop.simps [simp del]

record 'f rank_dic =
  datas :: "'f rank_score list"
  lastUpdateTimestamp :: int
  isSuccess :: bool

definition new_rank_dic :: "'f rank_dic" where
  "new_rank_dic = \<lparr>datas = [], lastUpdateTimestamp = 0, isSuccess = False\<rparr>"

text \<open>\<open>file\<close> is the content of the file, \<open>None\<close> when it cannot be read.\<close>

definition FetcherData :: "(byte list \<Rightarrow> byte list list) \<Rightarrow> (byte list \<Rightarrow> 'f \<Rightarrow> 'f) \<Rightarrow> 'f \<Rightarrow> byte list option
    \<Rightarrow> 'f rank_dic \<Rightarrow> 'f rank_dic" where
  "FetcherData split read_double minus_one file d =
     (case file of
        None \<Rightarrow> d
      | Some content \<Rightarrow>
          (case fetch_loop split read_double minus_one content [] of
             Broke ds \<Rightarrow> d\<lparr>datas := ds, isSuccess := True\<rparr>
           | Threw \<Rightarrow> d\<lparr>isSuccess := True\<rparr>))"

section \<open>Transfer\<close>

datatype action = UserLogin | OpenAccount | Deposit | Withdrawal | Transfer | BalanceInquiry | ChangePassword
  | QueryDayBill | QueryHistoryBill | QueryAccountHistoryBill | CloseAccount

text \<open>The command numbers are those of a header outside the repository: \<open>code\<close>, and \<open>rank_code\<close> for \<open>CMD_RANK_SCORE\<close>.\<close>

record transfer_manager =
  actions :: "(u16, action) std_map"
  m_actions :: "(u16, action) std_map"

definition TransferManager :: "(action \<Rightarrow> u16) \<Rightarrow> transfer_manager" where
  "TransferManager code = \<lparr>actions = [], m_actions = foldl (\<lambda>m a. map_set (code a) a m) []
     [UserLogin, OpenAccount, Deposit, Withdrawal, Transfer, BalanceInquiry, ChangePassword, QueryDayBill,
      QueryHistoryBill, QueryAccountHistoryBill, CloseAccount]\<rparr>"

text \<open>The action executed, and the result.\<close>

definition DoTransfer :: "transfer_manager \<Rightarrow> u16 \<Rightarrow> action option \<times> bool" where
  "DoTransfer m cmd = (case map_find cmd (actions m) of Some a \<Rightarrow> (Some a, True) | None \<Rightarrow> (None, False))"

definition TransferData :: "transfer_manager \<Rightarrow> u16 \<Rightarrow> 'f rank_dic \<Rightarrow> (action option \<times> bool) option" where
  "TransferData m rank_code d =
     (if datas d = [] \<or> \<not> isSuccess d then None else Some (DoTransfer m rank_code))"

text \<open>\<open>st_ctime\<close> is the time of the last change of the file, \<open>None\<close> when \<open>access\<close> or \<open>stat\<close> fails.\<close>

definition IsNewDictArrivedAndFetcher :: "transfer_manager \<Rightarrow> u16 \<Rightarrow> (byte list \<Rightarrow> byte list list) \<Rightarrow> (byte list \<Rightarrow> 'f \<Rightarrow> 'f)
    \<Rightarrow> 'f \<Rightarrow> int option \<Rightarrow> byte list option \<Rightarrow> 'f rank_dic \<Rightarrow> (action option \<times> bool) option \<times> 'f rank_dic" where
  "IsNewDictArrivedAndFetcher m rank_code split read_double minus_one st_ctime file d =
     (case st_ctime of
        None \<Rightarrow> (None, d)
      | Some current_update_time \<Rightarrow>
          if current_update_time \<le> lastUpdateTimestamp d then (None, d)
          else let d = d\<lparr>lastUpdateTimestamp := current_update_time\<rparr>;
                   d = FetcherData split read_double minus_one file d
               in (TransferData m rank_code d, d))"

section \<open>The command\<close>

text \<open>The output stream has two more operators.\<close>

record ('j, 'f) rank_out =
  base_out :: "'j jout"
  put64 :: "u64 \<Rightarrow> 'j \<Rightarrow> 'j"
  put_double :: "'f \<Rightarrow> 'j \<Rightarrow> 'j"

definition put_row :: "('j, 'f) rank_out \<Rightarrow> 'j \<Rightarrow> 'f rank_score \<Rightarrow> 'j" where
  "put_row D jos data =
     (let J = base_out D;
          jos = put64 D (adspaceId data) jos;
          jos = put32 J (solutionId data) jos;
          jos = put_double D (ctr data) jos;
          jos = put_double D (cvr data) jos
      in WriteBytes J [10] jos)"

definition PrerankScore_Execute :: "('j, 'f) rank_out \<Rightarrow> 'x bank_env \<Rightarrow> u16 \<Rightarrow> 'f rank_score list \<Rightarrow> 'x session_call list" where
  "PrerankScore_Execute D E cmd rows =
     (let J = base_out D;
          (lengthPos, jos) = start_packet J cmd;
          jos = foldl (put_row D) jos rows;
          pkt = finish_packet J E cmd lengthPos jos
      in [Send pkt, Recv])"

section \<open>What is fetched\<close>

definition rows_of :: "(byte list \<Rightarrow> byte list list) \<Rightarrow> (byte list \<Rightarrow> 'f \<Rightarrow> 'f) \<Rightarrow> 'f \<Rightarrow> byte list list \<Rightarrow> 'f rank_score list" where
  "rows_of split read_double minus_one lines =
     map (\<lambda>l. snd (ParseRow read_double (split l) (new_rank_score minus_one))) (filter (\<lambda>l. length (split l) = 5) lines)"

lemma ParseRow_ok: "fst (ParseRow read_double result rank) \<longleftrightarrow> length result = 5"
  by (simp add: ParseRow_def Let_def)

lemma fetch_loop_end:
  "fetch_loop split read_double minus_one rest acc =
    (if rest = [] \<or> last rest = 10 then Threw else Broke (acc @ rows_of split read_double minus_one (butlast (getlines rest))))"
proof (induction split read_double minus_one rest acc rule: fetch_loop.induct)
  case (1 split read_double minus_one rest acc)
  let ?more = "dropWhile (\<lambda>c. c \<noteq> 10) rest" and ?line = "takeWhile (\<lambda>c. c \<noteq> 10) rest"
  consider (empty) "rest = []" | (last) "rest \<noteq> []" "?more = []" | (line) ys where "rest \<noteq> []" "?more = 10 # ys"
    by (metis (mono_tags, lifting) dropWhile_eq_Cons_conv neq_Nil_conv)
  then show ?case
  proof cases
    case empty
    then show ?thesis by (simp add: fetch_loop.simps [of _ _ _ "[]"] getline_def)
  next
    case last
    have t: "?line = rest" and l: "last rest \<noteq> 10" using last by (auto simp: dropWhile_eq_Nil_conv takeWhile_eq_all_conv)
    have "getlines rest = [rest]"
      by (simp only: getlines.simps [of rest] last(2) t) (simp add: last(1) getlines.simps [of "[]"])
    moreover have "getline rest = Some (rest, [], True)"
      by (simp only: getline_def Let_def last(2) t) (simp add: last(1))
    ultimately show ?thesis
      using last(1) l by (simp add: fetch_loop.simps [of _ _ _ rest] rows_of_def)
  next
    case line
    have split_rest: "rest = ?line @ 10 # ys" using line(2) by (metis takeWhile_dropWhile_id)
    have g: "getline rest = Some (?line, ys, False)" using line by (simp add: getline_def)
    obtain ok rank where p: "ParseRow read_double (split ?line) (new_rank_score minus_one) = (ok, rank)" by force
    then have ok: "ok \<longleftrightarrow> length (split ?line) = 5" using ParseRow_ok by (metis fst_conv)
    have lines: "getlines rest = ?line # getlines ys" using line by (simp add: getlines.simps [of rest])
    have lst: "ys \<noteq> [] \<Longrightarrow> last rest = last ys" "ys = [] \<Longrightarrow> last rest = 10"
      using split_rest by (metis last.simps last_appendR list.distinct(1))+
    have nonempty: "ys \<noteq> [] \<Longrightarrow> getlines ys \<noteq> []" by (simp add: getlines.simps [of ys])
    have "fetch_loop split read_double minus_one rest acc
        = fetch_loop split read_double minus_one ys (if ok then acc @ [rank] else acc)"
      using g p by (simp add: fetch_loop.simps [of _ _ _ rest])
    with 1 [OF g refl refl, simplified, OF p [symmetric] refl] p ok lines lst nonempty line(1) show ?thesis
      by (cases "ys = []") (auto simp: rows_of_def)
  qed
qed

section \<open>What is sent\<close>

definition rank_laws :: "('j, 'f) rank_out \<Rightarrow> (u16 \<Rightarrow> byte list) \<Rightarrow> (u32 \<Rightarrow> byte list) \<Rightarrow> (byte list \<Rightarrow> byte list)
    \<Rightarrow> (u64 \<Rightarrow> byte list) \<Rightarrow> ('f \<Rightarrow> byte list) \<Rightarrow> bool" where
  "rank_laws D b16 b32 bs b64 bd \<longleftrightarrow> jos_laws (base_out D) b16 b32 bs
     \<and> (\<forall>j x. Length (base_out D) j \<le> length (Data (base_out D) j) \<longrightarrow> written (base_out D) (b64 x) j (put64 D x j))
     \<and> (\<forall>j x. Length (base_out D) j \<le> length (Data (base_out D) j) \<longrightarrow> written (base_out D) (bd x) j (put_double D x j))
     \<and> (\<forall>x. length (b32 x) = 4) \<and> (\<forall>x. length (b64 x) = 8) \<and> (\<forall>x. length (bd x) = 8)"

definition row_bytes :: "(u32 \<Rightarrow> byte list) \<Rightarrow> (u64 \<Rightarrow> byte list) \<Rightarrow> ('f \<Rightarrow> byte list) \<Rightarrow> 'f rank_score \<Rightarrow> byte list" where
  "row_bytes b32 b64 bd r = b64 (adspaceId r) @ b32 (solutionId r) @ bd (ctr r) @ bd (cvr r) @ [10]"

lemma put_row_appends:
  assumes "rank_laws D b16 b32 bs b64 bd" "appended (base_out D) j xs j'"
  shows "appended (base_out D) j (xs @ row_bytes b32 b64 bd r) (put_row D j' r)"
proof -
  let ?J = "base_out D"
  have laws: "jos_laws ?J b16 b32 bs" using assms(1) by (simp add: rank_laws_def)
  have *: "appended ?J j ys k \<Longrightarrow> written ?J zs k k' \<Longrightarrow> appended ?J j (ys @ zs) k'" for ys zs k k'
    by (auto simp: written_def appended_def)
  have s: "appended ?J j ys k \<Longrightarrow> Length ?J k \<le> length (Data ?J k)" for ys k by (simp add: appended_def)
  let ?a = "put64 D (adspaceId r) j'" let ?b = "put32 ?J (solutionId r) ?a" let ?c = "put_double D (ctr r) ?b"
  let ?d = "put_double D (cvr r) ?c"
  have "written ?J (b64 (adspaceId r)) j' ?a" using assms(1) s [OF assms(2)] by (simp add: rank_laws_def)
  from * [OF assms(2) this] have a: "appended ?J j (xs @ b64 (adspaceId r)) ?a" .
  note b = appended_writes(3) [OF laws a, of "solutionId r"]
  have "written ?J (bd (ctr r)) ?b ?c" using assms(1) s [OF b] by (simp add: rank_laws_def)
  from * [OF b this] have c: "appended ?J j (((xs @ b64 (adspaceId r)) @ b32 (solutionId r)) @ bd (ctr r)) ?c" .
  have "written ?J (bd (cvr r)) ?c ?d" using assms(1) s [OF c] by (simp add: rank_laws_def)
  from * [OF c this] appended_writes(1) [OF laws] show ?thesis by (fastforce simp: put_row_def row_bytes_def Let_def)
qed

lemma put_rows_append:
  assumes "rank_laws D b16 b32 bs b64 bd"
  shows "appended (base_out D) j xs j' \<Longrightarrow>
    appended (base_out D) j (xs @ concat (map (row_bytes b32 b64 bd) rows)) (foldl (put_row D) j' rows)"
proof (induction rows arbitrary: xs j')
  case (Cons r rows)
  from Cons.IH [OF put_row_appends [OF assms Cons.prems]] show ?case by simp
qed simp

lemma rank_packet:
  assumes laws: "rank_laws D b16 b32 bs b64 bd" and digest: "\<And>ys. length (md5 E ys) = 16"
  shows "PrerankScore_Execute D E cmd rows = [Send (framed E b16 cmd (concat (map (row_bytes b32 b64 bd) rows))), Recv]"
proof -
  have jl: "jos_laws (base_out D) b16 b32 bs" using laws by (simp add: rank_laws_def)
  obtain lengthPos j where st: "start_packet (base_out D) cmd = (lengthPos, j)" by force
  note start = appended_refl [OF start_packet_ok(1) [OF jl st]]
  from finish_packet_ok [OF jl st put_rows_append [OF laws start] digest] st show ?thesis
    by (simp add: PrerankScore_Execute_def)
qed

lemma row_length:
  "rank_laws D b16 b32 bs b64 bd \<Longrightarrow> length (concat (map (row_bytes b32 b64 bd) rows)) = 29 * length rows"
  by (induction rows) (auto simp: row_bytes_def rank_laws_def)

section \<open>Properties\<close>

text \<open>C23: What a fetch reads, exactly. A file that ends with a newline (and an empty one) is read and thrown away: \<open>getline\<close>
  throws at the end of the file, the swap is skipped, and the fetch still reports success with the old data.
  Of any other file all rows but the last are kept, those with five fields, in order.\<close>
theorem fetched_data:
  "FetcherData split read_double minus_one (Some content) d =
     (if content = [] \<or> last content = 10 then d\<lparr>isSuccess := True\<rparr>
      else d\<lparr>datas := rows_of split read_double minus_one (butlast (getlines content)), isSuccess := True\<rparr>)"
  by (simp add: FetcherData_def fetch_loop_end)

text \<open>C33: The packet of a dictionary has 29 bytes per row and the frame of every command, but its length field has
  sixteen bits: it tells the length of what follows a head of four bytes exactly for up to 2259 rows, and wraps
  around above.\<close>
theorem rank_score_length_wraps:
  assumes "rank_laws D b16 b32 bs b64 bd" "\<forall>ys. length (md5 E ys) = 16" "head_size E = 4"
  shows "\<exists>pkt len. PrerankScore_Execute D E cmd rows = [Send pkt, Recv] \<and> length pkt = 29 * length rows + 12
    \<and> pkt = b16 cmd @ b16 len @ concat (map (row_bytes b32 b64 bd) rows) @ drop (length pkt - 8) pkt
    \<and> (unat len = length pkt - 4 \<longleftrightarrow> length rows \<le> 2259)"
proof -
  define xs where "xs = concat (map (row_bytes b32 b64 bd) rows)"
  define pkt where "pkt = framed E b16 cmd xs"
  have two: "\<And>w. length (b16 w) = 2" using assms(1) by (simp add: rank_laws_def jos_laws_def)
  have digest: "\<And>ys. length (md5 E ys) = 16" using assms(2) by simp
  note shape = framed_shape [where ?b16.0 = b16, OF two digest pkt_def]
  have len: "length pkt = 29 * length rows + 12" using shape(3) row_length [OF assms(1), of rows] by (simp add: xs_def)
  define len' :: u16 where "len' = word_of_int (int (length pkt) - int (head_size E))"
  have "len' = word_of_nat (29 * length rows + 8)" by (simp add: len'_def len assms(3))
  then have "unat len' = (29 * length rows + 8) mod 65536"
    by (simp only: unsigned_of_nat take_bit_eq_mod) simp
  moreover have "(29 * length rows + 8) mod 65536 = 29 * length rows + 8 \<longleftrightarrow> length rows \<le> 2259"
  proof
    assume "(29 * length rows + 8) mod 65536 = 29 * length rows + 8"
    then have "29 * length rows + 8 < 65536" by (metis mod_less_divisor zero_less_numeral)
    then show "length rows \<le> 2259" by simp
  qed simp
  ultimately have "unat len' = length pkt - 4 \<longleftrightarrow> length rows \<le> 2259" using len by (simp only: diff_add_inverse2 flip: add_diff_assoc2) (simp add: algebra_simps)
  with len shape(1) rank_packet [OF assms(1) digest] show ?thesis
    by (auto simp: len'_def xs_def pkt_def)
qed

section \<open>Instances\<close>

definition mem_rank_out :: "(byte list \<times> nat, nat) rank_out" where
  "mem_rank_out = \<lparr>base_out = mem_jout, put64 = (\<lambda>w. mem_write (le_bytes 8 w)), put_double = (\<lambda>f. mem_write (replicate 8 0))\<rparr>"

lemma mem_rank_laws: "rank_laws mem_rank_out (le_bytes 2) (le_bytes 4) (\<lambda>s. le_bytes 2 (word_of_nat (length s) :: u16) @ s)
    (le_bytes 8) (\<lambda>f. replicate 8 0)"
  using mem_laws mem_written by (auto simp: rank_laws_def mem_rank_out_def mem_jout_def)

theorem rank_score_length_wraps_witness:
  "\<exists>pkt (len :: u16). PrerankScore_Execute mem_rank_out mem_env 7 (replicate 2260 (new_rank_score 0)) = [Send pkt, Recv]
    \<and> unat len \<noteq> length pkt - 4"
proof -
  have "head_size mem_env = 4" by (simp add: mem_env_def)
  from rank_score_length_wraps [OF mem_rank_laws _ this, of 7 "replicate 2260 (new_rank_score 0)"] mem_md5 show ?thesis by auto
qed

end
