(* ===== verification/Conservator.thy ===== *)
theory Conservator
  imports Settings
begin

text \<open>
  Registration of a node with ZooKeeper, \<open>public/ConservatorHandler.cc\<close>. ZooKeeper is a parameter: its state, whether a
  path exists, and creating a node, which tells whether it succeeded. Waiting between attempts has no effect on
  the state; watchers are not modelled.
\<close>

datatype zk_flag = ZOO_EPHEMERAL | ZOO_SEQUENCE

record 's zookeeper =
  checkExists :: "byte list \<Rightarrow> 's \<Rightarrow> bool"
  create :: "zk_flag list \<Rightarrow> byte list \<Rightarrow> byte list \<Rightarrow> 's \<Rightarrow> bool \<times> 's"

text \<open>The attempts to create one node: the number of attempts made, and the state.\<close>

primrec create_loop :: "'s zookeeper \<Rightarrow> byte list \<Rightarrow> nat \<Rightarrow> 's \<Rightarrow> nat \<times> 's" where
  "create_loop zk curPath 0 s = (0, s)"
| "create_loop zk curPath (Suc tries) s =
     (let (ok, s) = create zk [ZOO_EPHEMERAL] curPath [] s
      in if ok then (1, s)
         else let (n, s) = create_loop zk curPath tries s in (n + 1, s))"

text \<open>The loop over the components; the test for existence is made of \<open>path\<close>. The numbers of attempts are kept.\<close>

fun create_path :: "'s zookeeper \<Rightarrow> byte list \<Rightarrow> byte list list \<Rightarrow> byte list \<Rightarrow> 's \<Rightarrow> nat list \<times> 's" where
  "create_path zk path [] curPath s = ([], s)"
| "create_path zk path (cur # paths) curPath s =
     (let curPath = curPath @ [47] @ cur
      in if checkExists zk path s then create_path zk path paths curPath s
         else let (n, s) = create_loop zk curPath 5 s;
                  (ns, s) = create_path zk path paths curPath s
              in (n # ns, s))"

definition CheckExistsAndCreatePath :: "(byte list \<Rightarrow> byte list list) \<Rightarrow> 's zookeeper \<Rightarrow> byte list \<Rightarrow> 's \<Rightarrow> nat list \<times> 's" where
  "CheckExistsAndCreatePath split zk path s =
     (if checkExists zk path s then ([], s) else create_path zk path (split path) [] s)"

text \<open>\<open>None\<close> is the failed assertion.\<close>

definition Register :: "(byte list \<Rightarrow> byte list list) \<Rightarrow> 's zookeeper \<Rightarrow> byte list \<Rightarrow> byte list \<Rightarrow> byte list \<Rightarrow> 's
    \<Rightarrow> (bool \<times> 's) option" where
  "Register split zk path ip port s = do {
     let (ns, s) = CheckExistsAndCreatePath split zk path s;
     assert_that (checkExists zk path s);
     let ileafData = ip @ [58] @ port;
     Some (create zk [ZOO_EPHEMERAL, ZOO_SEQUENCE] (path @ ascii ''node:'') ileafData s)
   }"

section \<open>Absolute paths\<close>

text \<open>
  What ZooKeeper documents of paths: the root always exists, and a path with two slashes in a row is not
  valid; neither can be created.
\<close>

definition double_slash :: "byte list \<Rightarrow> bool" where
  "double_slash p \<longleftrightarrow> (\<exists>xs ys. p = xs @ [47, 47] @ ys)"

definition zk_rejects :: "'s zookeeper \<Rightarrow> bool" where
  "zk_rejects zk \<longleftrightarrow> (\<forall>fl p d s. p = [47] \<or> double_slash p \<longrightarrow> create zk fl p d s = (False, s))"

lemma create_loop_rejected:
  "zk_rejects zk \<Longrightarrow> p = [47] \<or> double_slash p \<Longrightarrow> create_loop zk p n s = (n, s)"
  by (induction n) (auto simp: zk_rejects_def)

lemma double_slash_append: "double_slash p \<Longrightarrow> double_slash (p @ q)"
  unfolding double_slash_def by (metis append.assoc)

lemma double_slash_root: "double_slash ([47] @ [47] @ c)"
  unfolding double_slash_def by (intro exI [of _ "[]"] exI [of _ c]) simp

lemma create_path_rejected:
  assumes "zk_rejects zk" "\<not> checkExists zk path s"
  shows "double_slash p \<or> p = [47] \<Longrightarrow> create_path zk path ps p s = (replicate (length ps) 5, s)"
proof (induction ps arbitrary: p)
  case (Cons c ps)
  have d: "double_slash (p @ [47] @ c)"
    using Cons.prems double_slash_append [of p "[47] @ c"] double_slash_root [of c] by auto
  have "create_loop zk (p @ [47] @ c) 5 s = (5, s)" using create_loop_rejected [OF assms(1)] d by blast
  with Cons.IH [of "p @ [47] @ c"] d assms(2) show ?case by (simp add: Let_def)
qed simp

section \<open>Properties\<close>

text \<open>C31: Registering a node under an absolute path works only when the path exists already; then one ephemeral
  sequential node with the address is created, and nothing else. For a path that does not exist, five
  attempts are made for every component, all on invalid paths (splitting an absolute path yields an empty first
  component, so that the paths tried are \<open>/\<close>, \<open>//a\<close> and so on), nothing is created, and the assertion fails.\<close>
theorem register_needs_path:
  assumes "zk_rejects zk" "split path = Settings.fields 47 path" "path = 47 # rest"
  shows "Register split zk path ip port s =
      (if checkExists zk path s
       then Some (create zk [ZOO_EPHEMERAL, ZOO_SEQUENCE] (path @ ascii ''node:'') (ip @ [58] @ port) s) else None)
    \<and> (\<not> checkExists zk path s \<longrightarrow>
         CheckExistsAndCreatePath split zk path s = (replicate (length (Settings.fields 47 path)) 5, s))"
proof -
  have "Settings.fields 47 path = [] # Settings.fields 47 rest" using assms(3) by simp
  then have "CheckExistsAndCreatePath split zk path s = (replicate (length (Settings.fields 47 path)) 5, s)"
    if "\<not> checkExists zk path s"
    using that assms(2) create_path_rejected [OF assms(1) that, of "[47]"] create_loop_rejected [OF assms(1), of "[47]" 5 s]
    by (simp add: CheckExistsAndCreatePath_def Let_def)
  then show ?thesis by (auto simp: Register_def CheckExistsAndCreatePath_def Let_def)
qed

section \<open>An instance\<close>

definition set_zk :: "(byte list set) zookeeper" where
  "set_zk = \<lparr>checkExists = (\<lambda>p s. p = [47] \<or> p \<in> s),
     create = (\<lambda>fl p d s. if p = [47] \<or> double_slash p \<or> p \<in> s then (False, s) else (True, insert p s))\<rparr>"

theorem register_needs_path_witness:
  "Register (Settings.fields 47) set_zk (ascii ''/dict/sender'') (ascii ''1'') (ascii ''2'') {} = None"
  using register_needs_path [of set_zk "Settings.fields 47" "ascii ''/dict/sender''"] by (simp add: zk_rejects_def set_zk_def ascii_def)

end
