(* ===== verification/SenderCodec.thy ===== *)
theory SenderCodec
  imports Framing
begin

text \<open>
  \<open>LengthHeaderCodec\<close> of \<open>sender/src/frame/codec.h\<close>: a message is preceded by its length, four bytes in
  network order. \<open>onMessage\<close> calls the message callback for every complete message and shuts the
  connection down at a length that is negative or above 65536; \<open>send\<close> frames any message.
\<close>

section \<open>The codec\<close>

datatype lh_call = StringMessage "byte list" | ShutdownConn

definition kHeaderLen :: nat where "kHeaderLen = 4"

definition kMaxLen :: int where "kMaxLen = 65536"

function lh_onMessage :: "buffer \<Rightarrow> (lh_call list \<times> buffer) option" where
  "lh_onMessage buf =
     (if kHeaderLen \<le> readableBytes buf then
        let be32 = le_word (bytes_at buf (peek buf) 4);
            len = sint (networkToHost32 be32)
        in if kMaxLen < len \<or> len < 0 then Some ([ShutdownConn], buf)
           else if nat len + kHeaderLen \<le> readableBytes buf then
             (case retrieve kHeaderLen buf of
                None \<Rightarrow> None
              | Some buf1 \<Rightarrow>
                  let message = bytes_at buf1 (peek buf1) (nat len)
                  in (case retrieve (nat len) buf1 of
                        None \<Rightarrow> None
                      | Some buf2 \<Rightarrow>
                          (case lh_onMessage buf2 of
                             None \<Rightarrow> None
                           | Some (calls, buf3) \<Rightarrow> Some (StringMessage message # calls, buf3))))
           else Some ([], buf)
      else Some ([], buf))"
  by pat_completeness auto
termination
  by (relation "measure readableBytes")
    (auto simp: retrieve_def retrieveAll_def readableBytes_def kHeaderLen_def split: if_splits)

declare lh_onMessage.simps [simp del]

text \<open>The length is converted to \<open>int32_t\<close>.\<close>

definition lh_send :: "byte list \<Rightarrow> byte list option" where
  "lh_send message = do {
     buf \<leftarrow> append_data message new_buffer;
     let be32 = hostToNetwork32 (word_of_nat (length message));
     buf \<leftarrow> prepend (le_bytes 4 be32) buf;
     Some (toStringPiece buf)
   }"

text \<open>The input buffer of a connection, filled by each piece the kernel delivers.\<close>

primrec lh_receive :: "byte list list \<Rightarrow> buffer \<Rightarrow> (lh_call list \<times> buffer) option" where
  "lh_receive [] b = Some ([], b)"
| "lh_receive (c # cs) b = do {
     (n, b) \<leftarrow> readFd (Inr c :: unit + byte list) b;
     (calls, b) \<leftarrow> lh_onMessage b;
     (calls', b) \<leftarrow> lh_receive cs b;
     Some (calls @ calls', b)
   }"

section \<open>The contract\<close>

definition lh_dec :: "byte list \<Rightarrow> (byte list, unit) decoded" where
  "lh_dec xs =
     (if length xs < 4 then Wait
      else let len = sint (le_word (rev (take 4 xs)) :: u32)
           in if kMaxLen < len \<or> len < 0 then Bad ()
              else if nat len + 4 \<le> length xs then Frame (take (nat len) (drop 4 xs)) (nat len + 4)
              else Wait)"

definition lh_enc :: "byte list \<Rightarrow> byte list" where
  "lh_enc m = be_bytes 4 (word_of_nat (length m) :: u32) @ m"

definition lh_ok :: "byte list \<Rightarrow> bool" where
  "lh_ok m \<longleftrightarrow> length m \<le> 65536"

lemma lh_length: "int (length m) < 2 ^ 31 \<Longrightarrow> sint (le_word (rev (take 4 (lh_enc m @ ys))) :: u32) = int (length m)"
  by (simp add: lh_enc_def signed_of_nat signed_take_bit_int_eq_self)

interpretation lh: framing lh_dec lh_enc lh_ok
proof unfold_locales
  fix m assume "lh_ok m"
  then show "lh_dec (lh_enc m) = Frame m (length (lh_enc m))"
    using lh_length [of m "[]"] by (simp add: lh_dec_def lh_ok_def kMaxLen_def) (simp add: lh_enc_def)
qed (auto simp: lh_dec_def Let_def split: if_splits)

lemma lh_send_ok: "lh_send m = Some (lh_enc m)"
proof -
  obtain b1 where b1: "append_data m new_buffer = Some b1" "buf_inv b1" "cheap b1" "content b1 = m"
    using append_data_ok [OF new_buffer_ok(1)] new_buffer_ok by auto
  obtain b2 where "prepend (be_bytes 4 (word_of_nat (length m) :: u32)) b1 = Some b2" "buf_inv b2"
    "content b2 = lh_enc m"
    using prepend_ok [OF b1(2)] b1 by (force simp: cheap_def kCheapPrepend_def lh_enc_def)
  with b1 show ?thesis by (simp add: lh_send_def order32.store toStringPiece_content)
qed

primrec lh_call_of :: "byte list + unit \<Rightarrow> lh_call" where
  "lh_call_of (Inl m) = StringMessage m"
| "lh_call_of (Inr u) = ShutdownConn"

lemma lh_onMessage_frames:
  "buf_inv b \<Longrightarrow> \<exists>b'. lh_onMessage b = Some (map lh_call_of (fst (frames lh_dec (content b))), b')
     \<and> buf_inv b' \<and> content b' = snd (frames lh_dec (content b))"
proof (induction "length (content b)" arbitrary: b rule: less_induct)
  case less
  note inv = less.prems
  have rd: "readableBytes b = length (content b)" by (rule readable_content [OF inv])
  let ?len = "sint (le_word (rev (take 4 (content b))) :: u32)"
  have pk: "4 \<le> length (content b) \<Longrightarrow> networkToHost32 (le_word (bytes_at b (peek b) 4)) = le_word (rev (take 4 (content b)))"
    using inv by (simp add: bytes_at_content order32.load)
  consider (short) "length (content b) < 4"
    | (bad) "4 \<le> length (content b)" "kMaxLen < ?len \<or> ?len < 0"
    | (wait) "4 \<le> length (content b)" "?len \<le> kMaxLen" "0 \<le> ?len" "length (content b) < nat ?len + 4"
    | (frame) "?len \<le> kMaxLen" "0 \<le> ?len" "nat ?len + 4 \<le> length (content b)"
    by linarith
  then show ?case
  proof cases
    case short
    then have "lh_dec (content b) = Wait" by (simp add: lh_dec_def)
    with short inv rd show ?thesis by (simp add: lh_onMessage.simps [of b] frames_wait kHeaderLen_def)
  next
    case bad
    then have "lh_dec (content b) = Bad ()" by (auto simp: lh_dec_def Let_def)
    with bad inv rd pk show ?thesis by (auto simp: lh_onMessage.simps [of b] frames_bad kHeaderLen_def Let_def)
  next
    case wait
    then have "lh_dec (content b) = Wait" by (auto simp: lh_dec_def Let_def)
    with wait inv rd pk show ?thesis by (auto simp: lh_onMessage.simps [of b] frames_wait kHeaderLen_def Let_def)
  next
    case frame
    let ?m = "take (nat ?len) (drop 4 (content b))"
    have fr: "lh_dec (content b) = Frame ?m (nat ?len + 4)" using frame by (auto simp: lh_dec_def Let_def)
    obtain b1 where b1: "retrieve 4 b = Some b1" "buf_inv b1" "content b1 = drop 4 (content b)"
      using retrieve_ok [OF inv, of 4] frame(3) by auto
    have m: "bytes_at b1 (peek b1) (nat ?len) = ?m" using bytes_at_content [OF b1(2)] b1(3) frame(3) by simp
    have le: "nat ?len \<le> length (content b1)" using b1(3) frame(3) by simp
    obtain b2 where b2: "retrieve (nat ?len) b1 = Some b2" "buf_inv b2" "content b2 = drop (nat ?len + 4) (content b)"
      using retrieve_ok [OF b1(2) le] b1(3) by (auto simp: add.commute)
    have "length (content b2) < length (content b)" using b2(3) frame(3) by simp
    from less.hyps [OF this b2(2)] obtain b3 where
      "lh_onMessage b2 = Some (map lh_call_of (fst (frames lh_dec (content b2))), b3)"
      "buf_inv b3" "content b3 = snd (frames lh_dec (content b2))" by blast
    with frame b1 b2 m fr rd pk show ?thesis
      by (auto simp: lh_onMessage.simps [of b] frames_frame kHeaderLen_def Let_def)
  qed
qed

lemma lh_receive_feed:
  "buf_inv b \<Longrightarrow> \<exists>b'. lh_receive cs b = Some (map lh_call_of (fst (feed lh_dec cs (content b))), b')
     \<and> buf_inv b' \<and> content b' = snd (feed lh_dec cs (content b))"
proof (induction cs arbitrary: b)
  case (Cons c cs)
  obtain n b1 where b1: "readFd (Inr c :: unit + byte list) b = Some (n, b1)" "buf_inv b1" "content b1 = content b @ c"
    using readFd_ok [OF Cons.prems] by blast
  obtain b2 where b2: "lh_onMessage b1 = Some (map lh_call_of (fst (frames lh_dec (content b1))), b2)" "buf_inv b2"
    "content b2 = snd (frames lh_dec (content b1))"
    using lh_onMessage_frames [OF b1(2)] by blast
  from Cons.IH [OF b2(2)] b1 b2 show ?case by (auto simp: split_def Let_def)
qed simp

section \<open>Properties\<close>

text \<open>C20: Dictionary messages of at most 65536 bytes arrive complete and in order through \<open>send\<close> and
  \<open>onMessage\<close>, however the stream is cut, and the connection is not shut down.\<close>
theorem dictionary_messages_arrive:
  assumes "\<forall>m\<in>set ms. length m \<le> 65536" "map Some pieces = map lh_send ms" "concat cs = concat pieces"
  shows "\<exists>b. lh_receive cs new_buffer = Some (map StringMessage ms, b) \<and> content b = []"
proof -
  have "map Some pieces = map Some (map lh_enc ms)" using assms(2) by (simp add: lh_send_ok)
  then have "pieces = map lh_enc ms" by (simp only: inj_map_eq_map inj_Some)
  with assms(1,3) lh.delivery_clean [of ms cs] have "feed lh_dec cs [] = (map Inl ms, [])"
    by (simp add: list_all_iff lh_ok_def)
  with lh_receive_feed [OF new_buffer_ok(1), of cs] show ?thesis by (auto simp: new_buffer_ok(2))
qed

text \<open>The codec does not accept everything it sends: a message longer than 65536 bytes (and shorter
  than two gigabytes) is framed by \<open>send\<close> all the same, and the receiver, instead of delivering it, shuts the
  connection down and keeps every byte in its buffer.\<close>
theorem long_message_kills_connection:
  assumes "65536 < length m" "length m < 2 ^ 31"
  shows "\<exists>bytes b. lh_send m = Some bytes \<and> lh_receive [bytes] new_buffer = Some ([ShutdownConn], b) \<and> content b = bytes"
proof -
  have "lh_dec (lh_enc m) = Bad ()"
    using lh_length [of m "[]"] assms by (simp add: lh_dec_def kMaxLen_def) (simp add: lh_enc_def)
  then have "feed lh_dec [lh_enc m] [] = ([Inr ()], lh_enc m)" by (simp add: frames_bad)
  with lh_receive_feed [OF new_buffer_ok(1), of "[lh_enc m]"] lh_send_ok show ?thesis
    by (auto simp: new_buffer_ok(2) simp del: feed.simps lh_receive.simps)
qed

theorem dictionary_messages_arrive_witness:
  "\<exists>b. lh_receive [take 3 (lh_enc [7, 8]), drop 3 (lh_enc [7, 8]) @ lh_enc []] new_buffer
     = Some ([StringMessage [7, 8], StringMessage []], b) \<and> content b = []"
proof -
  have "map Some [lh_enc [7, 8], lh_enc []] = map lh_send [[7, 8], []]" by (simp add: lh_send_ok)
  from dictionary_messages_arrive [OF _ this, of "[take 3 (lh_enc [7, 8]), drop 3 (lh_enc [7, 8]) @ lh_enc []]"]
  show ?thesis by (simp flip: append_assoc del: lh_receive.simps)
qed

theorem long_message_kills_connection_witness:
  "\<exists>bytes b. lh_send (replicate 65537 1) = Some bytes \<and> lh_receive [bytes] new_buffer = Some ([ShutdownConn], b)"
  using long_message_kills_connection [of "replicate 65537 1"] by (auto simp del: lh_receive.simps)

end
