(* ===== verification/Poller.thy ===== *)
theory Poller
  imports Channel StdMap
begin

text \<open>
  How channels are registered with the kernel: \<open>muduo/net/poller/PollPoller.cc\<close> and \<open>EPollPoller.cc\<close>, the two implementations of
  \<open>Poller.h\<close>, and the functions of \<open>Channel.h\<close> and \<open>EventLoop.cc\<close> that lead to them. Channels are objects known by number; of a
  channel the pollers use the descriptor, the events, and the index, which belongs to them. The
  locale \<open>poller\<close> is the contract of both with the channels.
\<close>

section \<open>Channels\<close>

record poll_channel =
  channel_fd :: int
  channel_events :: u32
  channel_revents :: u32
  channel_index :: int

definition new_poll_channel :: "int \<Rightarrow> poll_channel" where
  "new_poll_channel fd = \<lparr>channel_fd = fd, channel_events = 0, channel_revents = 0, channel_index = - 1\<rparr>"

record channel_store =
  chans :: "nat \<Rightarrow> poll_channel"

definition set_index :: "nat \<Rightarrow> int \<Rightarrow> 'a channel_store_scheme \<Rightarrow> 'a channel_store_scheme" where
  "set_index c i s = s\<lparr>chans := (chans s)(c := (chans s c)\<lparr>channel_index := i\<rparr>)\<rparr>"

definition set_revents :: "nat \<Rightarrow> u32 \<Rightarrow> 'a channel_store_scheme \<Rightarrow> 'a channel_store_scheme" where
  "set_revents c r s = s\<lparr>chans := (chans s)(c := (chans s c)\<lparr>channel_revents := r\<rparr>)\<rparr>"

definition no_events :: "nat \<Rightarrow> 'a channel_store_scheme \<Rightarrow> bool" where
  "no_events c s \<longleftrightarrow> channel_events (chans s c) = kNoneEvent"

text \<open>The functions of a channel that change its events, and then update the poller.\<close>

datatype change = EnableReading | EnableWriting | DisableWriting | DisableAll

fun changed :: "change \<Rightarrow> u32 \<Rightarrow> u32" where
  "changed EnableReading e = e OR kReadEvent"
| "changed EnableWriting e = e OR kWriteEvent"
| "changed DisableWriting e = e AND NOT kWriteEvent"
| "changed DisableAll e = kNoneEvent"

definition set_events :: "change \<Rightarrow> nat \<Rightarrow> 'a channel_store_scheme \<Rightarrow> 'a channel_store_scheme" where
  "set_events x c s = s\<lparr>chans := (chans s)(c := (chans s c)\<lparr>channel_events := changed x (channel_events (chans s c))\<rparr>)\<rparr>"

definition channel_change :: "(nat \<Rightarrow> 'a channel_store_scheme \<Rightarrow> 'a channel_store_scheme option) \<Rightarrow> change \<Rightarrow> nat
    \<Rightarrow> 'a channel_store_scheme \<Rightarrow> 'a channel_store_scheme option" where
  "channel_change updateChannel x c s = updateChannel c (set_events x c s)"

definition channel_remove :: "(nat \<Rightarrow> 'a channel_store_scheme \<Rightarrow> 'a channel_store_scheme option) \<Rightarrow> nat
    \<Rightarrow> 'a channel_store_scheme \<Rightarrow> 'a channel_store_scheme option" where
  "channel_remove removeChannel c s = do { assert_that (no_events c s); removeChannel c s }"

section \<open>PollPoller\<close>

record pollfd =
  pfd_fd :: int
  pfd_events :: u16
  pfd_revents :: u16

record poll_poller = channel_store +
  pollfds :: "pollfd list"
  channels :: "(int, nat) std_map"

definition new_poll_poller :: "(nat \<Rightarrow> int) \<Rightarrow> poll_poller" where
  "new_poll_poller fds = \<lparr>chans = (\<lambda>c. new_poll_channel (fds c)), pollfds = [], channels = []\<rparr>"

definition poll_updateChannel :: "nat \<Rightarrow> poll_poller \<Rightarrow> poll_poller option" where
  "poll_updateChannel c s =
     (let ch = chans s c; fd = channel_fd ch in
      if channel_index ch < 0 then do {
        assert_that (map_find fd (channels s) = None);
        let pfd = \<lparr>pfd_fd = fd, pfd_events = ucast (channel_events ch), pfd_revents = 0\<rparr>;
        let idx = int (length (pollfds s @ [pfd])) - 1;
        Some ((set_index c idx (s\<lparr>pollfds := pollfds s @ [pfd]\<rparr>))\<lparr>channels := map_set fd c (channels s)\<rparr>) }
      else do {
        assert_that (map_find fd (channels s) \<noteq> None);
        assert_that (map_find fd (channels s) = Some c);
        let idx = channel_index ch;
        assert_that (0 \<le> idx \<and> idx < int (length (pollfds s)));
        let pfd = pollfds s ! nat idx;
        assert_that (pfd_fd pfd = fd \<or> pfd_fd pfd = - fd - 1);
        let pfd = pfd\<lparr>pfd_events := ucast (channel_events ch), pfd_revents := 0\<rparr>;
        let pfd = (if no_events c s then pfd\<lparr>pfd_fd := - fd - 1\<rparr> else pfd);
        Some (s\<lparr>pollfds := (pollfds s)[nat idx := pfd]\<rparr>) })"

definition poll_removeChannel :: "nat \<Rightarrow> poll_poller \<Rightarrow> poll_poller option" where
  "poll_removeChannel c s =
     (let ch = chans s c; fd = channel_fd ch in do {
        assert_that (map_find fd (channels s) \<noteq> None);
        assert_that (map_find fd (channels s) = Some c);
        assert_that (no_events c s);
        let idx = channel_index ch;
        assert_that (0 \<le> idx \<and> idx < int (length (pollfds s)));
        let pfd = pollfds s ! nat idx;
        assert_that (pfd_fd pfd = - fd - 1 \<and> scast (pfd_events pfd) = channel_events ch);
        let s = s\<lparr>channels := map_erase fd (channels s)\<rparr>;
        if nat idx = length (pollfds s) - 1 then Some (s\<lparr>pollfds := butlast (pollfds s)\<rparr>)
        else do {
          let channelAtEnd = pfd_fd (last (pollfds s));
          let s = s\<lparr>pollfds := (pollfds s)[nat idx := last (pollfds s), length (pollfds s) - 1 := pollfds s ! nat idx]\<rparr>;
          let channelAtEnd = (if channelAtEnd < 0 then - channelAtEnd - 1 else channelAtEnd);
          d \<leftarrow> map_find channelAtEnd (channels s);
          let s = set_index d idx s;
          Some (s\<lparr>pollfds := butlast (pollfds s)\<rparr>) } })"

text \<open>
  \<open>revents\<close> is a \<open>short\<close>. The kernel has set the fields \<open>revents\<close> of the array, and returned \<open>numEvents\<close>.
\<close>

fun poll_fillActiveChannels :: "pollfd list \<Rightarrow> int \<Rightarrow> poll_poller \<Rightarrow> (nat list \<times> poll_poller) option" where
  "poll_fillActiveChannels [] numEvents s = Some ([], s)"
| "poll_fillActiveChannels (pfd # pfds) numEvents s =
     (if 0 < numEvents then
        if 0 < sint (pfd_revents pfd) then do {
          c \<leftarrow> map_find (pfd_fd pfd) (channels s);
          assert_that (channel_fd (chans s c) = pfd_fd pfd);
          (cs, s) \<leftarrow> poll_fillActiveChannels pfds (numEvents - 1) (set_revents c (scast (pfd_revents pfd)) s);
          Some (c # cs, s) }
        else poll_fillActiveChannels pfds numEvents s
      else Some ([], s))"

definition poll_poll :: "int \<Rightarrow> u16 list \<Rightarrow> poll_poller \<Rightarrow> (nat list \<times> poll_poller) option" where
  "poll_poll numEvents rs s =
     (let s = s\<lparr>pollfds := map2 (\<lambda>p r. p\<lparr>pfd_revents := r\<rparr>) (pollfds s) rs\<rparr> in
      if 0 < numEvents then poll_fillActiveChannels (pollfds s) numEvents s else Some ([], s))"

section \<open>EPollPoller\<close>

text \<open>The kernel's part: \<open>epoll_ctl\<close>, which returns whether it succeeded, and its interest list.\<close>

datatype epoll_op = EPOLL_CTL_ADD | EPOLL_CTL_MOD | EPOLL_CTL_DEL

record 'k epoll =
  epoll_ctl :: "epoll_op \<Rightarrow> int \<Rightarrow> u32 \<Rightarrow> nat \<Rightarrow> 'k \<Rightarrow> 'k \<times> bool"
  interest :: "'k \<Rightarrow> int \<Rightarrow> (u32 \<times> nat) option"

definition kNew :: int where "kNew = - 1"
definition kAdded :: int where "kAdded = 1"
definition kDeleted :: int where "kDeleted = 2"

definition kInitEventListSize :: nat where "kInitEventListSize = 16"

record 'k epoll_poller = channel_store +
  epoll_kernel :: 'k
  events_size :: nat
  epoll_channels :: "(int, nat) std_map"

definition new_epoll_poller :: "(nat \<Rightarrow> int) \<Rightarrow> 'k \<Rightarrow> 'k epoll_poller" where
  "new_epoll_poller fds k = \<lparr>chans = (\<lambda>c. new_poll_channel (fds c)), epoll_kernel = k, events_size = kInitEventListSize, epoll_channels = []\<rparr>"

definition epoll_update :: "'k epoll \<Rightarrow> epoll_op \<Rightarrow> nat \<Rightarrow> 'k epoll_poller \<Rightarrow> 'k epoll_poller option" where
  "epoll_update K operation c s =
     (let ch = chans s c; (k, success) = epoll_ctl K operation (channel_fd ch) (channel_events ch) c (epoll_kernel s) in
      if \<not> success \<and> operation \<noteq> EPOLL_CTL_DEL then None else Some (s\<lparr>epoll_kernel := k\<rparr>))"

definition epoll_updateChannel :: "'k epoll \<Rightarrow> nat \<Rightarrow> 'k epoll_poller \<Rightarrow> 'k epoll_poller option" where
  "epoll_updateChannel K c s =
     (let index = channel_index (chans s c); fd = channel_fd (chans s c) in
      if index = kNew \<or> index = kDeleted then do {
        s \<leftarrow> (if index = kNew then do {
                assert_that (map_find fd (epoll_channels s) = None);
                Some (s\<lparr>epoll_channels := map_set fd c (epoll_channels s)\<rparr>) }
              else do {
                assert_that (map_find fd (epoll_channels s) \<noteq> None);
                assert_that (map_find fd (epoll_channels s) = Some c);
                Some s });
        epoll_update K EPOLL_CTL_ADD c (set_index c kAdded s) }
      else do {
        assert_that (map_find fd (epoll_channels s) \<noteq> None);
        assert_that (map_find fd (epoll_channels s) = Some c);
        assert_that (index = kAdded);
        if no_events c s then do { s \<leftarrow> epoll_update K EPOLL_CTL_DEL c s; Some (set_index c kDeleted s) }
        else epoll_update K EPOLL_CTL_MOD c s })"

definition epoll_removeChannel :: "'k epoll \<Rightarrow> nat \<Rightarrow> 'k epoll_poller \<Rightarrow> 'k epoll_poller option" where
  "epoll_removeChannel K c s =
     (let index = channel_index (chans s c); fd = channel_fd (chans s c) in do {
        assert_that (map_find fd (epoll_channels s) \<noteq> None);
        assert_that (map_find fd (epoll_channels s) = Some c);
        assert_that (no_events c s);
        assert_that (index = kAdded \<or> index = kDeleted);
        let s = s\<lparr>epoll_channels := map_erase fd (epoll_channels s)\<rparr>;
        s \<leftarrow> (if index = kAdded then epoll_update K EPOLL_CTL_DEL c s else Some s);
        Some (set_index c kNew s) })"

text \<open>\<open>evs\<close>: what \<open>epoll_wait\<close> has written into the vector, masks and channels.\<close>

fun epoll_fillActiveChannels :: "(u32 \<times> nat) list \<Rightarrow> 'k epoll_poller \<Rightarrow> (nat list \<times> 'k epoll_poller) option" where
  "epoll_fillActiveChannels [] s = Some ([], s)"
| "epoll_fillActiveChannels ((e, c) # evs) s = do {
     assert_that (map_find (channel_fd (chans s c)) (epoll_channels s) \<noteq> None);
     assert_that (map_find (channel_fd (chans s c)) (epoll_channels s) = Some c);
     (cs, s) \<leftarrow> epoll_fillActiveChannels evs (set_revents c e s);
     Some (c # cs, s) }"

definition epoll_poll :: "(u32 \<times> nat) list option \<Rightarrow> 'k epoll_poller \<Rightarrow> (nat list \<times> 'k epoll_poller) option" where
  "epoll_poll ret s =
     (case ret of None \<Rightarrow> Some ([], s)
      | Some evs \<Rightarrow>
          if evs = [] then Some ([], s)
          else do {
            assert_that (length evs \<le> events_size s);
            (cs, s) \<leftarrow> epoll_fillActiveChannels evs s;
            Some (cs, if length evs = events_size s then s\<lparr>events_size := events_size s * 2\<rparr> else s) })"

section \<open>Registration through the event loop\<close>

text \<open>\<open>EventLoop::removeChannel\<close>: while events are handled, a channel may remove itself, or one that is not active.\<close>

definition loop_removeChannel :: "(nat \<Rightarrow> 's \<Rightarrow> 's option) \<Rightarrow> bool \<Rightarrow> nat option \<Rightarrow> nat list \<Rightarrow> nat \<Rightarrow> 's \<Rightarrow> 's option" where
  "loop_removeChannel removeChannel handling current active c s = do {
     assert_that (handling \<longrightarrow> current = Some c \<or> c \<notin> set active);
     removeChannel c s }"

section \<open>The contract with the channels\<close>

text \<open>
  A channel enters the poller with its first update, which asks for some event; it leaves it when it asks for none. The
  kernel watches exactly the channels of the poller that ask for some event, for these events. A poller that does
  not \<open>resumes\<close> keeps this only as long as a channel that has asked for none does not ask again.
\<close>

datatype channel_op = Change change nat | Remove nat

fun run_ops :: "(channel_op \<Rightarrow> 's \<Rightarrow> bool) \<Rightarrow> (change \<Rightarrow> nat \<Rightarrow> 's \<Rightarrow> 's option) \<Rightarrow> (nat \<Rightarrow> 's \<Rightarrow> 's option)
    \<Rightarrow> channel_op list \<Rightarrow> 's \<Rightarrow> 's option" where
  "run_ops legal change remove [] s = Some s"
| "run_ops legal change remove (x # xs) s =
     (if legal x s then
        Option.bind (case x of Change y c \<Rightarrow> change y c s | Remove c \<Rightarrow> remove c s) (run_ops legal change remove xs)
      else Some s)"

definition legal_op :: "('s \<Rightarrow> nat \<Rightarrow> bool) \<Rightarrow> ('s \<Rightarrow> nat \<Rightarrow> bool) \<Rightarrow> ('s \<Rightarrow> nat \<Rightarrow> u32) \<Rightarrow> bool \<Rightarrow> channel_op \<Rightarrow> 's \<Rightarrow> bool" where
  "legal_op fresh reg asked resumes x s \<longleftrightarrow>
     (case x of
        Change y c \<Rightarrow> (fresh s c \<and> changed y (asked s c) \<noteq> 0)
          \<or> (reg s c \<and> (asked s c \<noteq> 0 \<or> changed y (asked s c) \<noteq> 0 \<and> resumes))
      | Remove c \<Rightarrow> reg s c \<and> asked s c = 0)"

locale poller =
  fixes change :: "change \<Rightarrow> nat \<Rightarrow> 's \<Rightarrow> 's option"
    and remove :: "nat \<Rightarrow> 's \<Rightarrow> 's option"
    and inv :: "'s \<Rightarrow> bool"
    and fresh :: "'s \<Rightarrow> nat \<Rightarrow> bool"
    and reg :: "'s \<Rightarrow> nat \<Rightarrow> bool"
    and asked :: "'s \<Rightarrow> nat \<Rightarrow> u32"
    and watch :: "'s \<Rightarrow> nat \<Rightarrow> u32 option"
    and resumes :: bool
  assumes change_new: "inv s \<Longrightarrow> fresh s c \<Longrightarrow> changed x (asked s c) \<noteq> 0 \<Longrightarrow>
      \<exists>s'. change x c s = Some s' \<and> inv s' \<and> reg s' = (reg s)(c := True)
        \<and> asked s' = (asked s)(c := changed x (asked s c)) \<and> watch s' = (watch s)(c \<mapsto> changed x (asked s c))"
    and change_old: "inv s \<Longrightarrow> reg s c \<Longrightarrow> asked s c \<noteq> 0 \<or> changed x (asked s c) \<noteq> 0 \<and> resumes \<Longrightarrow>
      watch s c = (if asked s c = 0 then None else Some (asked s c)) \<Longrightarrow>
      \<exists>s'. change x c s = Some s' \<and> inv s' \<and> reg s' = reg s \<and> asked s' = (asked s)(c := changed x (asked s c))
        \<and> watch s' = (watch s)(c := if changed x (asked s c) = 0 then None else Some (changed x (asked s c)))"
    and remove_old: "inv s \<Longrightarrow> reg s c \<Longrightarrow> asked s c = 0 \<Longrightarrow>
      \<exists>s'. remove c s = Some s' \<and> inv s' \<and> reg s' = (reg s)(c := False) \<and> asked s' = asked s \<and> watch s' = (watch s)(c := None)"
begin

definition watched :: "'s \<Rightarrow> bool" where
  "watched s \<longleftrightarrow> (\<forall>c. watch s c = (if reg s c \<and> asked s c \<noteq> 0 then Some (asked s c) else None))"

lemma op_watched:
  assumes "inv s" "watched s" "legal_op fresh reg asked resumes x s"
  shows "\<exists>s'. (case x of Change y c \<Rightarrow> change y c s | Remove c \<Rightarrow> remove c s) = Some s' \<and> inv s' \<and> watched s'"
proof (cases x)
  case (Change y c)
  then consider "fresh s c" "changed y (asked s c) \<noteq> 0"
    | "reg s c" "asked s c \<noteq> 0 \<or> changed y (asked s c) \<noteq> 0 \<and> resumes" "watch s c = (if asked s c = 0 then None else Some (asked s c))"
    using assms by (auto simp: legal_op_def watched_def)
  then show ?thesis
  proof cases
    case 1
    from change_new [OF assms(1) this] show ?thesis using Change assms(2) 1(2) by (auto simp: watched_def)
  next
    case 2
    from change_old [OF assms(1) this] show ?thesis using Change assms(2) 2(1) by (auto simp: watched_def)
  qed
next
  case (Remove c)
  then show ?thesis using remove_old [OF assms(1), of c] assms(2,3) by (auto simp: legal_op_def watched_def)
qed

lemma ops_watched:
  "inv s \<Longrightarrow> watched s \<Longrightarrow> \<exists>s'. run_ops (legal_op fresh reg asked resumes) change remove xs s = Some s' \<and> inv s' \<and> watched s'"
proof (induction xs arbitrary: s)
  case (Cons x xs)
  show ?case
  proof (cases "legal_op fresh reg asked resumes x s")
    case True
    from op_watched [OF Cons.prems True] Cons.IH show ?thesis using True by force
  qed (use Cons.prems in simp)
qed simp

end

section \<open>PollPoller keeps the contract\<close>

definition asked_events :: "'a channel_store_scheme \<Rightarrow> nat \<Rightarrow> u32" where
  "asked_events s c = channel_events (chans s c)"

definition poll_registered :: "poll_poller \<Rightarrow> nat \<Rightarrow> bool" where
  "poll_registered s c \<longleftrightarrow> map_find (channel_fd (chans s c)) (channels s) = Some c"

definition poll_fresh :: "poll_poller \<Rightarrow> nat \<Rightarrow> bool" where
  "poll_fresh s c \<longleftrightarrow> channel_index (chans s c) < 0 \<and> 0 \<le> channel_fd (chans s c) \<and> map_find (channel_fd (chans s c)) (channels s) = None"

text \<open>The kernel ignores a negative descriptor of the array.\<close>

definition poll_watch :: "poll_poller \<Rightarrow> nat \<Rightarrow> u32 option" where
  "poll_watch s c = (if poll_registered s c
     then let p = pollfds s ! nat (channel_index (chans s c)) in
       if pfd_fd p = channel_fd (chans s c) then Some (scast (pfd_events p)) else None
     else None)"

definition slot_ok :: "poll_channel \<Rightarrow> pollfd list \<Rightarrow> bool" where
  "slot_ok ch ps \<longleftrightarrow> 0 \<le> channel_fd ch \<and> 0 \<le> channel_index ch \<and> channel_index ch < int (length ps)
     \<and> (let p = ps ! nat (channel_index ch) in
          pfd_events p = ucast (channel_events ch)
          \<and> (pfd_fd p = channel_fd ch \<and> channel_events ch \<noteq> 0 \<or> pfd_fd p = - channel_fd ch - 1))"

definition poll_inv :: "poll_poller \<Rightarrow> bool" where
  "poll_inv s \<longleftrightarrow> map_ok (channels s)
     \<and> (\<forall>fd c. map_find fd (channels s) = Some c \<longrightarrow> channel_fd (chans s c) = fd \<and> slot_ok (chans s c) (pollfds s))
     \<and> (\<forall>i<length (pollfds s). \<exists>c. poll_registered s c \<and> channel_index (chans s c) = int i)
     \<and> (\<forall>c. channel_events (chans s c) AND 7 = channel_events (chans s c))"

definition small_mask :: "u32 \<Rightarrow> bool" where
  "small_mask e \<longleftrightarrow> e AND 7 = e"

lemma small_mask_bits: "small_mask e \<Longrightarrow> bit e n \<Longrightarrow> n < 3"
proof -
  assume "small_mask e" "bit e n"
  then have "bit (7 :: u32) n" unfolding small_mask_def by (metis bit_and_iff)
  moreover have "(7 :: u32) = mask 3" by (simp add: mask_eq_exp_minus_1)
  ultimately show "n < 3" by (simp add: bit_mask_iff)
qed

lemma small_mask_changed: "small_mask e \<Longrightarrow> small_mask (changed x e)"
proof (cases x)
  case DisableWriting
  assume "small_mask e"
  then have "(e AND NOT kWriteEvent) AND 7 = e AND NOT kWriteEvent" unfolding small_mask_def
    by (metis and.assoc and.commute)
  then show ?thesis using DisableWriting by (simp add: small_mask_def)
qed (simp_all add: small_mask_def bit.conj_disj_distrib2 poll_masks)

lemma small_mask_short: "small_mask e \<Longrightarrow> scast (ucast e :: u16) = e"
proof (rule bit_word_eqI)
  fix n
  assume "small_mask e" "n < LENGTH(32)"
  then show "bit (scast (ucast e :: u16) :: u32) n = bit e n"
    using small_mask_bits [of e n] small_mask_bits [of e 15] by (auto simp: bit_simps min_def not_less)
qed

lemma small_mask_0 [simp]: "small_mask 0"
  by (simp add: small_mask_def)

definition chan_masks :: "'a channel_store_scheme \<Rightarrow> bool" where
  "chan_masks s \<longleftrightarrow> (\<forall>c. small_mask (asked_events s c))"

lemma set_events_simps [simp]:
  "chans (set_events x c s) = (chans s)(c := (chans s c)\<lparr>channel_events := changed x (channel_events (chans s c))\<rparr>)"
  "chans (set_index c i s) = (chans s)(c := (chans s c)\<lparr>channel_index := i\<rparr>)"
  "chans (set_revents c r s) = (chans s)(c := (chans s c)\<lparr>channel_revents := r\<rparr>)"
  by (simp_all add: set_events_def set_index_def set_revents_def)

lemma poll_frame [simp]:
  "pollfds (set_events x c s) = pollfds s" "pollfds (set_index c i s) = pollfds s" "pollfds (set_revents c r s) = pollfds s"
  "channels (set_events x c s) = channels s" "channels (set_index c i s) = channels s" "channels (set_revents c r s) = channels s"
  by (simp_all add: set_events_def set_index_def set_revents_def)

lemma poll_new:
  assumes i: "poll_inv s" and f: "poll_fresh s c" and e: "changed x (asked_events s c) \<noteq> 0"
  shows "\<exists>s'. channel_change poll_updateChannel x c s = Some s' \<and> poll_inv s' \<and> poll_registered s' = (poll_registered s)(c := True)
    \<and> asked_events s' = (asked_events s)(c := changed x (asked_events s c)) \<and> poll_watch s' = (poll_watch s)(c \<mapsto> changed x (asked_events s c))"
proof -
  let ?fd = "channel_fd (chans s c)" and ?n = "length (pollfds s)" and ?e = "changed x (channel_events (chans s c))"
  define s' where "s' = (set_index c (int ?n) ((set_events x c s)\<lparr>pollfds := pollfds s @ [\<lparr>pfd_fd = ?fd, pfd_events = ucast ?e, pfd_revents = 0\<rparr>]\<rparr>))
    \<lparr>channels := map_set ?fd c (channels s)\<rparr>"
  have ok: "map_ok (channels s)" and old: "\<And>fd d. map_find fd (channels s) = Some d \<Longrightarrow> channel_fd (chans s d) = fd \<and> slot_ok (chans s d) (pollfds s)"
    and onto: "\<And>i. i < ?n \<Longrightarrow> \<exists>d. poll_registered s d \<and> channel_index (chans s d) = int i"
    and masks: "\<And>d. small_mask (channel_events (chans s d))"
    using i by (auto simp: poll_inv_def small_mask_def)
  have find: "map_find fd (channels s') = (if fd = ?fd then Some c else map_find fd (channels s))" for fd
    using smap.find_set [OF ok] by (simp add: s'_def)
  have c: "chans s' = (chans s)(c := (chans s c)\<lparr>channel_events := ?e, channel_index := int ?n\<rparr>)" by (simp add: s'_def)
  have p: "pollfds s' = pollfds s @ [\<lparr>pfd_fd = ?fd, pfd_events = ucast ?e, pfd_revents = 0\<rparr>]" by (simp add: s'_def)
  have new: "map_find ?fd (channels s) = None" "0 \<le> ?fd" using f by (simp_all add: poll_fresh_def)
  have keep: "fd \<noteq> ?fd \<and> d \<noteq> c" if "map_find fd (channels s) = Some d" for fd d using old [OF that] new that by auto
  have r: "poll_registered s' = (poll_registered s)(c := True)"
    using keep by (auto simp: poll_registered_def find c fun_eq_iff)
  have "poll_inv s'" unfolding poll_inv_def
  proof (intro conjI allI impI)
    show "map_ok (channels s')" using ok by (simp add: s'_def smap.ok_set)
    fix fd d
    assume m: "map_find fd (channels s') = Some d"
    show "channel_fd (chans s' d) = fd" using m old [of fd d] keep [of fd d] by (auto simp: find c split: if_splits)
    show "slot_ok (chans s' d) (pollfds s')"
    proof (cases "fd = ?fd")
      case True
      then have "d = c" using m by (simp add: find)
      then show ?thesis using e new by (simp add: slot_ok_def c p asked_events_def)
    next
      case False
      then show ?thesis using m old [of fd d] keep [of fd d] by (auto simp: find c p slot_ok_def nth_append)
    qed
  next
    fix i
    assume "i < length (pollfds s')"
    then consider "i < ?n" | "i = ?n" by (auto simp: p less_Suc_eq)
    then show "\<exists>d. poll_registered s' d \<and> channel_index (chans s' d) = int i"
    proof cases
      case 1
      then obtain d where "poll_registered s d" "channel_index (chans s d) = int i" using onto by blast
      moreover from this have "d \<noteq> c" using keep by (auto simp: poll_registered_def)
      ultimately show ?thesis by (intro exI [of _ d]) (simp add: r c)
    next
      case 2
      then show ?thesis by (intro exI [of _ c]) (simp add: r c)
    qed
  next
    fix d
    show "channel_events (chans s' d) AND 7 = channel_events (chans s' d)"
      using masks [of d] small_mask_changed [OF masks [of c]] by (simp add: c small_mask_def)
  qed
  moreover have "channel_change poll_updateChannel x c s = Some s'"
    using new f by (simp add: channel_change_def poll_updateChannel_def s'_def Let_def poll_fresh_def)
  moreover have "asked_events s' = (asked_events s)(c := changed x (asked_events s c))" by (auto simp: asked_events_def c)
  moreover have "poll_watch s' = (poll_watch s)(c \<mapsto> changed x (asked_events s c))"
  proof
    fix d
    show "poll_watch s' d = ((poll_watch s)(c \<mapsto> changed x (asked_events s c))) d"
    proof (cases "d = c")
      case True
      then show ?thesis using small_mask_short [OF small_mask_changed [OF masks [of c]]]
        by (simp add: poll_watch_def r c p asked_events_def)
    next
      case False
      have "channel_index (chans s d) < int ?n \<and> 0 \<le> channel_index (chans s d)" if "poll_registered s d"
        using old that by (auto simp: poll_registered_def slot_ok_def)
      then show ?thesis using False by (auto simp: poll_watch_def r c p nth_append)
    qed
  qed
  ultimately show ?thesis using r by blast
qed

lemma poll_invD:
  assumes "poll_inv s"
  shows "map_ok (channels s)" "map_find fd (channels s) = Some d \<Longrightarrow> channel_fd (chans s d) = fd"
    "map_find fd (channels s) = Some d \<Longrightarrow> slot_ok (chans s d) (pollfds s)"
    "i < length (pollfds s) \<Longrightarrow> \<exists>d. poll_registered s d \<and> channel_index (chans s d) = int i"
    "small_mask (channel_events (chans s d))"
  using assms by (auto simp: poll_inv_def small_mask_def)

text \<open>Two channels never share a place in the array.\<close>
lemma poll_index_inj:
  assumes i: "poll_inv s" and c: "poll_registered s c" and d: "poll_registered s d" and "nat (channel_index (chans s c)) = nat (channel_index (chans s d))"
  shows "c = d"
proof -
  note sc = poll_invD(3) [OF i c [unfolded poll_registered_def]] and sd = poll_invD(3) [OF i d [unfolded poll_registered_def]]
  have "channel_fd (chans s c) = channel_fd (chans s d)" using sc sd assms(4) by (auto simp: slot_ok_def Let_def)
  then show ?thesis using c d by (simp add: poll_registered_def)
qed

lemma poll_update_old:
  assumes i: "poll_inv s" and r: "poll_registered s c"
  shows "\<exists>s'. channel_change poll_updateChannel x c s = Some s' \<and> poll_inv s' \<and> poll_registered s' = poll_registered s
    \<and> asked_events s' = (asked_events s)(c := changed x (asked_events s c))
    \<and> poll_watch s' = (poll_watch s)(c := if changed x (asked_events s c) = 0 then None
         else map_option (\<lambda>e. changed x (asked_events s c)) (poll_watch s c))"
proof -
  let ?ch = "chans s c"
  let ?fd = "channel_fd ?ch" and ?e = "changed x (channel_events ?ch)" and ?i = "nat (channel_index ?ch)"
  let ?p = "pollfds s ! ?i"
  let ?q = "?p\<lparr>pfd_events := ucast ?e, pfd_revents := 0\<rparr>"
  let ?p' = "if ?e = 0 then ?q\<lparr>pfd_fd := - ?fd - 1\<rparr> else ?q"
  define s' where "s' = (set_events x c s)\<lparr>pollfds := (pollfds s)[?i := ?p']\<rparr>"
  note d = poll_invD [OF i]
  have sc: "slot_ok ?ch (pollfds s)" using d(3) r by (simp add: poll_registered_def)
  then have idx: "0 \<le> channel_index ?ch" "?i < length (pollfds s)" "0 \<le> ?fd" "int ?i = channel_index ?ch"
    by (auto simp: slot_ok_def)
  have c: "chans s' = (chans s)(c := ?ch\<lparr>channel_events := ?e\<rparr>)" by (simp add: s'_def)
  have p: "pollfds s' = (pollfds s)[?i := ?p']" and m: "channels s' = channels s" by (simp_all add: s'_def)
  have reg: "poll_registered s' = poll_registered s" by (auto simp: poll_registered_def c m fun_eq_iff)
  have other: "nat (channel_index (chans s e)) \<noteq> ?i" if "poll_registered s e" "e \<noteq> c" for e
    using poll_index_inj [OF i that(1) r] that(2) by blast
  have "poll_inv s'" unfolding poll_inv_def
  proof (intro conjI allI impI)
    show "map_ok (channels s')" using d(1) by (simp add: m)
    fix fd e
    assume f: "map_find fd (channels s') = Some e"
    show "channel_fd (chans s' e) = fd" using f d(2) [of fd e] by (auto simp: m c)
    show "slot_ok (chans s' e) (pollfds s')"
    proof (cases "e = c")
      case True
      then show ?thesis using sc idx(1-3) by (auto simp: slot_ok_def c p Let_def)
    next
      case False
      have "poll_registered s e" using f d(2) [of fd e] by (simp add: m poll_registered_def)
      then show ?thesis using False other [of e] d(3) [of fd e] f by (auto simp: slot_ok_def c p m)
    qed
  next
    fix j
    assume "j < length (pollfds s')"
    then have "j < length (pollfds s)" by (simp add: p)
    from d(4) [OF this] show "\<exists>e. poll_registered s' e \<and> channel_index (chans s' e) = int j" by (auto simp: reg c)
  next
    fix e
    show "channel_events (chans s' e) AND 7 = channel_events (chans s' e)"
      using d(5) [of e] small_mask_changed [OF d(5) [of c]] by (simp add: c small_mask_def)
  qed
  moreover have "channel_change poll_updateChannel x c s = Some s'"
    using idx(1-3) r sc by (auto simp: channel_change_def poll_updateChannel_def s'_def Let_def poll_registered_def no_events_def kNoneEvent_def slot_ok_def)
  moreover have "asked_events s' = (asked_events s)(c := changed x (asked_events s c))" by (auto simp: asked_events_def c)
  moreover have "poll_watch s' = (poll_watch s)(c := if changed x (asked_events s c) = 0 then None
         else map_option (\<lambda>e. changed x (asked_events s c)) (poll_watch s c))"
  proof
    fix e
    show "poll_watch s' e = ((poll_watch s)(c := if changed x (asked_events s c) = 0 then None
         else map_option (\<lambda>e. changed x (asked_events s c)) (poll_watch s c))) e"
    proof (cases "e = c")
      case True
      then show ?thesis using small_mask_short [OF small_mask_changed [OF d(5) [of c]]] idx r
        by (auto simp: poll_watch_def reg c p asked_events_def Let_def)
    next
      case False
      then show ?thesis using other [of e] by (auto simp: poll_watch_def reg c p)
    qed
  qed
  ultimately show ?thesis using reg by blast
qed

lemma butlast_swap_last: "i < length xs - 1 \<Longrightarrow> butlast (xs[i := x, length xs - 1 := y]) = (butlast xs)[i := x]"
  by (rule nth_equalityI) (auto simp: nth_butlast nth_list_update)

text \<open>The removed place is taken by the last one, whose channel learns its new place.\<close>

definition poll_taken :: "nat \<Rightarrow> poll_poller \<Rightarrow> poll_poller" where
  "poll_taken c s =
     (let idx = nat (channel_index (chans s c)); n = length (pollfds s) - 1;
          s = s\<lparr>channels := map_erase (channel_fd (chans s c)) (channels s)\<rparr> in
      if idx = n then s\<lparr>pollfds := butlast (pollfds s)\<rparr>
      else let fd = pfd_fd (last (pollfds s)); d = the (map_find (if fd < 0 then - fd - 1 else fd) (channels s)) in
        (set_index d (channel_index (chans s c)) s)\<lparr>pollfds := (butlast (pollfds s))[idx := last (pollfds s)]\<rparr>)"

lemma poll_remove_taken:
  assumes i: "poll_inv s" and r: "poll_registered s c" and e: "asked_events s c = 0"
  defines "idx \<equiv> nat (channel_index (chans s c))" and "n \<equiv> length (pollfds s) - 1"
  shows "channel_remove poll_removeChannel c s = Some (poll_taken c s)" "idx \<le> n" "0 < length (pollfds s)"
    "idx \<noteq> n \<Longrightarrow> \<exists>d. poll_registered s d \<and> d \<noteq> c \<and> channel_index (chans s d) = int n
      \<and> poll_taken c s = (set_index d (channel_index (chans s c)) (s\<lparr>channels := map_erase (channel_fd (chans s c)) (channels s)\<rparr>))
           \<lparr>pollfds := (butlast (pollfds s))[idx := last (pollfds s)]\<rparr>"
proof -
  note d = poll_invD [OF i]
  have f: "map_find (channel_fd (chans s c)) (channels s) = Some c" using r by (simp add: poll_registered_def)
  have sc: "slot_ok (chans s c) (pollfds s)" using d(3) [OF f] .
  have idx: "0 \<le> channel_index (chans s c)" "idx < length (pollfds s)" "int idx = channel_index (chans s c)"
    using sc by (auto simp: slot_ok_def idx_def)
  then show le: "idx \<le> n" "0 < length (pollfds s)" by (auto simp: n_def)
  have z: "channel_events (chans s c) = 0" using e by (simp add: asked_events_def)
  have pfd: "pfd_fd (pollfds s ! idx) = - channel_fd (chans s c) - 1" "pfd_events (pollfds s ! idx) = 0"
    using sc z by (auto simp: slot_ok_def idx_def Let_def)
  have last: "last (pollfds s) = pollfds s ! n" using le(2) by (simp add: last_conv_nth n_def)
  obtain e where e: "poll_registered s e" "channel_index (chans s e) = int n" using d(4) [of n] le(2) by (auto simp: n_def)
  let ?fd = "pfd_fd (last (pollfds s))"
  have fe: "(if ?fd < 0 then - ?fd - 1 else ?fd) = channel_fd (chans s e)"
    using d(3) [OF e(1) [unfolded poll_registered_def]] e(2) by (auto simp: slot_ok_def Let_def last)
  have ec: "e \<noteq> c" "channel_fd (chans s e) \<noteq> channel_fd (chans s c)" if "idx \<noteq> n"
  proof -
    show "e \<noteq> c" using that e(2) idx(3) by auto
    then show "channel_fd (chans s e) \<noteq> channel_fd (chans s c)" using e(1) r by (auto simp: poll_registered_def)
  qed
  have find: "map_find (channel_fd (chans s e)) (map_erase (channel_fd (chans s c)) (channels s)) = Some e" if "idx \<noteq> n"
    using ec [OF that] e(1) smap.find_erase [OF d(1)] by (simp add: poll_registered_def)
  show t: "idx \<noteq> n \<Longrightarrow> \<exists>d. poll_registered s d \<and> d \<noteq> c \<and> channel_index (chans s d) = int n
      \<and> poll_taken c s = (set_index d (channel_index (chans s c)) (s\<lparr>channels := map_erase (channel_fd (chans s c)) (channels s)\<rparr>))
           \<lparr>pollfds := (butlast (pollfds s))[idx := last (pollfds s)]\<rparr>"
    using e ec find fe by (intro exI [of _ e]) (simp add: poll_taken_def Let_def idx_def n_def)
  show "channel_remove poll_removeChannel c s = Some (poll_taken c s)"
  proof (cases "idx = n")
    case True
    then show ?thesis using f idx(1,2) pfd z
      by (simp add: channel_remove_def no_events_def kNoneEvent_def poll_removeChannel_def poll_taken_def Let_def idx_def n_def)
  next
    case False
    have "butlast ((pollfds s)[idx := last (pollfds s), n := pollfds s ! idx]) = (butlast (pollfds s))[idx := last (pollfds s)]"
      unfolding n_def by (rule butlast_swap_last) (use False le in \<open>simp add: n_def\<close>)
    then show ?thesis using f idx(1,2) pfd z False find [OF False] fe
      by (simp add: channel_remove_def no_events_def kNoneEvent_def poll_removeChannel_def poll_taken_def Let_def idx_def n_def set_index_def)
  qed
qed

lemma poll_remove_old:
  assumes i: "poll_inv s" and r: "poll_registered s c" and z: "asked_events s c = 0"
  shows "\<exists>s'. channel_remove poll_removeChannel c s = Some s' \<and> poll_inv s' \<and> poll_registered s' = (poll_registered s)(c := False)
    \<and> asked_events s' = asked_events s \<and> poll_watch s' = (poll_watch s)(c := None)"
proof -
  let ?idx = "nat (channel_index (chans s c))" and ?n = "length (pollfds s) - 1" and ?fd = "channel_fd (chans s c)"
  define s' where "s' = poll_taken c s"
  note d = poll_invD [OF i] and t = poll_remove_taken [OF i r z]
  define e where "e = (if ?idx = ?n then c else (THE e. poll_registered s e \<and> channel_index (chans s e) = int ?n))"
  have e: "poll_registered s e" "nat (channel_index (chans s e)) = ?n" "0 \<le> channel_index (chans s c)" "?idx = ?n \<longleftrightarrow> e = c"
    and s': "chans s' = (if e = c then chans s else (chans s)(e := (chans s e)\<lparr>channel_index := channel_index (chans s c)\<rparr>))"
      "channels s' = map_erase ?fd (channels s)" "pollfds s' = (butlast (pollfds s))[?idx := last (pollfds s)]"
  proof -
    show c0: "0 \<le> channel_index (chans s c)" using d(3) [OF r [unfolded poll_registered_def]] by (simp add: slot_ok_def)
    have *: "poll_registered s e \<and> nat (channel_index (chans s e)) = ?n \<and> (?idx = ?n \<longleftrightarrow> e = c)
      \<and> chans s' = (if e = c then chans s else (chans s)(e := (chans s e)\<lparr>channel_index := channel_index (chans s c)\<rparr>))
      \<and> channels s' = map_erase ?fd (channels s) \<and> pollfds s' = (butlast (pollfds s))[?idx := last (pollfds s)]"
    proof (cases "?idx = ?n")
      case True
      moreover have "(butlast (pollfds s))[?n := last (pollfds s)] = butlast (pollfds s)" by (rule list_update_beyond) simp
      ultimately show ?thesis using r t(3) by (simp add: e_def s'_def poll_taken_def Let_def)
    next
      case False
      from t(4) [OF False] obtain a where a: "poll_registered s a" "a \<noteq> c" "channel_index (chans s a) = int ?n"
        "poll_taken c s = (set_index a (channel_index (chans s c)) (s\<lparr>channels := map_erase ?fd (channels s)\<rparr>))
           \<lparr>pollfds := (butlast (pollfds s))[?idx := last (pollfds s)]\<rparr>" by blast
      have "(THE e. poll_registered s e \<and> channel_index (chans s e) = int ?n) = a"
      proof (rule the_equality)
        show "poll_registered s a \<and> channel_index (chans s a) = int ?n" using a(1,3) by blast
        fix b
        assume b: "poll_registered s b \<and> channel_index (chans s b) = int ?n"
        then have "nat (channel_index (chans s b)) = nat (channel_index (chans s a))" using a(3) by simp
        then show "b = a" using b a(1) poll_index_inj [OF i] by blast
      qed
      then have ea: "e = a" using False by (simp add: e_def)
      have "nat (channel_index (chans s a)) = ?n" by (simp only: a(3) nat_int)
      moreover have "chans s' = (chans s)(a := (chans s a)\<lparr>channel_index := channel_index (chans s c)\<rparr>)"
        "channels s' = map_erase ?fd (channels s)" "pollfds s' = (butlast (pollfds s))[?idx := last (pollfds s)]"
        unfolding s'_def a(4) by simp_all
      ultimately show ?thesis using a(1,2) False unfolding ea if_not_P [OF a(2)] by (intro conjI) blast+
    qed
    from * show "poll_registered s e" "nat (channel_index (chans s e)) = ?n" "?idx = ?n \<longleftrightarrow> e = c"
      "chans s' = (if e = c then chans s else (chans s)(e := (chans s e)\<lparr>channel_index := channel_index (chans s c)\<rparr>))"
      "channels s' = map_erase ?fd (channels s)" "pollfds s' = (butlast (pollfds s))[?idx := last (pollfds s)]"
      by - (elim conjE; assumption)+
  qed
  have fd: "channel_fd (chans s' b) = channel_fd (chans s b)" "channel_events (chans s' b) = channel_events (chans s b)" for b
    by (simp_all add: s'(1))
  have find: "map_find f (channels s') = (if f = ?fd then None else map_find f (channels s))" for f
    using smap.find_erase [OF d(1)] by (simp add: s'(2))
  have reg: "poll_registered s' = (poll_registered s)(c := False)"
  proof
    fix b
    show "poll_registered s' b = ((poll_registered s)(c := False)) b"
      using r by (cases "b = c") (auto simp: poll_registered_def find fd)
  qed
  have idx: "channel_index (chans s' b) = (if b = e then channel_index (chans s c) else channel_index (chans s b))" for b
    using s'(1) by auto
  have place: "pollfds s' ! nat (channel_index (chans s' b)) = pollfds s ! nat (channel_index (chans s b))
      \<and> channel_index (chans s' b) < int (length (pollfds s')) \<and> 0 \<le> channel_index (chans s' b)"
    if b: "poll_registered s b" "b \<noteq> c" for b
  proof -
    have sb: "0 \<le> channel_index (chans s b)" "channel_index (chans s b) < int (length (pollfds s))"
      using d(3) [OF b(1) [unfolded poll_registered_def]] by (auto simp: slot_ok_def)
    have nb: "nat (channel_index (chans s b)) \<noteq> ?idx" using poll_index_inj [OF i b(1) r] b(2) by blast
    show ?thesis
    proof (cases "b = e")
      case True
      then have lt: "?idx < ?n" using t(2) e(4) b(2) by auto
      then show ?thesis using True e(2,3) t(3) by (simp add: idx s'(3) last_conv_nth nat_less_iff)
    next
      case False
      then have "nat (channel_index (chans s b)) \<noteq> ?n" using poll_index_inj [OF i b(1) e(1)] e(2) by auto
      then have "nat (channel_index (chans s b)) < ?n" using sb by linarith
      then show ?thesis using False sb nb by (simp add: idx s'(3) nth_butlast)
    qed
  qed
  have "poll_inv s'" unfolding poll_inv_def
  proof (intro conjI allI impI)
    show "map_ok (channels s')" using d(1) by (simp add: s'(2) smap.ok_erase)
    fix f b
    assume f: "map_find f (channels s') = Some b"
    then have m: "map_find f (channels s) = Some b" "f \<noteq> ?fd" by (auto simp: find split: if_splits)
    show "channel_fd (chans s' b) = f" using d(2) [OF m(1)] by (simp add: fd)
    have "poll_registered s b" "b \<noteq> c" using m d(2) [OF m(1)] by (auto simp: poll_registered_def)
    from place [OF this] d(3) [OF m(1)] show "slot_ok (chans s' b) (pollfds s')" by (simp add: slot_ok_def fd)
  next
    fix j
    assume j: "j < length (pollfds s')"
    show "\<exists>b. poll_registered s' b \<and> channel_index (chans s' b) = int j"
    proof (cases "j = ?idx")
      case True
      then have "e \<noteq> c" using e(4) j by (auto simp: s'(3))
      then show ?thesis using True e(1,3) by (intro exI [of _ e]) (simp add: reg idx)
    next
      case False
      have "j < length (pollfds s)" using j by (simp add: s'(3))
      from d(4) [OF this] obtain b where b: "poll_registered s b" "channel_index (chans s b) = int j" by blast
      then have "b \<noteq> c" "b \<noteq> e" using False e(2,3) j by (auto simp: s'(3))
      then show ?thesis using b by (intro exI [of _ b]) (simp add: reg idx)
    qed
  next
    fix b
    show "channel_events (chans s' b) AND 7 = channel_events (chans s' b)" using d(5) [of b] by (simp add: fd small_mask_def)
  qed
  moreover have "poll_watch s' = (poll_watch s)(c := None)"
  proof
    fix b
    show "poll_watch s' b = ((poll_watch s)(c := None)) b"
      using place [of b] by (cases "b = c") (auto simp: poll_watch_def reg fd Let_def)
  qed
  moreover have "asked_events s' = asked_events s" by (auto simp: asked_events_def fd)
  ultimately show ?thesis using t(1) reg by (auto simp: s'_def)
qed

definition poll_change :: "change \<Rightarrow> nat \<Rightarrow> poll_poller \<Rightarrow> poll_poller option" where
  "poll_change = channel_change poll_updateChannel"

definition poll_remove :: "nat \<Rightarrow> poll_poller \<Rightarrow> poll_poller option" where
  "poll_remove = channel_remove poll_removeChannel"

interpretation poll: poller poll_change poll_remove poll_inv poll_fresh poll_registered asked_events poll_watch False
proof unfold_locales
  fix s c x
  assume "poll_inv s" "poll_registered s c" "asked_events s c \<noteq> 0 \<or> changed x (asked_events s c) \<noteq> 0 \<and> False"
    "poll_watch s c = (if asked_events s c = 0 then None else Some (asked_events s c))"
  then show "\<exists>s'. poll_change x c s = Some s' \<and> poll_inv s' \<and> poll_registered s' = poll_registered s
    \<and> asked_events s' = (asked_events s)(c := changed x (asked_events s c))
    \<and> poll_watch s' = (poll_watch s)(c := if changed x (asked_events s c) = 0 then None else Some (changed x (asked_events s c)))"
    using poll_update_old [of s c x] by (auto simp: poll_change_def)
qed (use poll_new poll_remove_old in \<open>auto simp: poll_change_def poll_remove_def\<close>)

section \<open>EPollPoller keeps the contract\<close>

text \<open>
  What \<open>epoll_ctl(2)\<close> documents: a descriptor is added once, and modified or deleted when it is there. (The failures for lack of
  memory or watches are not among the cases.)
\<close>

definition epoll_laws :: "'k epoll \<Rightarrow> bool" where
  "epoll_laws K \<longleftrightarrow> (\<forall>k fd e c.
     (interest K k fd = None \<longrightarrow> snd (epoll_ctl K EPOLL_CTL_ADD fd e c k)
        \<and> interest K (fst (epoll_ctl K EPOLL_CTL_ADD fd e c k)) = (interest K k)(fd \<mapsto> (e, c)))
     \<and> (interest K k fd \<noteq> None \<longrightarrow> snd (epoll_ctl K EPOLL_CTL_MOD fd e c k)
        \<and> interest K (fst (epoll_ctl K EPOLL_CTL_MOD fd e c k)) = (interest K k)(fd \<mapsto> (e, c)))
     \<and> (interest K k fd \<noteq> None \<longrightarrow> interest K (fst (epoll_ctl K EPOLL_CTL_DEL fd e c k)) = (interest K k)(fd := None)))"

definition epoll_registered :: "'k epoll_poller \<Rightarrow> nat \<Rightarrow> bool" where
  "epoll_registered s c \<longleftrightarrow> map_find (channel_fd (chans s c)) (epoll_channels s) = Some c"

definition epoll_fresh :: "'k epoll_poller \<Rightarrow> nat \<Rightarrow> bool" where
  "epoll_fresh s c \<longleftrightarrow> channel_index (chans s c) = kNew \<and> map_find (channel_fd (chans s c)) (epoll_channels s) = None"

definition epoll_watch :: "'k epoll \<Rightarrow> 'k epoll_poller \<Rightarrow> nat \<Rightarrow> u32 option" where
  "epoll_watch K s c = (case interest K (epoll_kernel s) (channel_fd (chans s c)) of None \<Rightarrow> None
     | Some (e, d) \<Rightarrow> if d = c then Some e else None)"

text \<open>The index tells whether the kernel has the channel.\<close>

definition epoll_entry_ok :: "'k epoll \<Rightarrow> 'k epoll_poller \<Rightarrow> int \<Rightarrow> nat \<Rightarrow> bool" where
  "epoll_entry_ok K s fd c \<longleftrightarrow> channel_fd (chans s c) = fd
     \<and> (channel_index (chans s c) = kAdded \<and> channel_events (chans s c) \<noteq> 0
          \<and> interest K (epoll_kernel s) fd = Some (channel_events (chans s c), c)
        \<or> channel_index (chans s c) = kDeleted \<and> channel_events (chans s c) = 0 \<and> interest K (epoll_kernel s) fd = None)"

definition epoll_inv :: "'k epoll \<Rightarrow> 'k epoll_poller \<Rightarrow> bool" where
  "epoll_inv K s \<longleftrightarrow> epoll_laws K \<and> map_ok (epoll_channels s)
     \<and> (\<forall>fd c. map_find fd (epoll_channels s) = Some c \<longrightarrow> epoll_entry_ok K s fd c)
     \<and> (\<forall>fd. map_find fd (epoll_channels s) = None \<longrightarrow> interest K (epoll_kernel s) fd = None)"

lemma epoll_frame [simp]:
  "epoll_kernel (set_events x c s) = epoll_kernel s" "epoll_kernel (set_index c i s) = epoll_kernel s" "epoll_kernel (set_revents c r s) = epoll_kernel s"
  "epoll_channels (set_events x c s) = epoll_channels s" "epoll_channels (set_index c i s) = epoll_channels s"
  "epoll_channels (set_revents c r s) = epoll_channels s" "events_size (set_revents c r s) = events_size s"
  by (simp_all add: set_events_def set_index_def set_revents_def)

definition epoll_change :: "'k epoll \<Rightarrow> change \<Rightarrow> nat \<Rightarrow> 'k epoll_poller \<Rightarrow> 'k epoll_poller option" where
  "epoll_change K = channel_change (epoll_updateChannel K)"

definition epoll_remove :: "'k epoll \<Rightarrow> nat \<Rightarrow> 'k epoll_poller \<Rightarrow> 'k epoll_poller option" where
  "epoll_remove K = channel_remove (epoll_removeChannel K)"

lemmas epoll_indices = kNew_def kAdded_def kDeleted_def

text \<open>The three results of an operation: the channel is in the kernel's list with its events, out of it, or forgotten.\<close>
lemma epoll_result:
  assumes i: "epoll_inv K s" and c: "chans s' = (chans s)(c := (chans s c)\<lparr>channel_events := e, channel_index := j\<rparr>)"
    and m: "epoll_channels s' = (if j = kNew then map_erase (channel_fd (chans s c)) (epoll_channels s)
       else map_set (channel_fd (chans s c)) c (epoll_channels s))"
    and k: "interest K (epoll_kernel s') = (interest K (epoll_kernel s))(channel_fd (chans s c) := if j = kAdded then Some (e, c) else None)"
    and j: "j = kAdded \<and> e \<noteq> 0 \<or> j = kDeleted \<and> e = 0 \<or> j = kNew"
    and r: "epoll_registered s c \<or> epoll_fresh s c"
  shows "epoll_inv K s'" "epoll_registered s' = (epoll_registered s)(c := j \<noteq> kNew)"
    "epoll_watch K s' = (epoll_watch K s)(c := if j = kAdded then Some e else None)"
proof -
  let ?fd = "channel_fd (chans s c)"
  have ok: "map_ok (epoll_channels s)" using i by (simp add: epoll_inv_def)
  have find: "map_find f (epoll_channels s') = (if f = ?fd then (if j = kNew then None else Some c) else map_find f (epoll_channels s))" for f
    using smap.find_erase [OF ok] smap.find_set [OF ok] by (simp add: m)
  have same: "channel_fd (chans s' b) = channel_fd (chans s b)" for b by (simp add: c)
  have entry: "epoll_entry_ok K s f b" if "map_find f (epoll_channels s) = Some b" for f b using i that by (simp add: epoll_inv_def)
  have mine: "b = c" if "map_find ?fd (epoll_channels s) = Some b" for b
    using r that by (auto simp: epoll_registered_def epoll_fresh_def)
  have other: "f \<noteq> ?fd \<Longrightarrow> map_find f (epoll_channels s) = Some b \<Longrightarrow> b \<noteq> c" for f b using entry by (auto simp: epoll_entry_ok_def)
  show "epoll_inv K s'" unfolding epoll_inv_def
  proof (intro conjI allI impI)
    show "epoll_laws K" using i by (simp add: epoll_inv_def)
    show "map_ok (epoll_channels s')" using ok by (simp add: m smap.ok_set smap.ok_erase)
    fix f
    show "interest K (epoll_kernel s') f = None" if "map_find f (epoll_channels s') = None"
      using that i by (auto simp: find k epoll_inv_def epoll_indices split: if_splits)
    fix b
    assume f: "map_find f (epoll_channels s') = Some b"
    show "epoll_entry_ok K s' f b"
    proof (cases "f = ?fd")
      case True
      then show ?thesis using f j by (auto simp: find epoll_entry_ok_def c k epoll_indices split: if_splits)
    next
      case False
      then have "map_find f (epoll_channels s) = Some b" using f by (simp add: find)
      then show ?thesis using entry other False by (auto simp: epoll_entry_ok_def c k)
    qed
  qed
  show "epoll_registered s' = (epoll_registered s)(c := j \<noteq> kNew)"
    using mine by (auto simp: epoll_registered_def find same fun_eq_iff)
  show "epoll_watch K s' = (epoll_watch K s)(c := if j = kAdded then Some e else None)"
  proof
    fix b
    show "epoll_watch K s' b = ((epoll_watch K s)(c := if j = kAdded then Some e else None)) b"
    proof (cases "channel_fd (chans s b) = ?fd \<and> b \<noteq> c")
      case True
      have "interest K (epoll_kernel s) ?fd \<noteq> Some (u, b)" for u
      proof (cases "map_find ?fd (epoll_channels s)")
        case None
        then show ?thesis using i by (simp add: epoll_inv_def)
      next
        case (Some a)
        then show ?thesis using entry [OF Some] mine [OF Some] True by (auto simp: epoll_entry_ok_def)
      qed
      then show ?thesis using True by (auto simp: epoll_watch_def same k split: option.split)
    next
      case False
      then show ?thesis by (auto simp: epoll_watch_def same k split: option.split)
    qed
  qed
qed

lemma epoll_lawsD:
  assumes "epoll_laws K"
  shows "interest K k fd = None \<Longrightarrow> snd (epoll_ctl K EPOLL_CTL_ADD fd e c k)"
    "interest K k fd = None \<Longrightarrow> interest K (fst (epoll_ctl K EPOLL_CTL_ADD fd e c k)) = (interest K k)(fd \<mapsto> (e, c))"
    "interest K k fd \<noteq> None \<Longrightarrow> snd (epoll_ctl K EPOLL_CTL_MOD fd e c k)"
    "interest K k fd \<noteq> None \<Longrightarrow> interest K (fst (epoll_ctl K EPOLL_CTL_MOD fd e c k)) = (interest K k)(fd \<mapsto> (e, c))"
    "interest K k fd \<noteq> None \<Longrightarrow> interest K (fst (epoll_ctl K EPOLL_CTL_DEL fd e c k)) = (interest K k)(fd := None)"
  using assms unfolding epoll_laws_def by blast+

lemma epoll_new:
  assumes i: "epoll_inv K s" and f: "epoll_fresh s c" and e: "changed x (asked_events s c) \<noteq> 0"
  shows "\<exists>s'. epoll_change K x c s = Some s' \<and> epoll_inv K s' \<and> epoll_registered s' = (epoll_registered s)(c := True)
    \<and> asked_events s' = (asked_events s)(c := changed x (asked_events s c)) \<and> epoll_watch K s' = (epoll_watch K s)(c \<mapsto> changed x (asked_events s c))"
proof -
  let ?fd = "channel_fd (chans s c)" and ?e = "changed x (channel_events (chans s c))"
  have none: "interest K (epoll_kernel s) ?fd = None" and l: "epoll_laws K" using i f by (auto simp: epoll_inv_def epoll_fresh_def)
  let ?k = "epoll_ctl K EPOLL_CTL_ADD ?fd ?e c (epoll_kernel s)"
  define s' where "s' = (set_index c kAdded ((set_events x c s)\<lparr>epoll_channels := map_set ?fd c (epoll_channels s)\<rparr>))\<lparr>epoll_kernel := fst ?k\<rparr>"
  have run: "epoll_change K x c s = Some s'" using f epoll_lawsD(1) [OF l none, of ?e c]
    by (simp add: epoll_change_def channel_change_def epoll_updateChannel_def epoll_update_def epoll_fresh_def s'_def Let_def case_prod_beta)
  have "chans s' = (chans s)(c := (chans s c)\<lparr>channel_events := ?e, channel_index := kAdded\<rparr>)" by (simp add: s'_def)
  moreover have "interest K (epoll_kernel s') = (interest K (epoll_kernel s))(?fd := if kAdded = kAdded then Some (?e, c) else None)"
    using epoll_lawsD(2) [OF l none] by (simp add: s'_def)
  moreover have "epoll_channels s' = (if kAdded = kNew then map_erase ?fd (epoll_channels s) else map_set ?fd c (epoll_channels s))"
    by (simp add: s'_def epoll_indices)
  moreover have "kAdded = kAdded \<and> ?e \<noteq> 0 \<or> kAdded = kDeleted \<and> ?e = 0 \<or> kAdded = kNew" using e by (simp add: asked_events_def)
  ultimately have "epoll_inv K s'" "epoll_registered s' = (epoll_registered s)(c := kAdded \<noteq> kNew)"
    "epoll_watch K s' = (epoll_watch K s)(c := if kAdded = kAdded then Some ?e else None)"
    using f by (blast intro: epoll_result [OF i])+
  moreover have "asked_events s' = (asked_events s)(c := ?e)" by (auto simp: asked_events_def s'_def)
  ultimately show ?thesis using run by (auto simp: asked_events_def epoll_indices)
qed

lemma map_set_same: "map_ok m \<Longrightarrow> map_find k m = Some v \<Longrightarrow> map_set k v m = m"
  by (induction k v m rule: map_set.induct) (auto simp: map_find_def map_ok_def dest!: map_of_SomeD split: if_splits)

lemma epoll_update_old:
  assumes i: "epoll_inv K s" and r: "epoll_registered s c" and e: "asked_events s c \<noteq> 0 \<or> changed x (asked_events s c) \<noteq> 0"
  shows "\<exists>s'. epoll_change K x c s = Some s' \<and> epoll_inv K s' \<and> epoll_registered s' = epoll_registered s
    \<and> asked_events s' = (asked_events s)(c := changed x (asked_events s c))
    \<and> epoll_watch K s' = (epoll_watch K s)(c := if changed x (asked_events s c) = 0 then None else Some (changed x (asked_events s c)))"
proof -
  let ?fd = "channel_fd (chans s c)" and ?e = "changed x (channel_events (chans s c))"
  have l: "epoll_laws K" and ok: "map_ok (epoll_channels s)" and f: "map_find ?fd (epoll_channels s) = Some c"
    using i r by (auto simp: epoll_inv_def epoll_registered_def)
  have en: "epoll_entry_ok K s ?fd c" using i f by (simp add: epoll_inv_def)
  let ?j = "if ?e = 0 then kDeleted else kAdded"
  have "\<exists>s'. epoll_change K x c s = Some s' \<and> chans s' = (chans s)(c := (chans s c)\<lparr>channel_events := ?e, channel_index := ?j\<rparr>)
    \<and> epoll_channels s' = epoll_channels s
    \<and> interest K (epoll_kernel s') = (interest K (epoll_kernel s))(?fd := if ?j = kAdded then Some (?e, c) else None)"
  proof -
    consider (resume) "channel_index (chans s c) = kDeleted" "?e \<noteq> 0" "interest K (epoll_kernel s) ?fd = None"
      | (modify) "channel_index (chans s c) = kAdded" "?e \<noteq> 0" "interest K (epoll_kernel s) ?fd \<noteq> None"
      | (delete) "channel_index (chans s c) = kAdded" "?e = 0" "interest K (epoll_kernel s) ?fd \<noteq> None"
      using en e by (auto simp: epoll_entry_ok_def asked_events_def)
    then show ?thesis
    proof cases
      case resume
      then show ?thesis using f epoll_lawsD(1,2) [OF l resume(3), of ?e c]
        by (auto simp: epoll_change_def channel_change_def epoll_updateChannel_def epoll_update_def Let_def epoll_indices case_prod_beta)
    next
      case modify
      then show ?thesis using f epoll_lawsD(3,4) [OF l modify(3), of ?e c] en
        by (auto simp: epoll_change_def channel_change_def epoll_updateChannel_def epoll_update_def Let_def no_events_def kNoneEvent_def epoll_indices case_prod_beta
            epoll_entry_ok_def fun_eq_iff)
    next
      case delete
      then show ?thesis using f epoll_lawsD(5) [OF l delete(3), of ?e c]
        by (auto simp: epoll_change_def channel_change_def epoll_updateChannel_def epoll_update_def Let_def no_events_def kNoneEvent_def epoll_indices case_prod_beta)
    qed
  qed
  then obtain s' where run: "epoll_change K x c s = Some s'" and c: "chans s' = (chans s)(c := (chans s c)\<lparr>channel_events := ?e, channel_index := ?j\<rparr>)"
    and m: "epoll_channels s' = epoll_channels s"
    and k: "interest K (epoll_kernel s') = (interest K (epoll_kernel s))(?fd := if ?j = kAdded then Some (?e, c) else None)" by blast
  have m': "epoll_channels s' = (if ?j = kNew then map_erase ?fd (epoll_channels s) else map_set ?fd c (epoll_channels s))"
    using map_set_same [OF ok f] by (simp add: m epoll_indices)
  have j: "?j = kAdded \<and> ?e \<noteq> 0 \<or> ?j = kDeleted \<and> ?e = 0 \<or> ?j = kNew" by simp
  note res = epoll_result [OF i c m' k j disjI1 [OF r]]
  have "asked_events s' = (asked_events s)(c := ?e)" by (auto simp: asked_events_def c)
  then show ?thesis using run res r by (auto simp: asked_events_def epoll_indices fun_eq_iff)
qed

lemma epoll_remove_old:
  assumes i: "epoll_inv K s" and r: "epoll_registered s c" and z: "asked_events s c = 0"
  shows "\<exists>s'. epoll_remove K c s = Some s' \<and> epoll_inv K s' \<and> epoll_registered s' = (epoll_registered s)(c := False)
    \<and> asked_events s' = asked_events s \<and> epoll_watch K s' = (epoll_watch K s)(c := None)"
proof -
  let ?fd = "channel_fd (chans s c)"
  have f: "map_find ?fd (epoll_channels s) = Some c" using r by (simp add: epoll_registered_def)
  then have en: "epoll_entry_ok K s ?fd c" using i by (simp add: epoll_inv_def)
  define s' where "s' = set_index c kNew (s\<lparr>epoll_channels := map_erase ?fd (epoll_channels s)\<rparr>)"
  have z': "channel_events (chans s c) = 0" using z by (simp add: asked_events_def)
  have run: "epoll_remove K c s = Some s'" using f en z'
    by (simp add: epoll_remove_def channel_remove_def epoll_removeChannel_def no_events_def kNoneEvent_def epoll_entry_ok_def epoll_indices s'_def Let_def)
  have c: "chans s' = (chans s)(c := (chans s c)\<lparr>channel_events := 0, channel_index := kNew\<rparr>)"
    using z' by (simp add: s'_def) (metis poll_channel.surjective poll_channel.update_convs(2))
  have "interest K (epoll_kernel s) ?fd = None" using en z' by (simp add: epoll_entry_ok_def)
  then have k: "interest K (epoll_kernel s') = (interest K (epoll_kernel s))(?fd := if kNew = kAdded then Some (0, c) else None)"
    by (auto simp: s'_def epoll_indices)
  have m: "epoll_channels s' = (if kNew = kNew then map_erase ?fd (epoll_channels s) else map_set ?fd c (epoll_channels s))"
    by (simp add: s'_def)
  note res = epoll_result [OF i c m k disjI2 [OF disjI2 [OF refl]] disjI1 [OF r]]
  have "asked_events s' = asked_events s" by (auto simp: asked_events_def s'_def)
  then show ?thesis using run res by (simp add: epoll_indices)
qed

interpretation epoll: poller "epoll_change K" "epoll_remove K" "epoll_inv K" epoll_fresh epoll_registered asked_events "epoll_watch K" True
  for K :: "'k epoll"
proof (unfold_locales, goal_cases)
  case (1 s c x)
  then show ?case by (rule epoll_new)
next
  case (2 s c x)
  then show ?case using epoll_update_old [OF 2(1,2)] by blast
next
  case (3 s c)
  then show ?case by (rule epoll_remove_old)
qed

section \<open>What is reported\<close>

text \<open>
  What \<open>poll(2)\<close> documents: nothing is reported for a negative descriptor, and the result counts the entries for which something
  is. The sign bit is no event.
\<close>

definition poll_returned :: "pollfd list \<Rightarrow> int \<Rightarrow> u16 list \<Rightarrow> bool" where
  "poll_returned ps n rs \<longleftrightarrow> length rs = length ps \<and> n = int (length (filter (\<lambda>r. r \<noteq> 0) rs))
     \<and> (\<forall>(p, r)\<in>set (zip ps rs). (pfd_fd p < 0 \<longrightarrow> r = 0) \<and> 0 \<le> sint r)"

definition fill_from :: "(nat \<times> u32) list \<Rightarrow> 'a channel_store_scheme \<Rightarrow> 'a channel_store_scheme" where
  "fill_from xs s = fold (\<lambda>(c, r). set_revents c r) xs s"

lemma fill_from_chans:
  "channel_fd (chans (fill_from xs s) c) = channel_fd (chans s c)" "channel_events (chans (fill_from xs s) c) = channel_events (chans s c)"
  "channel_index (chans (fill_from xs s) c) = channel_index (chans s c)"
  "c \<notin> fst ` set xs \<Longrightarrow> chans (fill_from xs s) c = chans s c"
  by (induction xs arbitrary: s) (auto simp: fill_from_def split: prod.splits)

lemma fill_from_poll: "pollfds (fill_from xs s) = pollfds s" "channels (fill_from xs s) = channels s"
  by (induction xs arbitrary: s) (auto simp: fill_from_def split: prod.splits)

lemma fill_from_revents: "distinct (map fst xs) \<Longrightarrow> (c, r) \<in> set xs \<Longrightarrow> channel_revents (chans (fill_from xs s) c) = r"
proof (induction xs arbitrary: s)
  case (Cons x xs)
  have step: "fill_from (x # xs) s = fill_from xs (set_revents (fst x) (snd x) s)" by (cases x) (simp add: fill_from_def)
  show ?case
  proof (cases "x = (c, r)")
    case True
    have "chans (fill_from xs (set_revents c r s)) c = chans (set_revents c r s) c"
      by (rule fill_from_chans(4)) (use Cons.prems(1) True in auto)
    then show ?thesis using step True by simp
  qed (use Cons in \<open>auto simp: step\<close>)
qed simp

lemma poll_fill_ok:
  "length rs = length ps \<Longrightarrow> n = int (length (filter (\<lambda>r. r \<noteq> 0) rs)) \<Longrightarrow>
   \<forall>(p, r)\<in>set (zip ps rs). 0 \<le> sint r \<and> (r \<noteq> 0 \<longrightarrow> (\<exists>c. map_find (pfd_fd p) (channels s) = Some c \<and> channel_fd (chans s c) = pfd_fd p)) \<Longrightarrow>
   xs = map (\<lambda>(p, r). (the (map_find (pfd_fd p) (channels s)), scast r)) (filter (\<lambda>(p, r). r \<noteq> 0) (zip ps rs)) \<Longrightarrow>
   poll_fillActiveChannels (map2 (\<lambda>p r. p\<lparr>pfd_revents := r\<rparr>) ps rs) n s = Some (map fst xs, fill_from xs s)"
proof (induction rs ps arbitrary: n s xs rule: list_induct2)
  case Nil
  then show ?case by (simp add: fill_from_def)
next
  case (Cons r rs p ps)
  show ?case
  proof (cases "r = 0")
    case True
    have "filter (\<lambda>(p, r). r \<noteq> 0) (zip ps rs) = []" if "\<not> 0 < n"
    proof -
      have "\<forall>r\<in>set rs. r = 0" using that Cons.prems(1) True by (simp add: filter_empty_conv)
      then show ?thesis by (auto simp: filter_empty_conv dest!: set_zip_rightD)
    qed
    then show ?thesis using Cons.IH [of n s xs] Cons.prems True by (auto simp: fill_from_def)
  next
    case False
    then obtain c where c: "map_find (pfd_fd p) (channels s) = Some c" "channel_fd (chans s c) = pfd_fd p" "0 \<le> sint r"
      using Cons.prems(2) by auto
    have pos: "0 < sint r" using c(3) False signed_word_eqI [of r 0] by (auto simp: order_le_less)
    obtain ys where xs: "xs = (c, scast r) # ys"
      "ys = map (\<lambda>(p, r). (the (map_find (pfd_fd p) (channels s)), scast r)) (filter (\<lambda>(p, r). r \<noteq> 0) (zip ps rs))"
      using Cons.prems(3) False c(1) by simp
    have "poll_fillActiveChannels (map2 (\<lambda>p r. p\<lparr>pfd_revents := r\<rparr>) ps rs) (n - 1) (set_revents c (scast r) s)
        = Some (map fst ys, fill_from ys (set_revents c (scast r) s))"
      by (rule Cons.IH) (use Cons.prems False xs(2) in auto)
    then show ?thesis using Cons.prems(1) False c(1,2) pos xs(1) by (simp add: fill_from_def)
  qed
qed

lemma set_zip_index: "length rs = length ps \<Longrightarrow> (p, r) \<in> set (zip ps rs) \<longleftrightarrow> (\<exists>i<length ps. p = ps ! i \<and> r = rs ! i)"
  by (auto simp: set_zip)

lemma poll_find_slot:
  assumes i: "poll_inv s" and "j < length (pollfds s)" "0 \<le> pfd_fd (pollfds s ! j)"
  shows "\<exists>c. poll_registered s c \<and> channel_index (chans s c) = int j \<and> channel_fd (chans s c) = pfd_fd (pollfds s ! j)
    \<and> map_find (pfd_fd (pollfds s ! j)) (channels s) = Some c"
proof -
  obtain c where c: "poll_registered s c" "channel_index (chans s c) = int j" using poll_invD(4) [OF i assms(2)] by blast
  then have "slot_ok (chans s c) (pollfds s)" using poll_invD(3) [OF i] by (simp add: poll_registered_def)
  then have "channel_fd (chans s c) = pfd_fd (pollfds s ! j)" using c(2) assms(3) by (auto simp: slot_ok_def Let_def)
  then show ?thesis using c by (auto simp: poll_registered_def)
qed

text \<open>The index \<open>fds\<close> of each channel: the places of the array with something to report.\<close>

definition reported :: "poll_poller \<Rightarrow> u16 list \<Rightarrow> (nat \<times> u32) list" where
  "reported s rs = map (\<lambda>(p, r). (the (map_find (pfd_fd p) (channels s)), scast r)) (filter (\<lambda>(p, r). r \<noteq> 0) (zip (pollfds s) rs))"

lemma poll_returned_pos: "poll_returned ps n rs \<Longrightarrow> j < length ps \<Longrightarrow> rs ! j \<noteq> 0 \<Longrightarrow> 0 \<le> pfd_fd (ps ! j)"
proof (rule ccontr)
  assume p: "poll_returned ps n rs" "j < length ps" "rs ! j \<noteq> 0" "\<not> 0 \<le> pfd_fd (ps ! j)"
  then have "(ps ! j, rs ! j) \<in> set (zip ps rs)" by (auto simp: poll_returned_def set_zip)
  then show False using p unfolding poll_returned_def by fastforce
qed

lemma reported_set:
  assumes i: "poll_inv s" and n: "poll_returned (pollfds s) n rs"
  shows "(c, e) \<in> set (reported s rs) \<longleftrightarrow>
    poll_registered s c \<and> rs ! nat (channel_index (chans s c)) \<noteq> 0 \<and> e = scast (rs ! nat (channel_index (chans s c)))"
proof -
  have len: "length rs = length (pollfds s)" and pos: "\<And>j. j < length (pollfds s) \<Longrightarrow> rs ! j \<noteq> 0 \<Longrightarrow> 0 \<le> pfd_fd (pollfds s ! j)"
    using n poll_returned_pos [OF n] by (auto simp: poll_returned_def)
  show ?thesis
  proof
    assume "(c, e) \<in> set (reported s rs)"
    then obtain j where j: "j < length (pollfds s)" "rs ! j \<noteq> 0" "c = the (map_find (pfd_fd (pollfds s ! j)) (channels s))" "e = scast (rs ! j)"
      by (auto simp: reported_def set_zip_index [OF len])
    from poll_find_slot [OF i j(1) pos [OF j(1,2)]] j(2-4)
    show "poll_registered s c \<and> rs ! nat (channel_index (chans s c)) \<noteq> 0 \<and> e = scast (rs ! nat (channel_index (chans s c)))" by auto
  next
    assume a: "poll_registered s c \<and> rs ! nat (channel_index (chans s c)) \<noteq> 0 \<and> e = scast (rs ! nat (channel_index (chans s c)))"
    let ?j = "nat (channel_index (chans s c))"
    have sc: "slot_ok (chans s c) (pollfds s)" using poll_invD(3) [OF i, of "channel_fd (chans s c)"] a by (simp add: poll_registered_def)
    then have j: "?j < length (pollfds s)" by (auto simp: slot_ok_def)
    have "pfd_fd (pollfds s ! ?j) = channel_fd (chans s c)" using pos [OF j] a sc by (auto simp: slot_ok_def Let_def)
    then have "(pollfds s ! ?j, rs ! ?j) \<in> set (zip (pollfds s) rs)" "the (map_find (pfd_fd (pollfds s ! ?j)) (channels s)) = c"
      using j len a by (auto simp: set_zip_index poll_registered_def)
    then show "(c, e) \<in> set (reported s rs)" using a unfolding reported_def by force
  qed
qed

lemma reported_distinct:
  assumes i: "poll_inv s" and n: "poll_returned (pollfds s) n rs"
  shows "distinct (map fst (reported s rs))"
proof -
  have len: "length rs = length (pollfds s)" and pos: "\<And>j. j < length (pollfds s) \<Longrightarrow> rs ! j \<noteq> 0 \<Longrightarrow> 0 \<le> pfd_fd (pollfds s ! j)"
    using n poll_returned_pos [OF n] by (auto simp: poll_returned_def)
  let ?js = "filter (\<lambda>j. rs ! j \<noteq> 0) [0..<length (pollfds s)]"
  have z: "zip (pollfds s) rs = map (\<lambda>j. (pollfds s ! j, rs ! j)) [0..<length (pollfds s)]"
    by (rule nth_equalityI) (simp_all add: len)
  have "map fst (reported s rs) = map (\<lambda>j. the (map_find (pfd_fd (pollfds s ! j)) (channels s))) ?js"
    by (simp add: reported_def z filter_map o_def)
  moreover have "inj_on (\<lambda>j. the (map_find (pfd_fd (pollfds s ! j)) (channels s))) (set ?js)"
  proof (rule inj_onI)
    fix j k
    assume "j \<in> set ?js" "k \<in> set ?js" and e: "the (map_find (pfd_fd (pollfds s ! j)) (channels s)) = the (map_find (pfd_fd (pollfds s ! k)) (channels s))"
    then have "j < length (pollfds s)" "rs ! j \<noteq> 0" "k < length (pollfds s)" "rs ! k \<noteq> 0" by auto
    with poll_find_slot [OF i _ pos] e show "j = k" by (metis nat_int option.sel)
  qed
  ultimately show ?thesis by (simp add: distinct_map)
qed

section \<open>Properties\<close>

text \<open>PollPoller: after any sequence of updates and removals in which no channel that asked for no events asks again, no assertion has failed, and the
  array tells the kernel to watch exactly the channels of the poller that ask for some event, for these events.\<close>
theorem poll_watches_asked:
  "\<exists>s. run_ops (legal_op poll_fresh poll_registered asked_events False) poll_change poll_remove ops (new_poll_poller fds) = Some s
    \<and> (\<forall>c. poll_watch s c = (if poll_registered s c \<and> asked_events s c \<noteq> 0 then Some (asked_events s c) else None))"
proof -
  have "poll_inv (new_poll_poller fds)" "poll.watched (new_poll_poller fds)"
    by (simp_all add: poll_inv_def new_poll_poller_def new_poll_channel_def poll.watched_def poll_watch_def poll_registered_def)
  from poll.ops_watched [OF this, of ops] show ?thesis unfolding poll.watched_def by blast
qed


text \<open>In PollPoller a channel that has asked for no events and asks again is ignored: the array keeps the negative descriptor.\<close>
theorem poll_resume_ignored:
  assumes "poll_inv s" "poll_registered s c" "asked_events s c = 0" "changed x 0 \<noteq> 0"
  shows "\<exists>s'. poll_change x c s = Some s' \<and> asked_events s' c \<noteq> 0 \<and> poll_registered s' c \<and> poll_watch s' c = None"
proof -
  have "poll_watch s c = None"
    using poll_invD(3) [OF assms(1), of "channel_fd (chans s c)" c] assms(2,3)
    by (auto simp: poll_watch_def poll_registered_def slot_ok_def asked_events_def Let_def)
  with poll_update_old [OF assms(1,2), of x] assms(2-4) show ?thesis by (auto simp: poll_change_def)
qed

text \<open>A channel that was removed from PollPoller keeps its index, so its next update fails an assertion.\<close>
theorem poll_register_again_fails:
  assumes i: "poll_inv s" and r: "poll_registered s c" and z: "asked_events s c = 0"
  shows "\<exists>s'. poll_remove c s = Some s' \<and> poll_change x c s' = None"
proof -
  let ?t = "poll_taken c s" and ?fd = "channel_fd (chans s c)"
  note t = poll_remove_taken [OF i r z]
  have "chans ?t c = chans s c \<and> channels ?t = map_erase ?fd (channels s)"
  proof (cases "nat (channel_index (chans s c)) = length (pollfds s) - 1")
    case True
    then show ?thesis by (simp add: poll_taken_def Let_def)
  next
    case False
    then show ?thesis using t(4) by auto
  qed
  moreover have "0 \<le> channel_index (chans s c)" using poll_invD(3) [OF i r [unfolded poll_registered_def]] by (simp add: slot_ok_def)
  moreover have "map_find ?fd (map_erase ?fd (channels s)) = None" using smap.find_erase [OF poll_invD(1) [OF i]] by simp
  ultimately have "poll_change x c ?t = None"
    by (simp add: poll_change_def channel_change_def poll_updateChannel_def Let_def)
  then show ?thesis using t(1) by (auto simp: poll_remove_def)
qed

text \<open>A channel that was removed from EPollPoller can be registered again.\<close>
theorem epoll_register_again:
  assumes i: "epoll_inv K s" and r: "epoll_registered s c" and z: "asked_events s c = 0"
  shows "\<exists>s'. epoll_remove K c s = Some s' \<and> epoll_fresh s' c"
proof -
  let ?fd = "channel_fd (chans s c)"
  have f: "map_find ?fd (epoll_channels s) = Some c" and ok: "map_ok (epoll_channels s)" using i r by (auto simp: epoll_registered_def epoll_inv_def)
  have "epoll_entry_ok K s ?fd c" using i f by (simp add: epoll_inv_def)
  then have "epoll_remove K c s = Some (set_index c kNew (s\<lparr>epoll_channels := map_erase ?fd (epoll_channels s)\<rparr>))"
    using f z by (simp add: asked_events_def epoll_remove_def channel_remove_def epoll_removeChannel_def no_events_def kNoneEvent_def
        epoll_entry_ok_def epoll_indices Let_def)
  then show ?thesis using smap.find_erase [OF ok] by (simp add: epoll_fresh_def)
qed

text \<open>An update that asks again for no events puts the descriptor back on the kernel's list, with an empty mask.\<close>
theorem epoll_disabled_twice:
  assumes i: "epoll_inv K s" and r: "epoll_registered s c" and z: "asked_events s c = 0" "changed x 0 = 0"
  shows "epoll_watch K s c = None \<and> (\<exists>s'. epoll_change K x c s = Some s' \<and> epoll_watch K s' c = Some 0)"
proof -
  let ?fd = "channel_fd (chans s c)"
  have f: "map_find ?fd (epoll_channels s) = Some c" and l: "epoll_laws K" using i r by (auto simp: epoll_registered_def epoll_inv_def)
  have "epoll_entry_ok K s ?fd c" using i f by (simp add: epoll_inv_def)
  then have d: "channel_index (chans s c) = kDeleted" and n: "interest K (epoll_kernel s) ?fd = None"
    using z(1) by (auto simp: epoll_entry_ok_def asked_events_def)
  have "\<exists>s'. epoll_change K x c s = Some s' \<and> epoll_watch K s' c = Some 0"
    using f d z epoll_lawsD(1,2) [OF l n, of 0 c]
    by (auto simp: epoll_change_def channel_change_def epoll_updateChannel_def epoll_update_def Let_def epoll_indices case_prod_beta
        asked_events_def epoll_watch_def)
  then show ?thesis using n by (simp add: epoll_watch_def)
qed

text \<open>After \<open>poll\<close> the active channels are those for which something is reported, each once and with what is reported for it, and no assertion fails.\<close>
theorem poll_reports:
  assumes i: "poll_inv s" and n: "poll_returned (pollfds s) n rs"
  shows "\<exists>cs s'. poll_poll n rs s = Some (cs, s') \<and> distinct cs
    \<and> set cs = {c. poll_registered s c \<and> rs ! nat (channel_index (chans s c)) \<noteq> 0}
    \<and> (\<forall>c\<in>set cs. channel_revents (chans s' c) = scast (rs ! nat (channel_index (chans s c))))"
proof -
  let ?s = "s\<lparr>pollfds := map2 (\<lambda>p r. p\<lparr>pfd_revents := r\<rparr>) (pollfds s) rs\<rparr>"
  have len: "length rs = length (pollfds s)" and n': "n = int (length (filter (\<lambda>r. r \<noteq> 0) rs))" using n by (auto simp: poll_returned_def)
  have "\<forall>(p, r)\<in>set (zip (pollfds s) rs). 0 \<le> sint r \<and> (r \<noteq> 0 \<longrightarrow> (\<exists>c. map_find (pfd_fd p) (channels ?s) = Some c \<and> channel_fd (chans ?s c) = pfd_fd p))"
  proof (intro ballI, clarify)
    fix p r
    assume m: "(p, r) \<in> set (zip (pollfds s) rs)"
    then obtain j where j: "j < length (pollfds s)" "p = pollfds s ! j" using len by (auto simp: set_zip_index)
    show "0 \<le> sint r \<and> (r \<noteq> 0 \<longrightarrow> (\<exists>c. map_find (pfd_fd p) (channels ?s) = Some c \<and> channel_fd (chans ?s c) = pfd_fd p))"
      using n m poll_find_slot [OF i j(1)] j(2) by (fastforce simp: poll_returned_def not_less[symmetric])
  qed
  from poll_fill_ok [OF len n' this refl]
  have f: "poll_fillActiveChannels (pollfds ?s) n ?s = Some (map fst (reported s rs), fill_from (reported s rs) ?s)" by (simp add: reported_def)
  have "poll_poll n rs s = Some (map fst (reported s rs), fill_from (reported s rs) ?s) \<or> (poll_poll n rs s = Some ([], ?s) \<and> reported s rs = [])"
  proof (cases "0 < n")
    case True
    then show ?thesis using f by (simp add: poll_poll_def Let_def)
  next
    case False
    then have "\<forall>r\<in>set rs. r = 0" using n' by (simp add: filter_empty_conv)
    then have "reported s rs = []" by (auto simp: reported_def filter_empty_conv dest!: set_zip_rightD)
    then show ?thesis using False by (simp add: poll_poll_def Let_def)
  qed
  moreover have "set (map fst (reported s rs)) = {c. poll_registered s c \<and> rs ! nat (channel_index (chans s c)) \<noteq> 0}"
    using reported_set [OF i n] by (force simp: image_iff)
  moreover have "channel_revents (chans (fill_from (reported s rs) ?s) c) = scast (rs ! nat (channel_index (chans s c)))"
    if "poll_registered s c" "rs ! nat (channel_index (chans s c)) \<noteq> 0" for c
    by (rule fill_from_revents [OF reported_distinct [OF i n]]) (use reported_set [OF i n] that in simp)
  ultimately show ?thesis using reported_distinct [OF i n]
    by (intro exI [of _ "map fst (reported s rs)"] exI [of _ "fill_from (reported s rs) ?s"]) (auto simp: fill_from_def)
qed

text \<open>
  What \<open>epoll_wait(2)\<close> documents: it returns distinct channels of the interest list, no more than there is room for.
\<close>

definition epoll_returned :: "'k epoll \<Rightarrow> 'k epoll_poller \<Rightarrow> (u32 \<times> nat) list \<Rightarrow> bool" where
  "epoll_returned K s evs \<longleftrightarrow> distinct (map snd evs) \<and> length evs \<le> events_size s
     \<and> (\<forall>c\<in>snd ` set evs. \<exists>fd u. interest K (epoll_kernel s) fd = Some (u, c))"

lemma epoll_fill_ok:
  "\<forall>c\<in>snd ` set evs. map_find (channel_fd (chans s c)) (epoll_channels s) = Some c \<Longrightarrow>
    epoll_fillActiveChannels evs s = Some (map snd evs, fill_from (map (\<lambda>(e, c). (c, e)) evs) s)"
proof (induction evs arbitrary: s)
  case (Cons x evs)
  obtain e c where x: "x = (e, c)" by force
  have "epoll_fillActiveChannels evs (set_revents c e s) = Some (map snd evs, fill_from (map (\<lambda>(e, c). (c, e)) evs) (set_revents c e s))"
    by (rule Cons.IH) (use Cons.prems x in auto)
  then show ?case using Cons.prems x by (simp add: fill_from_def)
qed (simp add: fill_from_def)

lemma fill_from_epoll: "events_size (fill_from xs s) = events_size s" "epoll_channels (fill_from xs s) = epoll_channels s"
  by (induction xs arbitrary: s) (auto simp: fill_from_def split: prod.splits)

text \<open>After \<open>epoll_wait\<close> has returned, the active channels are those it returned, each with its events; no assertion fails, and the vector is doubled
  when it was full.\<close>
theorem epoll_reports:
  assumes i: "epoll_inv K s" and n: "epoll_returned K s evs" "evs \<noteq> []"
  shows "\<exists>s'. epoll_poll (Some evs) s = Some (map snd evs, s') \<and> (\<forall>c\<in>snd ` set evs. epoll_registered s c)
    \<and> (\<forall>(e, c)\<in>set evs. channel_revents (chans s' c) = e)
    \<and> events_size s' = (if length evs = events_size s then 2 * events_size s else events_size s)"
proof -
  have reg: "map_find (channel_fd (chans s c)) (epoll_channels s) = Some c" if c: "c \<in> snd ` set evs" for c
  proof -
    obtain fd u where u: "interest K (epoll_kernel s) fd = Some (u, c)" using n(1) c by (auto simp: epoll_returned_def)
    then obtain d where d: "map_find fd (epoll_channels s) = Some d" using i by (cases "map_find fd (epoll_channels s)") (auto simp: epoll_inv_def)
    then have "epoll_entry_ok K s fd d" using i by (simp add: epoll_inv_def)
    then have "d = c" "channel_fd (chans s c) = fd" using u by (auto simp: epoll_entry_ok_def)
    then show ?thesis using d by simp
  qed
  let ?xs = "map (\<lambda>(e, c). (c, e)) evs"
  have f: "epoll_fillActiveChannels evs s = Some (map snd evs, fill_from ?xs s)" by (rule epoll_fill_ok) (use reg in blast)
  have swap: "map fst ?xs = map snd evs" by (induction evs) auto
  have dist: "distinct (map fst ?xs)" unfolding swap using n(1) by (simp add: epoll_returned_def)
  have r: "channel_revents (chans (fill_from ?xs s) c) = e" if "(e, c) \<in> set evs" for e c
    by (rule fill_from_revents [OF dist]) (use that in force)
  let ?s' = "if length evs = events_size s then (fill_from ?xs s)\<lparr>events_size := events_size s * 2\<rparr> else fill_from ?xs s"
  have "epoll_poll (Some evs) s = Some (map snd evs, ?s')"
    using n f by (simp add: epoll_poll_def epoll_returned_def fill_from_epoll)
  then show ?thesis using reg r by (intro exI [of _ ?s']) (auto simp: epoll_registered_def fill_from_epoll)
qed

section \<open>Instances\<close>

definition map_epoll :: "(int \<Rightarrow> (u32 \<times> nat) option) epoll" where
  "map_epoll = \<lparr>epoll_ctl = (\<lambda>operation fd e c k. case operation of
       EPOLL_CTL_ADD \<Rightarrow> if k fd = None then (k(fd \<mapsto> (e, c)), True) else (k, False)
     | EPOLL_CTL_MOD \<Rightarrow> if k fd \<noteq> None then (k(fd \<mapsto> (e, c)), True) else (k, False)
     | EPOLL_CTL_DEL \<Rightarrow> if k fd \<noteq> None then (k(fd := None), True) else (k, False)), interest = (\<lambda>k. k)\<rparr>"

lemma map_epoll_laws: "epoll_laws map_epoll"
  by (auto simp: epoll_laws_def map_epoll_def)

lemma interest_map: "interest map_epoll = (\<lambda>k. k)"
  by (simp add: map_epoll_def)


text \<open>Two channels, with descriptors 3 and 4: the first asks for no events, the second for reading.\<close>

definition one_disabled :: poll_poller where
  "one_disabled = \<lparr>chans = (\<lambda>c. if c = 0 then \<lparr>channel_fd = 3, channel_events = 0, channel_revents = 0, channel_index = 0\<rparr>
       else \<lparr>channel_fd = 4, channel_events = 3, channel_revents = 0, channel_index = 1\<rparr>),
     pollfds = [\<lparr>pfd_fd = - 4, pfd_events = 0, pfd_revents = 0\<rparr>, \<lparr>pfd_fd = 4, pfd_events = 3, pfd_revents = 0\<rparr>],
     channels = [(3, 0), (4, 1)]\<rparr>"

lemma one_disabled_inv: "poll_inv one_disabled" "poll_registered one_disabled 0" "asked_events one_disabled 0 = 0" "poll_registered one_disabled 1"
proof -
  have "\<exists>c. poll_registered one_disabled c \<and> channel_index (chans one_disabled c) = int j" if "j < 2" for j
    using that by (intro exI [of _ j]) (auto simp: one_disabled_def poll_registered_def map_find_def less_2_cases_iff)
  then show "poll_inv one_disabled"
    by (auto simp: poll_inv_def one_disabled_def map_ok_def map_find_def slot_ok_def split: if_splits)
qed (simp_all add: one_disabled_def poll_registered_def map_find_def asked_events_def)

theorem poll_resume_ignored_witness:
  "\<exists>s'. poll_change EnableReading 0 one_disabled = Some s' \<and> asked_events s' 0 \<noteq> 0 \<and> poll_watch s' 0 = None"
  using poll_resume_ignored [OF one_disabled_inv(1-3), of EnableReading] by (auto simp: poll_masks)

theorem poll_register_again_fails_witness: "\<exists>s'. poll_remove 0 one_disabled = Some s' \<and> poll_change EnableReading 0 s' = None"
  using poll_register_again_fails [OF one_disabled_inv(1-3)] .

theorem poll_reports_witness: "\<exists>cs s'. poll_poll 1 [0, 1] one_disabled = Some (cs, s') \<and> distinct cs \<and> 1 \<in> set cs"
proof -
  have "poll_returned (pollfds one_disabled) 1 [0, 1]" by (simp add: poll_returned_def one_disabled_def)
  from poll_reports [OF one_disabled_inv(1) this] show ?thesis using one_disabled_inv(4) by (auto simp: one_disabled_def)
qed

definition epoll_disabled :: "u32 \<Rightarrow> int \<Rightarrow> (int \<Rightarrow> (u32 \<times> nat) option) epoll_poller" where
  "epoll_disabled e i = \<lparr>chans = (\<lambda>c. if c = 0 then \<lparr>channel_fd = 3, channel_events = e, channel_revents = 0, channel_index = i\<rparr> else new_poll_channel 4),
     epoll_kernel = (if e = 0 then Map.empty else [3 \<mapsto> (e, 0)]), events_size = 1, epoll_channels = [(3, 0)]\<rparr>"

lemma epoll_disabled_inv:
  "epoll_inv map_epoll (epoll_disabled 0 kDeleted)" "epoll_inv map_epoll (epoll_disabled 3 kAdded)"
  "epoll_registered (epoll_disabled 0 kDeleted) 0" "asked_events (epoll_disabled 0 kDeleted) 0 = 0"
  using map_epoll_laws
  by (auto simp: epoll_inv_def epoll_disabled_def map_ok_def map_find_def epoll_entry_ok_def interest_map epoll_indices
      epoll_registered_def asked_events_def split: if_splits)

theorem epoll_register_again_witness: "\<exists>s'. epoll_remove map_epoll 0 (epoll_disabled 0 kDeleted) = Some s' \<and> epoll_fresh s' 0"
  using epoll_register_again [OF epoll_disabled_inv(1,3,4)] .

theorem epoll_disabled_twice_witness:
  "\<exists>s'. epoll_change map_epoll DisableAll 0 (epoll_disabled 0 kDeleted) = Some s' \<and> epoll_watch map_epoll s' 0 = Some 0"
  using epoll_disabled_twice [OF epoll_disabled_inv(1,3,4), of DisableAll] by (simp add: poll_masks)

theorem epoll_reports_witness: "\<exists>s'. epoll_poll (Some [(1, 0)]) (epoll_disabled 3 kAdded) = Some ([0], s') \<and> events_size s' = 2"
proof -
  have "epoll_returned map_epoll (epoll_disabled 3 kAdded) [(1, 0)]" by (auto simp: epoll_returned_def epoll_disabled_def map_epoll_def)
  from epoll_reports [OF epoll_disabled_inv(2) this] show ?thesis by (auto simp: epoll_disabled_def)
qed

end
