(* ===== verification/Connector.thy ===== *)
theory Connector
  imports Prelude "HOL-Library.Multiset"
begin

text \<open>
  Connecting to a server: \<open>muduo/net/Connector.cc\<close>, which keeps trying with growing delays, and \<open>muduo/net/TcpClient.cc\<close>, which uses it. What the
  kernel answers is an argument of each operation; the functors queued in the loop and the timers that the connector has
  set are part of the state. A failed assertion is \<open>None\<close>.
\<close>

section \<open>State\<close>

datatype States = kDisconnected | kConnecting | kConnected

definition kMaxRetryDelayMs :: nat where "kMaxRetryDelayMs = 30 * 1000"

definition kInitRetryDelayMs :: nat where "kInitRetryDelayMs = 500"

datatype connector_task = StartInLoop | StopInLoop | ResetChannel

text \<open>
  \<open>wanted\<close> and \<open>connState\<close> are \<open>connect_\<close> and \<open>state_\<close>. \<open>channel\<close>: the descriptor of \<open>channel_\<close>, and whether the poller still has it. \<open>timers\<close>: the delays of the timers that are to call
  \<open>startInLoop\<close>. The last four are components of the model: the sockets created, closed, and handed to \<open>newConnectionCallback_\<close>, and the
  delays of all retries since the delay was last reset.
\<close>

record connector =
  wanted :: bool
  connState :: States
  channel :: "(int \<times> bool) option"
  retryDelayMs :: nat
  tasks :: "connector_task list"
  timers :: "nat list"
  opened :: "int list"
  closed :: "int list"
  handed :: "int list"
  delays :: "nat list"

definition new_connector :: connector where
  "new_connector = \<lparr>wanted = False, connState = kDisconnected, channel = None, retryDelayMs = kInitRetryDelayMs, tasks = [], timers = [],
     opened = [], closed = [], handed = [], delays = []\<rparr>"

section \<open>Operations\<close>

definition queue_task :: "connector_task \<Rightarrow> connector \<Rightarrow> connector" where
  "queue_task t s = s\<lparr>tasks := tasks s @ [t]\<rparr>"

definition close_socket :: "int \<Rightarrow> connector \<Rightarrow> connector" where
  "close_socket sockfd s = s\<lparr>closed := closed s @ [sockfd]\<rparr>"

definition retry :: "int \<Rightarrow> connector \<Rightarrow> connector" where
  "retry sockfd s =
     (let s = (close_socket sockfd s)\<lparr>connState := kDisconnected\<rparr> in
      if wanted s then s\<lparr>timers := timers s @ [retryDelayMs s], delays := delays s @ [retryDelayMs s],
        retryDelayMs := min (retryDelayMs s * 2) kMaxRetryDelayMs\<rparr>
      else s)"

definition connecting :: "int \<Rightarrow> connector \<Rightarrow> connector option" where
  "connecting sockfd s = do {
     let s = s\<lparr>connState := kConnecting\<rparr>;
     assert_that (channel s = None);
     Some (s\<lparr>channel := Some (sockfd, True)\<rparr>) }"

datatype connect_errno =
    NoError | EINPROGRESS | EINTR | EISCONN
  | EAGAIN | EADDRINUSE | EADDRNOTAVAIL | ECONNREFUSED | ENETUNREACH
  | EACCES | EPERM | EAFNOSUPPORT | EALREADY | EBADF | EFAULT | ENOTSOCK | OtherError

text \<open>The kernel's part: the new socket, and the result of \<open>connect\<close>.\<close>

definition connect :: "int \<Rightarrow> connect_errno \<Rightarrow> connector \<Rightarrow> connector option" where
  "connect sockfd savedErrno s =
     (let s = s\<lparr>opened := opened s @ [sockfd]\<rparr> in
      if savedErrno \<in> {NoError, EINPROGRESS, EINTR, EISCONN} then connecting sockfd s
      else if savedErrno \<in> {EAGAIN, EADDRINUSE, EADDRNOTAVAIL, ECONNREFUSED, ENETUNREACH} then Some (retry sockfd s)
      else Some (close_socket sockfd s))"

definition startInLoop :: "int \<Rightarrow> connect_errno \<Rightarrow> connector \<Rightarrow> connector option" where
  "startInLoop sockfd savedErrno s = do {
     assert_that (connState s = kDisconnected);
     if wanted s then connect sockfd savedErrno s else Some s }"

text \<open>The channel is taken out of the poller at once, and destroyed by a functor.\<close>

definition removeAndResetChannel :: "connector \<Rightarrow> (int \<times> connector) option" where
  "removeAndResetChannel s =
     (case channel s of
        None \<Rightarrow> None
      | Some (fd, watched) \<Rightarrow> do {
          assert_that watched;
          Some (fd, queue_task ResetChannel (s\<lparr>channel := Some (fd, False)\<rparr>)) })"

definition resetChannel :: "connector \<Rightarrow> connector" where
  "resetChannel s = s\<lparr>channel := None\<rparr>"

definition stopInLoop :: "connector \<Rightarrow> connector option" where
  "stopInLoop s =
     (if connState s = kConnecting then do {
        (sockfd, s) \<leftarrow> removeAndResetChannel (s\<lparr>connState := kDisconnected\<rparr>);
        Some (retry sockfd s) }
      else Some s)"

text \<open>\<open>in_loop\<close>: whether the caller is the thread of the loop, in which \<open>runInLoop\<close> calls the functor at once.\<close>

definition start :: "bool \<Rightarrow> int \<Rightarrow> connect_errno \<Rightarrow> connector \<Rightarrow> connector option" where
  "start in_loop sockfd savedErrno s =
     (let s = s\<lparr>wanted := True\<rparr> in
      if in_loop then startInLoop sockfd savedErrno s else Some (queue_task StartInLoop s))"

definition stop :: "bool \<Rightarrow> connector \<Rightarrow> connector option" where
  "stop in_loop s =
     (let s = s\<lparr>wanted := False\<rparr> in
      if in_loop then stopInLoop s else Some (queue_task StopInLoop s))"

definition restart :: "int \<Rightarrow> connect_errno \<Rightarrow> connector \<Rightarrow> connector option" where
  "restart sockfd savedErrno s =
     startInLoop sockfd savedErrno (s\<lparr>connState := kDisconnected, retryDelayMs := kInitRetryDelayMs, delays := [], wanted := True\<rparr>)"

text \<open>\<open>err\<close>: the pending error of the socket; \<open>self\<close>: whether it is connected to itself.\<close>

definition handleWrite :: "bool \<Rightarrow> bool \<Rightarrow> connector \<Rightarrow> connector option" where
  "handleWrite err self s =
     (if connState s = kConnecting then do {
        (sockfd, s) \<leftarrow> removeAndResetChannel s;
        Some (if err then retry sockfd s
          else if self then retry sockfd s
          else let s = s\<lparr>connState := kConnected\<rparr> in
            if wanted s then s\<lparr>handed := handed s @ [sockfd]\<rparr> else close_socket sockfd s) }
      else do { assert_that (connState s = kDisconnected); Some s })"

definition handleError :: "connector \<Rightarrow> connector option" where
  "handleError s = do {
     assert_that (connState s = kConnecting);
     (sockfd, s) \<leftarrow> removeAndResetChannel s;
     Some (retry sockfd s) }"

section \<open>Steps\<close>

text \<open>
  \<open>Event\<close>: the poller reports the channel, with an error or writable or both; \<open>Channel::handleEvent\<close> calls the error callback first. \<open>RunTask\<close>,
  \<open>TimerFires\<close>: the loop calls the first functor, or a timer.
\<close>

datatype connector_label =
    Start bool int connect_errno | Stop bool | Restart int connect_errno
  | Event bool bool bool bool | RunTask int connect_errno | TimerFires nat int connect_errno

fun conn_step :: "connector_label \<Rightarrow> connector \<Rightarrow> connector option" where
  "conn_step (Start in_loop sockfd e) s = start in_loop sockfd e s"
| "conn_step (Stop in_loop) s = stop in_loop s"
| "conn_step (Restart sockfd e) s = restart sockfd e s"
| "conn_step (Event has_error has_write err self) s = do {
     s \<leftarrow> (if has_error then handleError s else Some s);
     if has_write then handleWrite err self s else Some s }"
| "conn_step (RunTask sockfd e) s =
     (case tasks s of
        [] \<Rightarrow> Some s
      | StartInLoop # ts \<Rightarrow> startInLoop sockfd e (s\<lparr>tasks := ts\<rparr>)
      | StopInLoop # ts \<Rightarrow> stopInLoop (s\<lparr>tasks := ts\<rparr>)
      | ResetChannel # ts \<Rightarrow> Some (resetChannel (s\<lparr>tasks := ts\<rparr>)))"
| "conn_step (TimerFires i sockfd e) s = startInLoop sockfd e (s\<lparr>timers := take i (timers s) @ drop (Suc i) (timers s)\<rparr>)"

text \<open>
  When a step can happen. The delays are long: before a timer fires the loop has called the functors queued when it was set.
  Of the callers, a disciplined one starts the connector when it is idle, and restarts it after a connection has been made; it may stop it at any time.
\<close>

definition idle :: "connector \<Rightarrow> bool" where
  "idle s \<longleftrightarrow> connState s = kDisconnected \<and> channel s = None \<and> timers s = [] \<and> StartInLoop \<notin> set (tasks s)"

fun possible :: "connector_label \<Rightarrow> connector \<Rightarrow> bool" where
  "possible (Event has_error has_write err self) s = (case channel s of Some (fd, watched) \<Rightarrow> watched | None \<Rightarrow> False)"
| "possible (RunTask sockfd e) s = (tasks s \<noteq> [])"
| "possible (TimerFires i sockfd e) s = (i < length (timers s) \<and> ResetChannel \<notin> set (tasks s))"
| "possible l s = True"

fun disciplined :: "connector_label \<Rightarrow> connector \<Rightarrow> bool" where
  "disciplined (Start in_loop sockfd e) s = idle s"
| "disciplined (Restart sockfd e) s = (connState s = kConnected \<and> channel s = None)"
| "disciplined l s = possible l s"

inductive conn_reach :: "connector \<Rightarrow> bool" where
  init: "conn_reach new_connector"
| step: "conn_reach s \<Longrightarrow> disciplined l s \<Longrightarrow> conn_step l s = Some s' \<Longrightarrow> conn_reach s'"

fun conn_steps :: "connector_label list \<Rightarrow> connector \<Rightarrow> connector option" where
  "conn_steps [] s = Some s"
| "conn_steps (l # ls) s = (if possible l s then Option.bind (conn_step l s) (conn_steps ls) else None)"

section \<open>Invariant\<close>

definition starts :: "connector \<Rightarrow> nat" where
  "starts s = length (filter (\<lambda>t. t = StartInLoop) (tasks s)) + length (timers s)"

definition resets :: "connector \<Rightarrow> nat" where
  "resets s = length (filter (\<lambda>t. t = ResetChannel) (tasks s))"

definition backoff :: "nat \<Rightarrow> nat" where
  "backoff n = min (kInitRetryDelayMs * 2 ^ n) kMaxRetryDelayMs"

definition conn_inv :: "connector \<Rightarrow> bool" where
  "conn_inv s \<longleftrightarrow> starts s \<le> 1 \<and> (0 < starts s \<longrightarrow> connState s = kDisconnected)
     \<and> (case channel s of
          None \<Rightarrow> connState s \<noteq> kConnecting \<and> resets s = 0
        | Some (fd, watched) \<Rightarrow> (watched \<longleftrightarrow> connState s = kConnecting) \<and> resets s = (if watched then 0 else 1)
            \<and> (\<not> watched \<longrightarrow> StartInLoop \<notin> set (tasks s)))
     \<and> mset (opened s) = mset (closed s) + mset (handed s)
          + (case channel s of Some (fd, True) \<Rightarrow> {#fd#} | _ \<Rightarrow> {#})
     \<and> delays s = map backoff [0..<length (delays s)] \<and> retryDelayMs s = backoff (length (delays s))"

lemma backoff_step: "min (backoff n * 2) kMaxRetryDelayMs = backoff (Suc n)"
  by (simp add: backoff_def kMaxRetryDelayMs_def kInitRetryDelayMs_def min_def)

lemma backoff_bounds: "kInitRetryDelayMs \<le> backoff n" "backoff n \<le> kMaxRetryDelayMs" "backoff n \<le> backoff (Suc n)"
  by (simp_all add: backoff_def kInitRetryDelayMs_def kMaxRetryDelayMs_def)

lemma conn_inv_new: "conn_inv new_connector"
  by (simp add: conn_inv_def new_connector_def starts_def resets_def backoff_def kInitRetryDelayMs_def kMaxRetryDelayMs_def)

lemma conn_inv_connecting:
  assumes "conn_inv s" "connState s = kConnecting"
  shows "\<exists>fd. channel s = Some (fd, True)" "starts s = 0" "resets s = 0" "StartInLoop \<notin> set (tasks s)"
  using assms by (auto simp: conn_inv_def starts_def filter_empty_conv split: option.splits if_splits)

lemma retry_detached:
  assumes "conn_inv s" "connState s = kConnecting" "channel s = Some (fd, True)"
  shows "conn_inv (retry fd (queue_task ResetChannel (s\<lparr>connState := st, channel := Some (fd, False)\<rparr>)))"
  using assms conn_inv_connecting [OF assms(1,2)] backoff_step [of "length (delays s)"]
  by (simp add: conn_inv_def retry_def close_socket_def queue_task_def starts_def resets_def Let_def)

lemma connected_detached:
  assumes "conn_inv s" "connState s = kConnecting" "channel s = Some (fd, True)"
  shows "conn_inv ((queue_task ResetChannel (s\<lparr>channel := Some (fd, False)\<rparr>))\<lparr>connState := kConnected, handed := handed s @ [fd]\<rparr>)"
    "conn_inv (close_socket fd ((queue_task ResetChannel (s\<lparr>channel := Some (fd, False)\<rparr>))\<lparr>connState := kConnected\<rparr>))"
  using assms conn_inv_connecting [OF assms(1,2)]
  by (simp_all add: conn_inv_def close_socket_def queue_task_def starts_def resets_def Let_def)

lemma startInLoop_inv:
  assumes "conn_inv s" "connState s = kDisconnected" "channel s = None" "starts s = 0"
  shows "\<exists>s'. startInLoop sockfd e s = Some s' \<and> conn_inv s'"
  using assms backoff_step [of "length (delays s)"]
  by (simp add: startInLoop_def connect_def connecting_def retry_def close_socket_def conn_inv_def starts_def resets_def Let_def)

lemma stopInLoop_inv:
  assumes "conn_inv s"
  shows "\<exists>s'. stopInLoop s = Some s' \<and> conn_inv s'"
proof (cases "connState s = kConnecting")
  case True
  then obtain fd where c: "channel s = Some (fd, True)" using conn_inv_connecting(1) [OF assms] by blast
  then show ?thesis using True retry_detached [OF assms True c] by (simp add: stopInLoop_def removeAndResetChannel_def)
qed (use assms in \<open>simp add: stopInLoop_def\<close>)

lemma handleWrite_inv:
  assumes "conn_inv s" "connState s \<noteq> kConnected"
  shows "\<exists>s'. handleWrite err self s = Some s' \<and> conn_inv s'"
proof (cases "connState s = kConnecting")
  case True
  then obtain fd where c: "channel s = Some (fd, True)" using conn_inv_connecting(1) [OF assms(1)] by blast
  have "conn_inv (retry fd (queue_task ResetChannel (s\<lparr>channel := Some (fd, False)\<rparr>)))"
    using retry_detached [OF assms(1) True c, of kConnecting] True by (metis connector.surjective connector.update_convs(2))
  moreover have "handed (queue_task ResetChannel (s\<lparr>channel := Some (fd, False)\<rparr>)) = handed s" by (simp add: queue_task_def)
  ultimately show ?thesis using True c connected_detached [OF assms(1) True c]
    by (simp add: handleWrite_def removeAndResetChannel_def Let_def)
next
  case False
  then have "connState s = kDisconnected" using assms(2) by (cases "connState s") auto
  then show ?thesis using assms(1) by (simp add: handleWrite_def)
qed

lemma handleError_inv:
  assumes "conn_inv s" "connState s = kConnecting"
  shows "\<exists>s'. handleError s = Some s' \<and> conn_inv s' \<and> connState s' = kDisconnected"
proof -
  obtain fd where c: "channel s = Some (fd, True)" using conn_inv_connecting(1) [OF assms] by blast
  have "conn_inv (retry fd (queue_task ResetChannel (s\<lparr>channel := Some (fd, False)\<rparr>)))"
    using retry_detached [OF assms c, of kConnecting] assms(2) by (metis connector.surjective connector.update_convs(2))
  then show ?thesis using assms(2) c by (simp add: handleError_def removeAndResetChannel_def retry_def Let_def)
qed

theorem conn_step_inv:
  assumes i: "conn_inv s" and d: "disciplined l s"
  shows "\<exists>s'. conn_step l s = Some s' \<and> conn_inv s'"
proof (cases l)
  case (Start in_loop sockfd e)
  then have "idle s" using d by simp
  then have "conn_inv (s\<lparr>wanted := True\<rparr>)" "conn_inv (queue_task StartInLoop (s\<lparr>wanted := True\<rparr>))" "starts s = 0"
    and n: "connState s = kDisconnected" "channel s = None"
    using i by (auto simp: conn_inv_def idle_def starts_def resets_def queue_task_def filter_empty_conv)
  then show ?thesis using startInLoop_inv [of "s\<lparr>wanted := True\<rparr>" sockfd e] Start by (simp add: start_def starts_def Let_def)
next
  case (Stop in_loop)
  have "conn_inv (s\<lparr>wanted := False\<rparr>)" "conn_inv (queue_task StopInLoop (s\<lparr>wanted := False\<rparr>))"
    using i by (auto simp: conn_inv_def starts_def resets_def queue_task_def split: option.splits)
  then show ?thesis using stopInLoop_inv Stop by (simp add: stop_def Let_def)
next
  case (Restart sockfd e)
  then have n: "connState s = kConnected" "channel s = None" using d by simp_all
  let ?s = "s\<lparr>connState := kDisconnected, retryDelayMs := kInitRetryDelayMs, delays := [], wanted := True\<rparr>"
  have "conn_inv ?s" "starts ?s = 0" using i n
    by (auto simp: conn_inv_def starts_def resets_def backoff_def kInitRetryDelayMs_def kMaxRetryDelayMs_def)
  then show ?thesis using startInLoop_inv [of ?s sockfd e] n Restart by (simp add: restart_def)
next
  case (Event has_error has_write err self)
  then have k: "connState s = kConnecting" using d i by (auto simp: conn_inv_def split: option.splits)
  show ?thesis
  proof (cases has_error)
    case True
    from handleError_inv [OF i k] obtain t where t: "handleError s = Some t" "conn_inv t" "connState t = kDisconnected" by blast
    then show ?thesis using handleWrite_inv [of t err self] Event True by auto
  next
    case False
    then show ?thesis using handleWrite_inv [OF i, of err self] i k Event by auto
  qed
next
  case (RunTask sockfd e)
  then obtain t ts where t: "tasks s = t # ts" using d by (cases "tasks s") auto
  show ?thesis
  proof (cases t)
    case StartInLoop
    then have "conn_inv (s\<lparr>tasks := ts\<rparr>)" "connState s = kDisconnected" "channel s = None" "starts (s\<lparr>tasks := ts\<rparr>) = 0"
      using i t by (auto simp: conn_inv_def starts_def resets_def split: option.splits if_splits)
    then show ?thesis using startInLoop_inv [of "s\<lparr>tasks := ts\<rparr>" sockfd e] RunTask t StartInLoop by simp
  next
    case StopInLoop
    then have "conn_inv (s\<lparr>tasks := ts\<rparr>)"
      using i t by (auto simp: conn_inv_def starts_def resets_def split: option.splits if_splits)
    then show ?thesis using stopInLoop_inv RunTask t StopInLoop by simp
  next
    case ResetChannel
    then have "conn_inv (resetChannel (s\<lparr>tasks := ts\<rparr>))"
      using i t by (auto simp: conn_inv_def starts_def resets_def resetChannel_def split: option.splits if_splits)
    then show ?thesis using RunTask t ResetChannel by simp
  qed
next
  case (TimerFires j sockfd e)
  then have j: "j < length (timers s)" "ResetChannel \<notin> set (tasks s)" using d by simp_all
  let ?s = "s\<lparr>timers := take j (timers s) @ drop (Suc j) (timers s)\<rparr>"
  have "length (timers s) \<le> 1" using i by (simp add: conn_inv_def starts_def)
  then have l: "length (take j (timers s) @ drop (Suc j) (timers s)) = 0" using j(1) by simp
  have "length (filter (\<lambda>t. t = StartInLoop) (tasks s)) = 0" using i j(1) unfolding conn_inv_def starts_def by linarith
  moreover have "resets s = 0" using j(2) by (auto simp: resets_def filter_empty_conv)
  ultimately have "conn_inv ?s" "connState s = kDisconnected" "starts ?s = 0" "channel s = None"
    using i j(1) l by (auto simp: conn_inv_def starts_def resets_def split: option.splits if_splits)
  then show ?thesis using startInLoop_inv [of ?s sockfd e] TimerFires by simp
qed

lemma conn_reach_inv: "conn_reach s \<Longrightarrow> conn_inv s"
proof (induction rule: conn_reach.induct)
  case (step s l s')
  then show ?case using conn_step_inv [of s l] by auto
qed (rule conn_inv_new)

section \<open>TcpClient\<close>

text \<open>
  A client owns a connector and at most one connection, known by its number. \<open>destroyed\<close> are the calls of \<open>connectDestroyed\<close> that it has queued, and
  \<open>shutdowns\<close> the connections it has shut down.
\<close>

record tcp_client =
  connector_ptr :: connector
  retry_enabled :: bool
  client_wanted :: bool
  nextConnId :: nat
  connection :: "nat option"
  destroyed :: "nat list"
  shutdowns :: "nat list"

definition new_tcp_client :: tcp_client where
  "new_tcp_client = \<lparr>connector_ptr = new_connector, retry_enabled = False, client_wanted = True, nextConnId = 1, connection = None,
     destroyed = [], shutdowns = []\<rparr>"

definition enableRetry :: "tcp_client \<Rightarrow> tcp_client" where
  "enableRetry t = t\<lparr>retry_enabled := True\<rparr>"

definition client_connect :: "bool \<Rightarrow> int \<Rightarrow> connect_errno \<Rightarrow> tcp_client \<Rightarrow> tcp_client option" where
  "client_connect in_loop sockfd e t = do {
     c \<leftarrow> start in_loop sockfd e (connector_ptr t);
     Some (t\<lparr>client_wanted := True, connector_ptr := c\<rparr>) }"

definition client_disconnect :: "tcp_client \<Rightarrow> tcp_client" where
  "client_disconnect t = (let t = t\<lparr>client_wanted := False\<rparr> in
     case connection t of None \<Rightarrow> t | Some n \<Rightarrow> t\<lparr>shutdowns := shutdowns t @ [n]\<rparr>)"

definition client_stop :: "bool \<Rightarrow> tcp_client \<Rightarrow> tcp_client option" where
  "client_stop in_loop t = do {
     c \<leftarrow> stop in_loop (connector_ptr t);
     Some (t\<lparr>client_wanted := False, connector_ptr := c\<rparr>) }"

definition client_newConnection :: "tcp_client \<Rightarrow> tcp_client" where
  "client_newConnection t = t\<lparr>nextConnId := nextConnId t + 1, connection := Some (nextConnId t)\<rparr>"

definition client_removeConnection :: "nat \<Rightarrow> int \<Rightarrow> connect_errno \<Rightarrow> tcp_client \<Rightarrow> tcp_client option" where
  "client_removeConnection conn sockfd e t = do {
     assert_that (connection t = Some conn);
     let t = t\<lparr>connection := None, destroyed := destroyed t @ [conn]\<rparr>;
     if retry_enabled t \<and> client_wanted t then do {
       c \<leftarrow> restart sockfd e (connector_ptr t);
       Some (t\<lparr>connector_ptr := c\<rparr>) }
     else Some t }"

text \<open>The socket of the connector is writable: a socket that it hands out becomes the connection.\<close>

definition client_writable :: "bool \<Rightarrow> bool \<Rightarrow> tcp_client \<Rightarrow> tcp_client option" where
  "client_writable err self t = do {
     c \<leftarrow> handleWrite err self (connector_ptr t);
     let made = length (handed (connector_ptr t)) < length (handed c);
     let t = t\<lparr>connector_ptr := c\<rparr>;
     Some (if made then client_newConnection t else t) }"

text \<open>
  The destructors. A client with a connection gives it another close callback, and its connector dies with it; without one the connector is stopped, and a
  timer keeps it for a second. The results are the connector left over and the connection given the callback \<open>detail::removeConnection\<close>.
\<close>

definition destroy_connector :: "connector \<Rightarrow> unit option" where
  "destroy_connector s = assert_that (channel s = None)"

definition destroy_client :: "bool \<Rightarrow> tcp_client \<Rightarrow> (connector option \<times> nat option) option" where
  "destroy_client in_loop t =
     (case connection t of
        Some n \<Rightarrow> do { destroy_connector (connector_ptr t); Some (None, Some n) }
      | None \<Rightarrow> do { c \<leftarrow> stop in_loop (connector_ptr t); Some (Some c, None) })"

section \<open>Properties\<close>


text \<open>Every socket that the connector creates is closed once, or handed out once, or is the one being connected.\<close>
theorem sockets_accounted:
  assumes "conn_reach s"
  shows "mset (opened s) = mset (closed s) + mset (handed s)
    + (if connState s = kConnecting then (case channel s of Some (fd, _) \<Rightarrow> {#fd#} | None \<Rightarrow> {#}) else {#})"
  using conn_reach_inv [OF assms] by (auto simp: conn_inv_def split: option.splits bool.splits)

text \<open>The delays between attempts are 0.5, 1, 2, ... seconds, doubled up to 30 seconds and no more, from the start or the last restart; at most one attempt is
  pending.\<close>
theorem retries_back_off:
  assumes "conn_reach s"
  shows "delays s = map (\<lambda>n. min (500 * 2 ^ n) 30000) [0..<length (delays s)] \<and> length (timers s) \<le> 1
    \<and> 500 \<le> retryDelayMs s \<and> retryDelayMs s \<le> 30000"
proof -
  have "backoff = (\<lambda>n. min (500 * 2 ^ n) 30000)" by (simp add: fun_eq_iff backoff_def kInitRetryDelayMs_def kMaxRetryDelayMs_def)
  then show ?thesis using conn_reach_inv [OF assms] backoff_bounds [of "length (delays s)"]
    by (simp add: conn_inv_def starts_def kInitRetryDelayMs_def kMaxRetryDelayMs_def)
qed

text \<open>A timer that was set before \<open>stop\<close> is not cancelled: when the connector is started again and the timer fires during the
  attempt, the assertion on the state in \<open>startInLoop\<close> fails.\<close>
theorem stale_timer_aborts:
  "\<exists>s. conn_steps [Start True a ECONNREFUSED, Stop True, Start True b EINPROGRESS] new_connector = Some s
    \<and> possible (TimerFires 0 c e) s \<and> conn_step (TimerFires 0 c e) s = None"
  by (simp add: new_connector_def start_def startInLoop_def connect_def connecting_def retry_def close_socket_def stop_def stopInLoop_def Let_def)

text \<open>When a connector is stopped during an attempt and started at once in the thread of the loop, the old channel is still there and
  the assertion in \<open>connecting\<close> fails.\<close>
theorem stop_start_aborts:
  "\<exists>s. conn_steps [Start True a EINPROGRESS, Stop True] new_connector = Some s \<and> conn_step (Start True b EINPROGRESS) s = None"
proof -
  define s where "s = \<lparr>wanted = False, connState = kDisconnected, channel = Some (a, False), retryDelayMs = kInitRetryDelayMs,
    tasks = [ResetChannel], timers = [], opened = [a], closed = [a], handed = [], delays = []\<rparr>"
  have "conn_steps [Start True a EINPROGRESS, Stop True] new_connector = Some s"
    by (simp add: s_def new_connector_def start_def startInLoop_def connect_def connecting_def retry_def close_socket_def stop_def
        stopInLoop_def removeAndResetChannel_def queue_task_def Let_def)
  moreover have "conn_step (Start True b EINPROGRESS) s = None"
    by (simp add: s_def start_def startInLoop_def connect_def connecting_def Let_def)
  ultimately show ?thesis by blast
qed

text \<open>A client whose connection was made and lost cannot connect again by \<open>connect\<close>: the connector is still in the state \<open>kConnected\<close>
  and its assertion fails.\<close>
theorem connect_again_aborts:
  assumes "client_writable False False t = Some t1" "connState (connector_ptr t) = kConnecting" "wanted (connector_ptr t)"
    "\<not> retry_enabled t" "client_removeConnection n sockfd e t1 = Some t2"
  shows "connection t2 = None \<and> client_connect True sockfd' e' t2 = None"
  using assms
  by (auto simp: client_writable_def handleWrite_def client_newConnection_def client_removeConnection_def client_connect_def
      start_def startInLoop_def removeAndResetChannel_def queue_task_def Let_def split: option.splits if_splits Option.bind_splits)

text \<open>With retry enabled, a client that loses its connection and has not been told to disconnect tries again at once, with the first delay.\<close>
theorem lost_connection_retried:
  assumes "conn_reach (connector_ptr t)" "connState (connector_ptr t) = kConnected" "channel (connector_ptr t) = None"
    "retry_enabled t" "client_wanted t" "connection t = Some n"
  shows "\<exists>t'. client_removeConnection n sockfd EINPROGRESS t = Some t' \<and> connection t' = None \<and> destroyed t' = destroyed t @ [n]
    \<and> connState (connector_ptr t') = kConnecting \<and> channel (connector_ptr t') = Some (sockfd, True) \<and> retryDelayMs (connector_ptr t') = 500"
  using assms conn_reach_inv [OF assms(1)]
  by (simp add: client_removeConnection_def restart_def startInLoop_def connect_def connecting_def kInitRetryDelayMs_def Let_def)

text \<open>A client that is destroyed when its connection has just been made, before the loop has called the functor that drops the connector's
  channel, aborts in the connector's destructor; after it the destruction succeeds.\<close>
theorem early_destroy_aborts:
  assumes "conn_reach (connector_ptr t)" "disciplined (Event False True False False) (connector_ptr t)" "wanted (connector_ptr t)"
  shows "\<exists>t1. client_writable False False t = Some t1 \<and> connection t1 = Some (nextConnId t) \<and> destroy_client in_loop t1 = None
    \<and> destroy_client in_loop (t1\<lparr>connector_ptr := resetChannel (connector_ptr t1)\<rparr>) = Some (None, Some (nextConnId t))"
proof -
  have i: "conn_inv (connector_ptr t)" using assms(1) by (rule conn_reach_inv)
  obtain fd where c: "channel (connector_ptr t) = Some (fd, True)" "connState (connector_ptr t) = kConnecting"
    using i assms(2) by (auto simp: conn_inv_def split: option.splits)
  then show ?thesis using assms(3)
    by (simp add: client_writable_def handleWrite_def removeAndResetChannel_def queue_task_def client_newConnection_def destroy_client_def
        destroy_connector_def resetChannel_def Let_def)
qed

section \<open>Instances\<close>

definition refused_once :: connector where
  "refused_once = \<lparr>wanted = True, connState = kDisconnected, channel = None, retryDelayMs = 1000, tasks = [], timers = [500],
     opened = [3], closed = [3], handed = [], delays = [500]\<rparr>"

lemma refused_once_reach: "conn_reach refused_once"
proof (rule conn_reach.step [OF conn_reach.init])
  show "disciplined (Start True 3 ECONNREFUSED) new_connector" by (simp add: idle_def new_connector_def)
  show "conn_step (Start True 3 ECONNREFUSED) new_connector = Some refused_once"
    by (simp add: new_connector_def refused_once_def start_def startInLoop_def connect_def retry_def close_socket_def
        kInitRetryDelayMs_def kMaxRetryDelayMs_def Let_def)
qed

definition made_once :: connector where
  "made_once = \<lparr>wanted = True, connState = kConnected, channel = None, retryDelayMs = 1000, tasks = [], timers = [],
     opened = [3, 4], closed = [3], handed = [4], delays = [500]\<rparr>"

lemma made_once_reach: "conn_reach made_once"
proof -
  let ?c = "refused_once\<lparr>connState := kConnecting, channel := Some (4, True), timers := [], opened := [3, 4]\<rparr>"
  let ?d = "made_once\<lparr>channel := Some (4, False), tasks := [ResetChannel]\<rparr>"
  have c: "conn_reach ?c"
    by (rule conn_reach.step [OF refused_once_reach, of "TimerFires 0 4 EINPROGRESS"])
      (simp_all add: refused_once_def startInLoop_def connect_def connecting_def Let_def)
  have d: "conn_reach ?d"
    by (rule conn_reach.step [OF c, of "Event False True False False"])
      (simp_all add: refused_once_def made_once_def handleWrite_def removeAndResetChannel_def queue_task_def Let_def)
  show ?thesis
    by (rule conn_reach.step [OF d, of "RunTask 5 EINPROGRESS"]) (simp_all add: made_once_def resetChannel_def)
qed


theorem sockets_accounted_witness: "mset (opened made_once) = mset (closed made_once) + mset (handed made_once)"
  using sockets_accounted [OF made_once_reach] by (simp add: made_once_def)

theorem retries_back_off_witness: "delays refused_once = [500]"
  using retries_back_off [OF refused_once_reach] by (simp add: refused_once_def)

text \<open>A client whose connector is connecting, and one whose connection has been made.\<close>

definition client_of :: "connector \<Rightarrow> bool \<Rightarrow> nat option \<Rightarrow> tcp_client" where
  "client_of c r conn = new_tcp_client\<lparr>connector_ptr := c, retry_enabled := r, connection := conn\<rparr>"

theorem connect_again_aborts_witness:
  "\<exists>t t1 t2. client_writable False False t = Some t1 \<and> client_removeConnection 1 5 NoError t1 = Some t2 \<and> client_connect True 6 NoError t2 = None"
proof -
  let ?t = "client_of (refused_once\<lparr>connState := kConnecting, channel := Some (4, True), timers := [], opened := [3, 4]\<rparr>) False None"
  obtain t1 t2 where s: "client_writable False False ?t = Some t1" "client_removeConnection 1 5 NoError t1 = Some t2"
    by (simp add: client_of_def new_tcp_client_def refused_once_def client_writable_def handleWrite_def removeAndResetChannel_def queue_task_def
        client_newConnection_def client_removeConnection_def Let_def)
  have "connState (connector_ptr ?t) = kConnecting" "wanted (connector_ptr ?t)" "\<not> retry_enabled ?t"
    by (simp_all add: client_of_def refused_once_def)
  from connect_again_aborts [OF s(1) this s(2), of 6 NoError] s show ?thesis by blast
qed

theorem lost_connection_retried_witness:
  "\<exists>t'. client_removeConnection 1 5 EINPROGRESS (client_of made_once True (Some 1)) = Some t' \<and> connState (connector_ptr t') = kConnecting"
proof -
  let ?t = "client_of made_once True (Some 1)"
  have p: "connector_ptr ?t = made_once" "retry_enabled ?t" "client_wanted ?t" "connection ?t = Some 1"
    by (simp_all add: client_of_def new_tcp_client_def)
  have r: "conn_reach (connector_ptr ?t)" unfolding p(1) by (rule made_once_reach)
  have c: "connState (connector_ptr ?t) = kConnected" "channel (connector_ptr ?t) = None"
    unfolding p(1) by (simp_all add: made_once_def)
  from lost_connection_retried [OF r c p(2-4), of 5] show ?thesis by blast
qed

theorem early_destroy_aborts_witness:
  "\<exists>t1. client_writable False False (client_of (made_once\<lparr>connState := kConnecting, channel := Some (4, True), handed := []\<rparr>) True None) = Some t1
    \<and> destroy_client True t1 = None"
proof -
  let ?c = "refused_once\<lparr>connState := kConnecting, channel := Some (4, True), timers := [], opened := [3, 4]\<rparr>"
  have e: "made_once\<lparr>connState := kConnecting, channel := Some (4, True), handed := []\<rparr> = ?c" by (simp add: made_once_def refused_once_def)
  have r: "connector_ptr (client_of ?c True None) = ?c" by (simp add: client_of_def)
  have "conn_reach ?c"
    by (rule conn_reach.step [OF refused_once_reach, of "TimerFires 0 4 EINPROGRESS"])
      (simp_all add: refused_once_def startInLoop_def connect_def connecting_def Let_def)
  then have "conn_reach (connector_ptr (client_of ?c True None))" unfolding r .
  moreover have "disciplined (Event False True False False) (connector_ptr (client_of ?c True None))" "wanted (connector_ptr (client_of ?c True None))"
    unfolding r by (simp_all add: refused_once_def)
  ultimately show ?thesis unfolding e using early_destroy_aborts [of "client_of ?c True None" True] by blast
qed

end
