(* ===== verification/Http.thy ===== *)
theory Http
  imports Buffer StdMap Decimal "HOL-Library.List_Lexorder"
begin

text \<open>
  The HTTP server of \<open>muduo/net/http\<close>: requests are parsed line by line out of the input buffer of a connection (\<open>HttpServer.cc\<close>, \<open>HttpContext.h\<close>,
  \<open>HttpRequest.h\<close>), a callback of the user fills in the response, which is printed into a buffer (\<open>HttpResponse.cc\<close>). What the server does to the
  connection is a list of actions.
\<close>

section \<open>Requests\<close>

datatype Method = kInvalid | kGet | kPost | kHead | kPut | kDelete

datatype Version = kUnknown | kHttp10 | kHttp11

record http_request =
  req_method :: Method
  req_version :: Version
  req_path :: "byte list"
  receiveTime :: int
  req_headers :: "(byte list, byte list) std_map"

definition new_request :: http_request where
  "new_request = \<lparr>req_method = kInvalid, req_version = kUnknown, req_path = [], receiveTime = 0, req_headers = []\<rparr>"

definition method_of :: "byte list \<Rightarrow> Method" where
  "method_of m =
     (if m = ascii ''GET'' then kGet
      else if m = ascii ''POST'' then kPost
      else if m = ascii ''HEAD'' then kHead
      else if m = ascii ''PUT'' then kPut
      else if m = ascii ''DELETE'' then kDelete
      else kInvalid)"

definition setMethod :: "byte list \<Rightarrow> http_request \<Rightarrow> (bool \<times> http_request) option" where
  "setMethod m r = do {
     assert_that (req_method r = kInvalid);
     let r = r\<lparr>req_method := method_of m\<rparr>;
     Some (req_method r \<noteq> kInvalid, r) }"

definition methodString :: "http_request \<Rightarrow> byte list" where
  "methodString r =
     (case req_method r of
        kGet \<Rightarrow> ascii ''GET''
      | kPost \<Rightarrow> ascii ''POST''
      | kHead \<Rightarrow> ascii ''HEAD''
      | kPut \<Rightarrow> ascii ''PUT''
      | kDelete \<Rightarrow> ascii ''DELETE''
      | kInvalid \<Rightarrow> ascii ''UNKNOWN'')"

definition isspace :: "byte \<Rightarrow> bool" where
  "isspace c \<longleftrightarrow> c = 32 \<or> 9 \<le> c \<and> c \<le> 13"

definition trim_right :: "byte list \<Rightarrow> byte list" where
  "trim_right s = rev (dropWhile isspace (rev s))"

text \<open>\<open>field\<close> is what precedes the colon, \<open>rest\<close> what follows it.\<close>

definition req_addHeader :: "byte list \<Rightarrow> byte list \<Rightarrow> http_request \<Rightarrow> http_request" where
  "req_addHeader field rest r = r\<lparr>req_headers := map_set field (trim_right (dropWhile isspace rest)) (req_headers r)\<rparr>"

definition getHeader :: "byte list \<Rightarrow> http_request \<Rightarrow> byte list" where
  "getHeader field r = (case map_find field (req_headers r) of None \<Rightarrow> [] | Some v \<Rightarrow> v)"

text \<open>The version is not swapped.\<close>

definition req_swap :: "http_request \<Rightarrow> http_request \<Rightarrow> http_request \<times> http_request" where
  "req_swap this that =
     (this\<lparr>req_method := req_method that, req_path := req_path that, receiveTime := receiveTime that, req_headers := req_headers that\<rparr>,
      that\<lparr>req_method := req_method this, req_path := req_path this, receiveTime := receiveTime this, req_headers := req_headers this\<rparr>)"

section \<open>Parsing\<close>

datatype HttpRequestParseState = kExpectRequestLine | kExpectHeaders | kExpectBody | kGotAll

record http_context =
  parse_state :: HttpRequestParseState
  request :: http_request

definition new_context :: http_context where
  "new_context = \<lparr>parse_state = kExpectRequestLine, request = new_request\<rparr>"

definition gotAll :: "http_context \<Rightarrow> bool" where
  "gotAll c \<longleftrightarrow> parse_state c = kGotAll"

definition receiveRequestLine :: "http_context \<Rightarrow> http_context" where
  "receiveRequestLine c = c\<lparr>parse_state := kExpectHeaders\<rparr>"

definition receiveHeaders :: "http_context \<Rightarrow> http_context" where
  "receiveHeaders c = c\<lparr>parse_state := kGotAll\<rparr>"

definition reset :: "http_context \<Rightarrow> http_context" where
  "reset c = c\<lparr>parse_state := kExpectRequestLine, request := fst (req_swap (request c) new_request)\<rparr>"

text \<open>\<open>line\<close> are the bytes from \<open>begin\<close> to \<open>end\<close>; \<open>32\<close> is the space.\<close>

definition processRequestLine :: "byte list \<Rightarrow> http_request \<Rightarrow> (bool \<times> http_request) option" where
  "processRequestLine line r =
     (let m = takeWhile (\<lambda>x. x \<noteq> 32) line
      in if length m \<noteq> length line then do {
           (valid, r) \<leftarrow> setMethod m r;
           if valid then
             let rest = drop (length m + 1) line;
                 p = takeWhile (\<lambda>x. x \<noteq> 32) rest
             in if length p \<noteq> length rest then
                  let r = r\<lparr>req_path := p\<rparr>;
                      v = drop (length p + 1) rest
                  in if length v = 8 \<and> butlast v = ascii ''HTTP/1.'' then
                       if last v = 49 then Some (True, r\<lparr>req_version := kHttp11\<rparr>)
                       else if last v = 48 then Some (True, r\<lparr>req_version := kHttp10\<rparr>)
                       else Some (False, r)
                     else Some (False, r)
                else Some (False, r)
           else Some (False, r) }
         else Some (False, r))"

lemma retrieveUntil_less:
  assumes "findCRLF b = Some crlf" "retrieveUntil (crlf + 2) b = Some b'"
  shows "readableBytes b' < readableBytes b"
  using assms
  by (auto simp: findCRLF_def retrieveUntil_def retrieve_def retrieveAll_def readableBytes_def peek_def beginWrite_def Let_def split: if_splits)

text \<open>
  The loop reads one line in each turn. In the states \<open>kExpectBody\<close> and \<open>kGotAll\<close>, which the server never leaves a context in, it would not end: \<open>None\<close>.
\<close>

function parseRequest :: "int \<Rightarrow> buffer \<Rightarrow> http_context \<Rightarrow> (bool \<times> buffer \<times> http_context) option" where
  "parseRequest now b c =
     (if parse_state c = kExpectRequestLine then
        (case findCRLF b of
           None \<Rightarrow> Some (True, b, c)
         | Some crlf \<Rightarrow>
             (case processRequestLine (bytes_at b (peek b) (crlf - peek b)) (request c) of
                None \<Rightarrow> None
              | Some (valid, r) \<Rightarrow>
                  if valid then
                    (case retrieveUntil (crlf + 2) b of
                       None \<Rightarrow> None
                     | Some b' \<Rightarrow> parseRequest now b' (receiveRequestLine (c\<lparr>request := r\<lparr>receiveTime := now\<rparr>\<rparr>)))
                  else Some (False, b, c\<lparr>request := r\<rparr>)))
      else if parse_state c = kExpectHeaders then
        (case findCRLF b of
           None \<Rightarrow> Some (True, b, c)
         | Some crlf \<Rightarrow>
             let line = bytes_at b (peek b) (crlf - peek b);
                 field = takeWhile (\<lambda>x. x \<noteq> 58) line
             in if length field \<noteq> length line then
                  (case retrieveUntil (crlf + 2) b of
                     None \<Rightarrow> None
                   | Some b' \<Rightarrow> parseRequest now b' (c\<lparr>request := req_addHeader field (drop (length field + 1) line) (request c)\<rparr>))
                else map_option (\<lambda>b'. (True, b', receiveHeaders c)) (retrieveUntil (crlf + 2) b))
      else None)"
  by pat_completeness auto

termination
  by (relation "measure (\<lambda>(now, b, c). readableBytes b)") (auto dest: retrieveUntil_less)

declare parseRequest.simps [simp del]

section \<open>Responses\<close>

record http_response =
  resp_headers :: "(byte list, byte list) std_map"
  statusCode :: nat
  statusMessage :: "byte list"
  closeConnection :: bool
  resp_body :: "byte list"

definition new_response :: "bool \<Rightarrow> http_response" where
  "new_response close = \<lparr>resp_headers = [], statusCode = 0, statusMessage = [], closeConnection = close, resp_body = []\<rparr>"

definition k200Ok :: nat where "k200Ok = 200"

definition k404NotFound :: nat where "k404NotFound = 404"

definition resp_addHeader :: "byte list \<Rightarrow> byte list \<Rightarrow> http_response \<Rightarrow> http_response" where
  "resp_addHeader key val r = r\<lparr>resp_headers := map_set key val (resp_headers r)\<rparr>"

definition setContentType :: "byte list \<Rightarrow> http_response \<Rightarrow> http_response" where
  "setContentType t r = resp_addHeader (ascii ''Content-Type'') t r"

text \<open>The texts that are printed into \<open>buf\<close>, of 32 bytes.\<close>

definition print32 :: "byte list \<Rightarrow> byte list" where
  "print32 s = take (32 - 1) s"

fun append_all :: "byte list list \<Rightarrow> buffer \<Rightarrow> buffer option" where
  "append_all [] b = Some b"
| "append_all (s # ss) b = Option.bind (append_data s b) (append_all ss)"

definition appendToBuffer :: "http_response \<Rightarrow> buffer \<Rightarrow> buffer option" where
  "appendToBuffer r b = do {
     b \<leftarrow> append_all [print32 (ascii ''HTTP/1.1 '' @ digits (statusCode r) @ ascii '' ''), statusMessage r, kCRLF] b;
     b \<leftarrow> (if closeConnection r then append_all [ascii ''Connection: close'' @ kCRLF] b
           else append_all [print32 (ascii ''Content-Length: '' @ digits (length (resp_body r)) @ kCRLF),
                  ascii ''Connection: Keep-Alive'' @ kCRLF] b);
     b \<leftarrow> append_all (concat (map (\<lambda>(k, v). [k, ascii '': '', v, kCRLF]) (resp_headers r))) b;
     append_all [kCRLF, resp_body r] b }"

section \<open>Server\<close>

datatype http_action = Send "byte list" | Shutdown

definition defaultHttpCallback :: "http_request \<Rightarrow> http_response \<Rightarrow> http_response" where
  "defaultHttpCallback req r = r\<lparr>statusCode := k404NotFound, statusMessage := ascii ''Not Found'', closeConnection := True\<rparr>"

definition onRequest :: "(http_request \<Rightarrow> http_response \<Rightarrow> http_response) \<Rightarrow> http_request \<Rightarrow> http_action list option" where
  "onRequest cb req = do {
     let connection = getHeader (ascii ''Connection'') req;
     let close = (connection = ascii ''close'' \<or> req_version req = kHttp10 \<and> connection \<noteq> ascii ''Keep-Alive'');
     let response = cb req (new_response close);
     buf \<leftarrow> appendToBuffer response new_buffer;
     Some (Send (toStringPiece buf) # (if closeConnection response then [Shutdown] else [])) }"

definition http_onConnection :: "bool \<Rightarrow> http_context option \<Rightarrow> http_context option" where
  "http_onConnection connected ctx = (if connected then Some new_context else ctx)"

definition http_onMessage :: "(http_request \<Rightarrow> http_response \<Rightarrow> http_response) \<Rightarrow> int \<Rightarrow> buffer \<Rightarrow> http_context
    \<Rightarrow> (http_action list \<times> buffer \<times> http_context) option" where
  "http_onMessage cb now b c = do {
     (valid, b, c) \<leftarrow> parseRequest now b c;
     let out = (if \<not> valid then [Send (ascii ''HTTP/1.1 400 Bad Request'' @ kCRLF @ kCRLF), Shutdown] else []);
     if gotAll c then do {
       out' \<leftarrow> onRequest cb (request c);
       Some (out @ out', b, reset c) }
     else Some (out, b, c) }"

section \<open>Parsing as a function on bytes\<close>

text \<open>The first line and what follows it.\<close>

definition next_line :: "byte list \<Rightarrow> (byte list \<times> byte list) option" where
  "next_line bs = (if search_crlf bs = length bs then None else Some (take (search_crlf bs) bs, drop (search_crlf bs + 2) bs))"

lemma next_line_less: "next_line bs = Some (line, rest) \<Longrightarrow> length rest < length bs"
  using search_crlf_le [of bs] by (auto simp: next_line_def split: if_splits)

function parse_bytes :: "int \<Rightarrow> byte list \<Rightarrow> http_context \<Rightarrow> (bool \<times> byte list \<times> http_context) option" where
  "parse_bytes now bs c =
     (if parse_state c = kExpectRequestLine then
        (case next_line bs of
           None \<Rightarrow> Some (True, bs, c)
         | Some (line, rest) \<Rightarrow>
             (case processRequestLine line (request c) of
                None \<Rightarrow> None
              | Some (valid, r) \<Rightarrow>
                  if valid then parse_bytes now rest (receiveRequestLine (c\<lparr>request := r\<lparr>receiveTime := now\<rparr>\<rparr>))
                  else Some (False, bs, c\<lparr>request := r\<rparr>)))
      else if parse_state c = kExpectHeaders then
        (case next_line bs of
           None \<Rightarrow> Some (True, bs, c)
         | Some (line, rest) \<Rightarrow>
             let field = takeWhile (\<lambda>x. x \<noteq> 58) line
             in if length field \<noteq> length line then
                  parse_bytes now rest (c\<lparr>request := req_addHeader field (drop (length field + 1) line) (request c)\<rparr>)
                else Some (True, rest, receiveHeaders c))
      else None)"
  by pat_completeness auto

termination
  by (relation "measure (\<lambda>(now, bs, c). length bs)") (auto dest: next_line_less)

declare parse_bytes.simps [simp del]

lemma next_line_buffer:
  assumes "buf_inv b"
  shows "(case findCRLF b of None \<Rightarrow> next_line (content b) = None
     | Some crlf \<Rightarrow> \<exists>b'. next_line (content b) = Some (bytes_at b (peek b) (crlf - peek b), content b')
         \<and> retrieveUntil (crlf + 2) b = Some b' \<and> buf_inv b')"
proof -
  have c: "bytes_at b (peek b) (length (content b)) = content b" using bytes_at_content [OF assms, of "length (content b)"] by simp
  have w: "beginWrite b = peek b + length (content b)" using assms by (simp add: buf_defs peek_def beginWrite_def)
  let ?i = "search_crlf (content b)"
  show ?thesis
  proof (cases "?i = length (content b)")
    case True
    then show ?thesis by (simp add: findCRLF_def c w next_line_def)
  next
    case False
    then have i: "?i < length (content b)" using search_crlf_le [of "content b"] by simp
    have "length (take 2 (drop ?i (content b))) = 2" unfolding search_crlf_found [OF i] by (simp add: kCRLF_def)
    then have l: "?i + 2 \<le> length (content b)" by simp
    from retrieve_ok [OF assms l] obtain b' where b': "retrieve (?i + 2) b = Some b'" "buf_inv b'" "content b' = drop (?i + 2) (content b)" by blast
    have "retrieveUntil (peek b + ?i + 2) b = Some b'" using b'(1) w l by (simp add: retrieveUntil_def)
    moreover have "bytes_at b (peek b) ?i = take ?i (content b)" using i by (intro bytes_at_content [OF assms]) simp
    ultimately show ?thesis using False b' by (simp add: findCRLF_def c w next_line_def)
  qed
qed

lemma parse_refines:
  "buf_inv b \<Longrightarrow> (case parseRequest now b c of
      None \<Rightarrow> parse_bytes now (content b) c = None
    | Some (valid, b', c') \<Rightarrow> parse_bytes now (content b) c = Some (valid, content b', c') \<and> buf_inv b')"
proof (induction now b c rule: parseRequest.induct)
  case (1 now b c)
  show ?case
  proof (cases "findCRLF b")
    case None
    then have "next_line (content b) = None" using next_line_buffer [OF 1(3)] by simp
    then show ?thesis using None 1(3) by (simp add: parseRequest.simps [of now b c] parse_bytes.simps [of now "content b" c])
  next
    case (Some crlf)
    then obtain b' where n: "next_line (content b) = Some (bytes_at b (peek b) (crlf - peek b), content b')"
      "retrieveUntil (crlf + 2) b = Some b'" "buf_inv b'" using next_line_buffer [OF 1(3)] by auto
    consider "parse_state c = kExpectRequestLine" | "parse_state c = kExpectHeaders"
      | "parse_state c \<noteq> kExpectRequestLine" "parse_state c \<noteq> kExpectHeaders" by blast
    then show ?thesis
    proof cases
      case 1
      note st = 1
      show ?thesis
      proof (cases "processRequestLine (bytes_at b (peek b) (crlf - peek b)) (request c)")
        case None
        then show ?thesis using Some n st by (simp add: parseRequest.simps [of now b c] parse_bytes.simps [of now "content b" c])
      next
        case (Some vr)
        obtain valid r where vr: "vr = (valid, r)" by (cases vr)
        show ?thesis
        proof (cases valid)
          case True
          note IH = "1.IH"(1) [OF st \<open>findCRLF b = Some crlf\<close> Some vr [symmetric] True n(2,3)]
          have "parseRequest now b c = parseRequest now b' (receiveRequestLine (c\<lparr>request := r\<lparr>receiveTime := now\<rparr>\<rparr>))"
            "parse_bytes now (content b) c = parse_bytes now (content b') (receiveRequestLine (c\<lparr>request := r\<lparr>receiveTime := now\<rparr>\<rparr>))"
            using Some vr True n st \<open>findCRLF b = Some crlf\<close>
            by (simp_all add: parseRequest.simps [of now b c] parse_bytes.simps [of now "content b" c])
          then show ?thesis using IH by (auto split: option.splits)
        next
          case False
          then show ?thesis using Some vr n st \<open>findCRLF b = Some crlf\<close> "1.prems"
            by (simp add: parseRequest.simps [of now b c] parse_bytes.simps [of now "content b" c])
        qed
      qed
    next
      case 2
      note st = 2
      let ?line = "bytes_at b (peek b) (crlf - peek b)"
      show ?thesis
      proof (cases "length (takeWhile (\<lambda>x. x \<noteq> 58) ?line) \<noteq> length ?line")
        case True
        have ns: "parse_state c \<noteq> kExpectRequestLine" using st by simp
        note IH = "1.IH"(2) [OF ns st Some refl refl True n(2,3)]
        let ?c = "c\<lparr>request := req_addHeader (takeWhile (\<lambda>x. x \<noteq> 58) ?line) (drop (length (takeWhile (\<lambda>x. x \<noteq> 58) ?line) + 1) ?line) (request c)\<rparr>"
        have "parseRequest now b c = parseRequest now b' ?c" "parse_bytes now (content b) c = parse_bytes now (content b') ?c"
          using Some True n st by (simp_all add: parseRequest.simps [of now b c] parse_bytes.simps [of now "content b" c] Let_def)
        then show ?thesis using IH by (auto split: option.splits)
      next
        case False
        then show ?thesis using Some n st
          by (simp add: parseRequest.simps [of now b c] parse_bytes.simps [of now "content b" c] Let_def)
      qed
    next
      case 3
      then show ?thesis by (simp add: parseRequest.simps [of now b c] parse_bytes.simps [of now "content b" c])
    qed
  qed
qed

section \<open>Cutting the stream\<close>
lemma next_line_append: "next_line xs = Some (line, rest) \<Longrightarrow> next_line (xs @ ys) = Some (line, rest @ ys)"
proof -
  assume n: "next_line xs = Some (line, rest)"
  then have l: "search_crlf xs < length xs" using search_crlf_le [of xs] by (auto simp: next_line_def split: if_splits)
  have "length (take 2 (drop (search_crlf xs) xs)) = 2" unfolding search_crlf_found [OF l] by (simp add: kCRLF_def)
  then have "search_crlf xs + 2 \<le> length xs" by simp
  then show ?thesis using n l by (auto simp: next_line_def search_crlf_append split: if_splits)
qed

lemma parse_bytes_append:
  "parse_bytes now (xs @ ys) c =
    (case parse_bytes now xs c of
       None \<Rightarrow> None
     | Some (valid, rest, c') \<Rightarrow> if valid \<and> \<not> gotAll c' then parse_bytes now (rest @ ys) c' else Some (valid, rest @ ys, c'))"
proof (induction now xs c rule: parse_bytes.induct)
  case (1 now xs c)
  consider "parse_state c = kExpectRequestLine" | "parse_state c = kExpectHeaders"
    | "parse_state c \<noteq> kExpectRequestLine" "parse_state c \<noteq> kExpectHeaders" by blast
  then show ?case
  proof cases
    case 3
    then show ?thesis by (simp add: parse_bytes.simps [of now xs c] parse_bytes.simps [of now "xs @ ys" c])
  next
    case 1
    note st = 1
    show ?thesis
    proof (cases "next_line xs")
      case None
      then show ?thesis using st by (simp add: parse_bytes.simps [of now xs c] gotAll_def)
    next
      case (Some lr)
      obtain line rst where lr: "lr = (line, rst)" by (cases lr)
      note n = next_line_append [OF Some [unfolded lr], of ys]
      show ?thesis
      proof (cases "processRequestLine line (request c)")
        case None
        then show ?thesis using n st Some lr by (simp add: parse_bytes.simps [of now xs c] parse_bytes.simps [of now "xs @ ys" c])
      next
        case (Some vr)
        obtain valid r where vr: "vr = (valid, r)" by (cases vr)
        show ?thesis
        proof (cases valid)
          case True
          let ?c = "receiveRequestLine (c\<lparr>request := r\<lparr>receiveTime := now\<rparr>\<rparr>)"
          note IH = "1.IH"(1) [OF st \<open>next_line xs = Some lr\<close> lr [symmetric] Some vr [symmetric] True]
          have "parse_bytes now (xs @ ys) c = parse_bytes now (rst @ ys) ?c" "parse_bytes now xs c = parse_bytes now rst ?c"
            using Some vr True n lr st \<open>next_line xs = Some lr\<close>
            by (simp_all add: parse_bytes.simps [of now xs c] parse_bytes.simps [of now "xs @ ys" c])
          with IH show ?thesis by metis
        next
          case False
          then show ?thesis using Some vr n lr st \<open>next_line xs = Some lr\<close>
            by (simp add: parse_bytes.simps [of now xs c] parse_bytes.simps [of now "xs @ ys" c])
        qed
      qed
    qed
  next
    case 2
    note st = 2
    then have ns: "parse_state c \<noteq> kExpectRequestLine" by simp
    show ?thesis
    proof (cases "next_line xs")
      case None
      then show ?thesis using st by (simp add: parse_bytes.simps [of now xs c] gotAll_def)
    next
      case (Some lr)
      obtain line rst where lr: "lr = (line, rst)" by (cases lr)
      note n = next_line_append [OF Some [unfolded lr], of ys]
      let ?f = "takeWhile (\<lambda>x. x \<noteq> 58) line"
      show ?thesis
      proof (cases "length ?f \<noteq> length line")
        case True
        let ?c = "c\<lparr>request := req_addHeader ?f (drop (length ?f + 1) line) (request c)\<rparr>"
        note IH = "1.IH"(2) [OF ns st Some lr [symmetric] refl True]
        have "parse_bytes now (xs @ ys) c = parse_bytes now (rst @ ys) ?c" "parse_bytes now xs c = parse_bytes now rst ?c"
          using Some True n lr st by (simp_all add: parse_bytes.simps [of now xs c] parse_bytes.simps [of now "xs @ ys" c] Let_def)
        with IH show ?thesis by metis
      next
        case False
        then show ?thesis using Some n lr st
          by (simp add: parse_bytes.simps [of now xs c] parse_bytes.simps [of now "xs @ ys" c] gotAll_def receiveHeaders_def Let_def)
      qed
    qed
  qed
qed

section \<open>Texts of requests\<close>

definition method_text :: "Method \<Rightarrow> byte list" where
  "method_text m = methodString (new_request\<lparr>req_method := m\<rparr>)"

definition version_digit :: "Version \<Rightarrow> byte" where
  "version_digit v = (if v = kHttp11 then 49 else 48)"

definition request_line :: "Method \<Rightarrow> byte list \<Rightarrow> Version \<Rightarrow> byte list" where
  "request_line m path v = method_text m @ 32 # path @ 32 # ascii ''HTTP/1.'' @ [version_digit v]"

definition header_line :: "byte list \<times> byte list \<Rightarrow> byte list" where
  "header_line h = fst h @ 58 # 32 # snd h"

definition request_text :: "Method \<Rightarrow> byte list \<Rightarrow> Version \<Rightarrow> (byte list \<times> byte list) list \<Rightarrow> byte list" where
  "request_text m path v hs = request_line m path v @ kCRLF @ concat (map (\<lambda>h. header_line h @ kCRLF) hs) @ kCRLF"

definition header_ok :: "byte list \<times> byte list \<Rightarrow> bool" where
  "header_ok h \<longleftrightarrow> 58 \<notin> set (fst h) \<and> 13 \<notin> set (fst h) \<and> 13 \<notin> set (snd h)
     \<and> (snd h \<noteq> [] \<longrightarrow> \<not> isspace (hd (snd h)) \<and> \<not> isspace (last (snd h)))"

definition request_ok :: "Method \<Rightarrow> byte list \<Rightarrow> Version \<Rightarrow> (byte list \<times> byte list) list \<Rightarrow> bool" where
  "request_ok m path v hs \<longleftrightarrow> m \<noteq> kInvalid \<and> v \<noteq> kUnknown \<and> 32 \<notin> set path \<and> 13 \<notin> set path \<and> list_all header_ok hs"

definition request_of :: "int \<Rightarrow> Method \<Rightarrow> byte list \<Rightarrow> Version \<Rightarrow> (byte list \<times> byte list) list \<Rightarrow> http_request" where
  "request_of now m path v hs = \<lparr>req_method = m, req_version = v, req_path = path, receiveTime = now,
     req_headers = fold (\<lambda>(k, x). map_set k x) hs []\<rparr>"

text \<open>A context that waits for a new request.\<close>

definition fresh :: "http_context \<Rightarrow> bool" where
  "fresh c \<longleftrightarrow> parse_state c = kExpectRequestLine \<and> req_method (request c) = kInvalid \<and> req_headers (request c) = []"

lemma fresh_contexts: "fresh new_context" "fresh (reset c)"
  by (simp_all add: fresh_def new_context_def new_request_def reset_def req_swap_def)

lemma next_line_text: "13 \<notin> set line \<Longrightarrow> next_line (line @ kCRLF @ rest) = Some (line, rest)"
proof -
  assume "13 \<notin> set line"
  then have "search_crlf (line @ 13 # 10 # rest) = length line"
  proof (induction line)
    case (Cons x xs)
    then show ?case by (cases xs) (auto simp: kCRLF_def)
  qed (simp add: kCRLF_def)
  then show ?thesis by (simp add: next_line_def kCRLF_def)
qed

lemma method_text_parsed: "m \<noteq> kInvalid \<Longrightarrow> method_of (method_text m) = m" "32 \<notin> set (method_text m)" "13 \<notin> set (method_text m)"
  by (cases m; simp add: method_text_def methodString_def method_of_def ascii_def new_request_def)+

lemma request_line_parsed:
  assumes "request_ok m path v hs" "req_method r = kInvalid"
  shows "processRequestLine (request_line m path v) r = Some (True, r\<lparr>req_method := m, req_path := path, req_version := v\<rparr>)"
    "13 \<notin> set (request_line m path v)"
proof -
  have ok: "m \<noteq> kInvalid" "v \<noteq> kUnknown" "32 \<notin> set path" "13 \<notin> set path" using assms(1) by (simp_all add: request_ok_def)
  have tw: "takeWhile (\<lambda>x. x \<noteq> 32) (xs @ 32 # ys) = xs" if "32 \<notin> set xs" for xs ys :: "byte list"
    using that by (subst takeWhile_append2) auto
  have w: "version_digit v = 49 \<or> version_digit v = 48" "version_digit v = 49 \<longleftrightarrow> v = kHttp11" "version_digit v = 48 \<longleftrightarrow> v = kHttp10"
    using ok(2) by (cases v; simp add: version_digit_def)+
  show "processRequestLine (request_line m path v) r = Some (True, r\<lparr>req_method := m, req_path := path, req_version := v\<rparr>)"
    using w ok(2) assms(2)
    by (cases v) (simp_all add: processRequestLine_def request_line_def tw method_text_parsed ok setMethod_def Let_def)
  show "13 \<notin> set (request_line m path v)"
    using w(1) ok method_text_parsed(3) by (auto simp: request_line_def ascii_def)
qed

lemma dropWhile_head: "xs \<noteq> [] \<Longrightarrow> \<not> P (hd xs) \<Longrightarrow> dropWhile P xs = xs"
  by (cases xs) simp_all

lemma trimmed: "header_ok (k, x) \<Longrightarrow> trim_right (dropWhile isspace (32 # x)) = x"
proof (cases "x = []")
  case False
  assume h: "header_ok (k, x)"
  then have "dropWhile isspace x = x" "dropWhile isspace (rev x) = rev x"
    using False by (auto simp: header_ok_def hd_rev intro!: dropWhile_head)
  moreover have "isspace 32" by (simp add: isspace_def)
  ultimately show ?thesis by (simp add: trim_right_def)
qed (simp add: trim_right_def isspace_def)

lemma headers_parsed:
  "list_all header_ok hs \<Longrightarrow> parse_state c = kExpectHeaders \<Longrightarrow>
    parse_bytes now (concat (map (\<lambda>h. header_line h @ kCRLF) hs) @ kCRLF @ rest) c
      = Some (True, rest, receiveHeaders (c\<lparr>request := (request c)\<lparr>req_headers := fold (\<lambda>(k, x). map_set k x) hs (req_headers (request c))\<rparr>\<rparr>))"
proof (induction hs arbitrary: c)
  case Nil
  then show ?case using next_line_text [of "[]" rest] by (simp add: parse_bytes.simps Let_def)
next
  case (Cons h hs)
  obtain k x where h: "h = (k, x)" by (cases h)
  have ok: "58 \<notin> set k" "13 \<notin> set (header_line h)" "header_ok (k, x)"
    using Cons.prems(1) h by (auto simp: header_ok_def header_line_def)
  have f: "takeWhile (\<lambda>y. y \<noteq> 58) (header_line h) = k" using ok(1) by (simp add: header_line_def h) (subst takeWhile_append2; auto)
  let ?c = "c\<lparr>request := req_addHeader k (32 # x) (request c)\<rparr>"
  have "parse_bytes now (concat (map (\<lambda>h. header_line h @ kCRLF) (h # hs)) @ kCRLF @ rest) c
      = parse_bytes now (concat (map (\<lambda>h. header_line h @ kCRLF) hs) @ kCRLF @ rest) ?c"
    using next_line_text [OF ok(2), of "concat (map (\<lambda>h. header_line h @ kCRLF) hs) @ kCRLF @ rest"] Cons.prems(2) f
    by (subst parse_bytes.simps) (simp add: Let_def header_line_def h)
  then show ?case using Cons.IH [of ?c] Cons.prems trimmed [OF ok(3)] by (simp add: h req_addHeader_def)
qed

lemma request_parsed:
  assumes "request_ok m path v hs" "fresh c"
  shows "parse_bytes now (request_text m path v hs @ rest) c = Some (True, rest, \<lparr>parse_state = kGotAll, request = request_of now m path v hs\<rparr>)"
proof -
  let ?r = "request c"
  have fr: "parse_state c = kExpectRequestLine" "req_method ?r = kInvalid" "req_headers ?r = []" using assms(2) by (simp_all add: fresh_def)
  note rl = request_line_parsed [OF assms(1) fr(2)]
  have hs: "list_all header_ok hs" using assms(1) by (simp add: request_ok_def)
  let ?c = "receiveRequestLine (c\<lparr>request := ?r\<lparr>req_method := m, req_path := path, req_version := v, receiveTime := now\<rparr>\<rparr>)"
  have "parse_bytes now (request_text m path v hs @ rest) c = parse_bytes now (concat (map (\<lambda>h. header_line h @ kCRLF) hs) @ kCRLF @ rest) ?c"
    using next_line_text [OF rl(2), of "concat (map (\<lambda>h. header_line h @ kCRLF) hs) @ kCRLF @ rest"] rl(1) fr(1)
    by (subst parse_bytes.simps) (simp add: request_text_def)
  also have "\<dots> = Some (True, rest, \<lparr>parse_state = kGotAll, request = request_of now m path v hs\<rparr>)"
    using headers_parsed [OF hs, of ?c] fr(3)
    by (cases ?r) (simp add: receiveRequestLine_def receiveHeaders_def request_of_def)
  finally show ?thesis .
qed

section \<open>Texts of responses\<close>
lemma append_all_ok:
  "buf_inv b \<Longrightarrow> \<exists>b'. append_all ss b = Some b' \<and> buf_inv b' \<and> content b' = content b @ concat ss"
proof (induction ss arbitrary: b)
  case (Cons s ss)
  from append_data_ok [OF Cons.prems, of s] obtain b1 where b1: "append_data s b = Some b1" "buf_inv b1" "content b1 = content b @ s" by blast
  from Cons.IH [OF b1(2)] b1 show ?case by auto
qed simp

definition response_text :: "http_response \<Rightarrow> byte list" where
  "response_text r =
     print32 (ascii ''HTTP/1.1 '' @ digits (statusCode r) @ ascii '' '') @ statusMessage r @ kCRLF
     @ (if closeConnection r then ascii ''Connection: close'' @ kCRLF
        else print32 (ascii ''Content-Length: '' @ digits (length (resp_body r)) @ kCRLF) @ ascii ''Connection: Keep-Alive'' @ kCRLF)
     @ concat (map (\<lambda>(k, v). k @ ascii '': '' @ v @ kCRLF) (resp_headers r)) @ kCRLF @ resp_body r"

lemma appendToBuffer_ok:
  assumes "buf_inv b"
  shows "\<exists>b'. appendToBuffer r b = Some b' \<and> buf_inv b' \<and> content b' = content b @ response_text r"
proof -
  have c: "concat (concat (map (\<lambda>(k, v). [k, ascii '': '', v, kCRLF]) hs)) = concat (map (\<lambda>(k, v). k @ ascii '': '' @ v @ kCRLF) hs)" for hs
    by (induction hs) auto
  let ?s1 = "[print32 (ascii ''HTTP/1.1 '' @ digits (statusCode r) @ ascii '' ''), statusMessage r, kCRLF]"
  let ?s2 = "if closeConnection r then [ascii ''Connection: close'' @ kCRLF]
     else [print32 (ascii ''Content-Length: '' @ digits (length (resp_body r)) @ kCRLF), ascii ''Connection: Keep-Alive'' @ kCRLF]"
  let ?s3 = "concat (map (\<lambda>(k, v). [k, ascii '': '', v, kCRLF]) (resp_headers r))"
  from append_all_ok [OF assms, of ?s1] obtain b1 where b1: "append_all ?s1 b = Some b1" "buf_inv b1" "content b1 = content b @ concat ?s1" by blast
  from append_all_ok [OF b1(2), of ?s2] obtain b2 where b2: "append_all ?s2 b1 = Some b2" "buf_inv b2" "content b2 = content b1 @ concat ?s2" by blast
  from append_all_ok [OF b2(2), of ?s3] obtain b3 where b3: "append_all ?s3 b2 = Some b3" "buf_inv b3" "content b3 = content b2 @ concat ?s3" by blast
  from append_all_ok [OF b3(2), of "[kCRLF, resp_body r]"] obtain b4 where
    b4: "append_all [kCRLF, resp_body r] b3 = Some b4" "buf_inv b4" "content b4 = content b3 @ concat [kCRLF, resp_body r]" by blast
  have "(if closeConnection r then append_all [ascii ''Connection: close'' @ kCRLF] b1
      else append_all [print32 (ascii ''Content-Length: '' @ digits (length (resp_body r)) @ kCRLF), ascii ''Connection: Keep-Alive'' @ kCRLF] b1) = Some b2"
    using b2(1) by (cases "closeConnection r") simp_all
  then have "appendToBuffer r b = Some b4" unfolding appendToBuffer_def using b1(1) b3(1) b4(1) by simp
  moreover have "content b4 = content b @ response_text r"
    using b1(3) b2(3) b3(3) b4(3) by (cases "closeConnection r") (simp_all add: response_text_def c)
  ultimately show ?thesis using b4(2) by blast
qed

text \<open>What the server answers to a request.\<close>

definition answer :: "(http_request \<Rightarrow> http_response \<Rightarrow> http_response) \<Rightarrow> http_request \<Rightarrow> http_action list" where
  "answer cb req =
     (let connection = getHeader (ascii ''Connection'') req;
          response = cb req (new_response (connection = ascii ''close'' \<or> req_version req = kHttp10 \<and> connection \<noteq> ascii ''Keep-Alive''))
      in Send (response_text response) # (if closeConnection response then [Shutdown] else []))"

lemma onRequest_answer: "onRequest cb req = Some (answer cb req)"
proof -
  have n: "buf_inv new_buffer" "content new_buffer = []" by (simp_all add: new_buffer_ok)
  let ?r = "cb req (new_response (getHeader (ascii ''Connection'') req = ascii ''close''
    \<or> req_version req = kHttp10 \<and> getHeader (ascii ''Connection'') req \<noteq> ascii ''Keep-Alive''))"
  from appendToBuffer_ok [OF n(1), of ?r] n(2) obtain b where "appendToBuffer ?r new_buffer = Some b" "buf_inv b" "content b = response_text ?r" by auto
  then show ?thesis by (simp add: onRequest_def answer_def toStringPiece_content Let_def)
qed

section \<open>Deliveries\<close>

text \<open>The pieces arrive one after the other; each is appended to the input buffer and the message callback is called.\<close>

fun deliver :: "(http_request \<Rightarrow> http_response \<Rightarrow> http_response) \<Rightarrow> int \<Rightarrow> byte list list \<Rightarrow> buffer \<Rightarrow> http_context
    \<Rightarrow> (http_action list \<times> buffer \<times> http_context) option" where
  "deliver cb now [] b c = Some ([], b, c)"
| "deliver cb now (d # ds) b c = do {
     b \<leftarrow> append_data d b;
     (out, b, c) \<leftarrow> http_onMessage cb now b c;
     (out', b, c) \<leftarrow> deliver cb now ds b c;
     Some (out @ out', b, c) }"

lemma onMessage_bytes:
  assumes "buf_inv b"
  shows "(case parse_bytes now (content b) c of
      None \<Rightarrow> http_onMessage cb now b c = None
    | Some (valid, rest, c') \<Rightarrow> \<exists>b'. buf_inv b' \<and> content b' = rest \<and> http_onMessage cb now b c =
        Some ((if valid then [] else [Send (ascii ''HTTP/1.1 400 Bad Request'' @ kCRLF @ kCRLF), Shutdown])
          @ (if gotAll c' then answer cb (request c') else []), b', if gotAll c' then reset c' else c'))"
proof (cases "parseRequest now b c")
  case None
  then show ?thesis using parse_refines [OF assms, of now c] by (simp add: http_onMessage_def)
next
  case (Some r)
  obtain valid b' c' where r: "r = (valid, b', c')" by (cases r)
  have "parse_bytes now (content b) c = Some (valid, content b', c')" "buf_inv b'"
    using parse_refines [OF assms, of now c] Some r by simp_all
  then show ?thesis using Some r by (auto simp: http_onMessage_def onRequest_answer)
qed

lemma deliver_request:
  assumes "buf_inv b" "parse_bytes now (content b @ concat ds) c = Some (True, [], g)" "gotAll g"
    "parse_bytes now (content b) c = Some (True, content b, c)" "\<not> gotAll c"
  shows "\<exists>b'. deliver cb now ds b c = Some (answer cb (request g), b', reset g) \<and> buf_inv b' \<and> content b' = []"
  using assms
proof (induction ds arbitrary: b c)
  case Nil
  then show ?case by auto
next
  case (Cons d ds)
  from append_data_ok [OF Cons.prems(1), of d] obtain b1 where
    b1: "append_data d b = Some b1" "buf_inv b1" "content b1 = content b @ d" by blast
  have all: "parse_bytes now (content b1 @ concat ds) c = Some (True, [], g)" using Cons.prems(2) b1(3) by simp
  then obtain valid rest c' where p: "parse_bytes now (content b1) c = Some (valid, rest, c')"
    by (auto simp: parse_bytes_append split: option.splits)
  have v: "valid" using all Cons.prems(3) by (auto simp: parse_bytes_append p split: if_splits)
  have om: "\<exists>b2. buf_inv b2 \<and> content b2 = rest \<and> http_onMessage cb now b1 c
      = Some (if gotAll c' then answer cb (request c') else [], b2, if gotAll c' then reset c' else c')"
    using onMessage_bytes [OF b1(2), of cb now c] p v by simp
  then obtain b2 where b2: "buf_inv b2" "content b2 = rest"
    "http_onMessage cb now b1 c = Some (if gotAll c' then answer cb (request c') else [], b2, if gotAll c' then reset c' else c')" by blast
  show ?case
  proof (cases "gotAll c'")
    case True
    then have e: "rest = []" "concat ds = []" "c' = g" using all v by (simp_all add: parse_bytes_append p)
    have "\<exists>b'. deliver cb now es b3 (reset g) = Some ([], b', reset g) \<and> buf_inv b' \<and> content b' = []"
      if "buf_inv b3" "content b3 = []" "concat es = []" for es b3
      using that
    proof (induction es arbitrary: b3)
      case (Cons x es)
      then obtain b4 where b4: "append_data x b3 = Some b4" "buf_inv b4" "content b4 = []"
        using append_data_ok [OF Cons.prems(1), of x] by auto
      have "parse_bytes now [] (reset g) = Some (True, [], reset g)" "\<not> gotAll (reset g)"
        by (simp_all add: parse_bytes.simps reset_def next_line_def gotAll_def)
      then have "\<exists>b5. buf_inv b5 \<and> content b5 = [] \<and> http_onMessage cb now b4 (reset g) = Some ([], b5, reset g)"
        using onMessage_bytes [OF b4(2), of cb now "reset g"] b4(3) by simp
      then obtain b5 where b5: "buf_inv b5" "content b5 = []" "http_onMessage cb now b4 (reset g) = Some ([], b5, reset g)" by blast
      show ?case using Cons.IH [OF b5(1,2)] Cons.prems(3) b4(1) b5(3) by auto
    qed simp
    from this [OF b2(1) _ e(2)] b2 e show ?thesis using b1(1) True by auto
  next
    case False
    have "parse_bytes now rest c' = Some (True, rest, c')"
      using parse_bytes_append [of now "content b1" "[]" c] p v False by simp
    moreover have "parse_bytes now (content b2 @ concat ds) c' = Some (True, [], g)"
      using all v False b2(2) by (simp add: parse_bytes_append p)
    ultimately show ?thesis using Cons.IH [OF b2(1) _ Cons.prems(3) _ False] b1(1) b2 False by auto
  qed
qed

section \<open>Properties\<close>

text \<open>C21: A request is parsed into what was printed, with its headers trimmed and the last of equal fields kept, and answered once, however the stream is cut
  into deliveries; afterwards the buffer is empty and the context waits for the next request.\<close>
theorem request_answered_any_cut:
  assumes "request_ok m path v hs" "fresh c" "buf_inv b" "content b = []" "concat ds = request_text m path v hs"
  shows "\<exists>b' c'. deliver cb now ds b c = Some (answer cb (request_of now m path v hs), b', c') \<and> content b' = [] \<and> fresh c'"
proof -
  let ?g = "\<lparr>parse_state = kGotAll, request = request_of now m path v hs\<rparr>"
  have a: "parse_bytes now (content b @ concat ds) c = Some (True, [], ?g)"
    using request_parsed [OF assms(1,2), of now "[]"] assms(4,5) by simp
  have s: "parse_bytes now (content b) c = Some (True, content b, c)" "\<not> gotAll c"
    using assms(2,4) by (simp_all add: parse_bytes.simps fresh_def next_line_def gotAll_def)
  have "gotAll ?g" by (simp add: gotAll_def)
  from deliver_request [OF assms(3) a this s, of cb] show ?thesis using fresh_contexts(2) by fastforce
qed

text \<open>Parsing on the buffer is parsing of its bytes as a function: the same requests, the same rest, the same failures, and it ends.\<close>
theorem parser_is_function_of_bytes:
  assumes "buf_inv b"
  shows "(case parseRequest now b c of
      None \<Rightarrow> parse_bytes now (content b) c = None
    | Some (valid, b', c') \<Rightarrow> parse_bytes now (content b) c = Some (valid, content b', c') \<and> buf_inv b')
    \<and> parse_bytes now (xs @ ys) c =
      (case parse_bytes now xs c of
         None \<Rightarrow> None
       | Some (valid, rest, c') \<Rightarrow> if valid \<and> \<not> gotAll c' then parse_bytes now (rest @ ys) c' else Some (valid, rest @ ys, c'))"
  by (rule conjI [OF parse_refines [OF assms] parse_bytes_append])

text \<open>A second request that arrives together with the first is not answered: it stays in the buffer until more bytes come.\<close>
theorem pipelined_request_waits:
  assumes "request_ok m path v hs" "fresh c" "buf_inv b" "content b = request_text m path v hs @ rest"
  shows "\<exists>b' c'. http_onMessage cb now b c = Some (answer cb (request_of now m path v hs), b', c') \<and> content b' = rest \<and> fresh c'"
  using onMessage_bytes [OF assms(3), of cb now c] request_parsed [OF assms(1,2), of now rest]
  by (auto simp: assms(4) gotAll_def fresh_contexts)

text \<open>A request line with a valid method and an unknown version is answered by 400 and a shutdown, but neither removed from the buffer nor forgotten:
  the next bytes from the peer make \<open>setMethod\<close> fail its assertion, and the server aborts.\<close>
theorem bad_version_aborts:
  assumes "m \<noteq> kInvalid" "32 \<notin> set path" "13 \<notin> set path" "13 \<notin> set ver" "\<not> (length ver = 8 \<and> butlast ver = ascii ''HTTP/1.'' \<and> last ver \<in> {48, 49})"
    "fresh c" "buf_inv b" "content b = method_text m @ 32 # path @ 32 # ver @ kCRLF @ rest"
  shows "\<exists>b' c'. http_onMessage cb now b c = Some ([Send (ascii ''HTTP/1.1 400 Bad Request'' @ kCRLF @ kCRLF), Shutdown], b', c')
    \<and> deliver cb now [d] b' c' = None"
proof -
  let ?line = "method_text m @ 32 # path @ 32 # ver"
  let ?r = "(request c)\<lparr>req_method := m, req_path := path\<rparr>"
  have fr: "parse_state c = kExpectRequestLine" "req_method (request c) = kInvalid" using assms(6) by (simp_all add: fresh_def)
  have tw: "takeWhile (\<lambda>x. x \<noteq> 32) (xs @ 32 # ys) = xs" if "32 \<notin> set xs" for xs ys :: "byte list"
    using that by (subst takeWhile_append2) auto
  have p: "processRequestLine ?line (request c) = Some (False, ?r)"
    using assms(1,2,5) fr(2) by (simp add: processRequestLine_def tw method_text_parsed setMethod_def Let_def)
  have nl: "next_line (?line @ kCRLF @ xs) = Some (?line, xs)" for xs
    by (rule next_line_text) (use assms(3,4) method_text_parsed(3) [of m] in auto)
  have "parse_bytes now (content b) c = Some (False, content b, c\<lparr>request := ?r\<rparr>)"
    using p fr(1) nl [of rest] by (simp add: parse_bytes.simps assms(8))
  with onMessage_bytes [OF assms(7), of cb now c] obtain b' where
    b': "buf_inv b'" "content b' = content b" "http_onMessage cb now b c =
      Some ([Send (ascii ''HTTP/1.1 400 Bad Request'' @ kCRLF @ kCRLF), Shutdown], b', c\<lparr>request := ?r\<rparr>)"
    using fr(1) by (auto simp: gotAll_def)
  from append_data_ok [OF b'(1), of d] obtain b2 where b2: "append_data d b' = Some b2" "buf_inv b2" "content b2 = content b' @ d" by blast
  have "processRequestLine ?line ?r = None"
    using assms(1,2) by (simp add: processRequestLine_def tw method_text_parsed setMethod_def Let_def)
  then have "parse_bytes now (content b2) (c\<lparr>request := ?r\<rparr>) = None"
    using fr(1) nl [of "rest @ d"] by (simp add: parse_bytes.simps b2(3) b'(2) assms(8))
  then have "http_onMessage cb now b2 (c\<lparr>request := ?r\<rparr>) = None" using onMessage_bytes [OF b2(2), of cb now "c\<lparr>request := ?r\<rparr>"] by simp
  with b'(3) b2(1) show ?thesis by auto
qed

text \<open>The headers end at the first line without a colon, be it empty or not; what follows is taken for the next request.\<close>
theorem line_without_colon_ends_headers:
  assumes "buf_inv b" "parse_state c = kExpectHeaders" "58 \<notin> set line" "13 \<notin> set line" "content b = line @ kCRLF @ rest"
  shows "\<exists>b'. parseRequest now b c = Some (True, b', receiveHeaders c) \<and> content b' = rest"
proof -
  have "length (takeWhile (\<lambda>x. x \<noteq> 58) line) = length line" using assms(3) by (induction line) auto
  then have "parse_bytes now (content b) c = Some (True, rest, receiveHeaders c)"
    using next_line_text [OF assms(4), of rest] assms(2,5) by (subst parse_bytes.simps) (simp add: Let_def)
  with parse_refines [OF assms(1), of now c] show ?thesis by (auto split: option.splits)
qed

text \<open>A response is printed as its status line, \<open>Connection: close\<close> or the length of the body with \<open>Keep-Alive\<close>, the headers in the order of
  their keys, an empty line and the body; status codes and lengths up to 13 digits are never cut.\<close>
theorem response_printed:
  assumes "buf_inv b" "statusCode r < 1000" "length (resp_body r) < 10 ^ 13"
  shows "\<exists>b'. appendToBuffer r b = Some b' \<and> content b' = content b @ ascii ''HTTP/1.1 '' @ digits (statusCode r) @ ascii '' '' @ statusMessage r @ kCRLF
     @ (if closeConnection r then ascii ''Connection: close'' @ kCRLF
        else ascii ''Content-Length: '' @ digits (length (resp_body r)) @ kCRLF @ ascii ''Connection: Keep-Alive'' @ kCRLF)
     @ concat (map (\<lambda>(k, v). k @ ascii '': '' @ v @ kCRLF) (resp_headers r)) @ kCRLF @ resp_body r"
proof -
  have "length (digits (statusCode r)) \<le> 3" "length (digits (length (resp_body r))) \<le> 13"
    using assms(2,3) length_digits [of _ 3] length_digits [of _ 13] by simp_all
  then have "response_text r = ascii ''HTTP/1.1 '' @ digits (statusCode r) @ ascii '' '' @ statusMessage r @ kCRLF
     @ (if closeConnection r then ascii ''Connection: close'' @ kCRLF
        else ascii ''Content-Length: '' @ digits (length (resp_body r)) @ kCRLF @ ascii ''Connection: Keep-Alive'' @ kCRLF)
     @ concat (map (\<lambda>(k, v). k @ ascii '': '' @ v @ kCRLF) (resp_headers r)) @ kCRLF @ resp_body r"
    by (simp add: response_text_def print32_def kCRLF_def)
  with appendToBuffer_ok [OF assms(1), of r] show ?thesis by metis
qed

text \<open>When the callback leaves the decision to the server, it closes the connection exactly when the client asks for it by \<open>close\<close>, or speaks
  HTTP/1.0 and does not ask for \<open>Keep-Alive\<close>.\<close>
theorem close_decision:
  assumes "\<And>req r. closeConnection (cb req r) = closeConnection r"
  shows "\<exists>out. onRequest cb req = Some (Send out # (if getHeader (ascii ''Connection'') req = ascii ''close''
      \<or> req_version req = kHttp10 \<and> getHeader (ascii ''Connection'') req \<noteq> ascii ''Keep-Alive'' then [Shutdown] else []))"
  using assms by (simp add: onRequest_answer answer_def new_response_def Let_def)

section \<open>Instances\<close>

definition hello :: "http_request \<Rightarrow> http_response \<Rightarrow> http_response" where
  "hello req r = r\<lparr>statusCode := k200Ok, statusMessage := ascii ''OK'', resp_body := req_path req\<rparr>"

lemma get_ok: "request_ok kGet (ascii ''/a'') kHttp11 [(ascii ''Host'', ascii ''x'')]"
  by (simp add: request_ok_def header_ok_def ascii_def isspace_def)

lemma sample_buffer: obtains b where "buf_inv b" "content b = bs"
  using append_data_ok [OF new_buffer_ok(1), of bs] new_buffer_ok(2) by auto

theorem request_answered_any_cut_witness:
  "\<exists>b' c'. deliver hello 5 (map (\<lambda>x. [x]) (request_text kGet (ascii ''/a'') kHttp11 [(ascii ''Host'', ascii ''x'')])) new_buffer new_context
    = Some (answer hello (request_of 5 kGet (ascii ''/a'') kHttp11 [(ascii ''Host'', ascii ''x'')]), b', c')"
proof -
  have "concat (map (\<lambda>x. [x]) xs) = xs" for xs :: "byte list" by simp
  from request_answered_any_cut [OF get_ok fresh_contexts(1) new_buffer_ok(1,2) this] show ?thesis by blast
qed

theorem parser_is_function_of_bytes_witness: "parse_bytes 5 (content new_buffer @ []) new_context = Some (True, [], new_context)"
proof -
  have "parse_bytes 5 [] new_context = Some (True, [], new_context)"
    by (simp add: parse_bytes.simps new_context_def next_line_def)
  then show ?thesis using parser_is_function_of_bytes [OF new_buffer_ok(1), of 5 new_context "[]" "[]"] new_buffer_ok(2) by simp
qed

theorem pipelined_request_waits_witness:
  "\<exists>b b' c'. http_onMessage hello 5 b new_context = Some (answer hello (request_of 5 kGet (ascii ''/a'') kHttp11 [(ascii ''Host'', ascii ''x'')]), b', c')
    \<and> content b' = request_text kGet (ascii ''/a'') kHttp11 [(ascii ''Host'', ascii ''x'')]"
proof -
  let ?t = "request_text kGet (ascii ''/a'') kHttp11 [(ascii ''Host'', ascii ''x'')]"
  obtain b where b: "buf_inv b" "content b = ?t @ ?t" by (rule sample_buffer)
  from pipelined_request_waits [OF get_ok fresh_contexts(1) b, of hello 5] show ?thesis by blast
qed

theorem bad_version_aborts_witness:
  "\<exists>b b' c' out. content b = ascii ''GET / HTTP/2.0'' @ kCRLF \<and> http_onMessage hello 5 b new_context = Some (out, b', c') \<and> deliver hello 5 [[65]] b' c' = None"
proof -
  obtain b where b: "buf_inv b" "content b = ascii ''GET / HTTP/2.0'' @ kCRLF" by (rule sample_buffer)
  have e: "ascii ''GET / HTTP/2.0'' @ kCRLF = method_text kGet @ 32 # ascii ''/'' @ 32 # ascii ''HTTP/2.0'' @ kCRLF @ []"
    by (simp add: method_text_def methodString_def new_request_def ascii_def)
  have "\<exists>b' c'. http_onMessage hello 5 b new_context = Some ([Send (ascii ''HTTP/1.1 400 Bad Request'' @ kCRLF @ kCRLF), Shutdown], b', c')
      \<and> deliver hello 5 [[65]] b' c' = None"
    by (rule bad_version_aborts [OF _ _ _ _ _ fresh_contexts(1) b(1) b(2) [unfolded e]]) (simp_all add: ascii_def)
  with b(2) show ?thesis by blast
qed

theorem line_without_colon_ends_headers_witness:
  "\<exists>b b'. content b = [65, 13, 10, 66] \<and> parseRequest 5 b (new_context\<lparr>parse_state := kExpectHeaders\<rparr>)
    = Some (True, b', receiveHeaders (new_context\<lparr>parse_state := kExpectHeaders\<rparr>)) \<and> content b' = [66]"
proof -
  obtain b where b: "buf_inv b" "content b = [65] @ kCRLF @ [66]" by (rule sample_buffer)
  from line_without_colon_ends_headers [OF b(1) _ _ _ b(2), of "new_context\<lparr>parse_state := kExpectHeaders\<rparr>" 5] b(2)
  show ?thesis by (auto simp: kCRLF_def)
qed

theorem response_printed_witness:
  "\<exists>b'. appendToBuffer (new_response True) new_buffer = Some b' \<and> content b' \<noteq> []"
  using response_printed [OF new_buffer_ok(1), of "new_response True"] by (auto simp: new_response_def)

theorem close_decision_witness: "\<exists>out. onRequest hello (request_of 5 kGet [] kHttp10 []) = Some [Send out, Shutdown]"
  using close_decision [of hello "request_of 5 kGet [] kHttp10 []"]
  by (simp add: hello_def request_of_def getHeader_def map_find_def ascii_def)

end
