(* ===== verification/LogStream.thy ===== *)
theory LogStream
  imports Decimal "HOL-Library.Signed_Division"
begin

text \<open>
  \<open>muduo/base/LogStream.h\<close> and \<open>LogStream.cc\<close>: a buffer of fixed size into which log lines are printed, and the conversion of integers to text. A write
  past the end of the buffer is \<open>None\<close>.
\<close>

section \<open>FixedBuffer\<close>

text \<open>The memory and the position \<open>cur_\<close> in it.\<close>

record fixed_buffer =
  fb_data :: "byte list"
  fb_cur :: nat

definition kSmallBuffer :: nat where "kSmallBuffer = 4000"

definition kLargeBuffer :: nat where "kLargeBuffer = 4000 * 1000"

definition new_fixed_buffer :: "byte list \<Rightarrow> fixed_buffer" where
  "new_fixed_buffer garbage = \<lparr>fb_data = garbage, fb_cur = 0\<rparr>"

definition avail :: "fixed_buffer \<Rightarrow> nat" where
  "avail b = length (fb_data b) - fb_cur b"

definition fb_write :: "nat \<Rightarrow> byte list \<Rightarrow> fixed_buffer \<Rightarrow> fixed_buffer option" where
  "fb_write p bs b = do {
     assert_that (p + length bs \<le> length (fb_data b));
     Some (b\<lparr>fb_data := blit p bs (fb_data b)\<rparr>) }"

definition fb_add :: "nat \<Rightarrow> fixed_buffer \<Rightarrow> fixed_buffer" where
  "fb_add len b = b\<lparr>fb_cur := fb_cur b + len\<rparr>"

definition fb_append :: "byte list \<Rightarrow> fixed_buffer \<Rightarrow> fixed_buffer option" where
  "fb_append bs b =
     (if length bs < avail b then do {
        b \<leftarrow> fb_write (fb_cur b) bs b;
        Some (fb_add (length bs) b) }
      else Some b)"

definition fb_reset :: "fixed_buffer \<Rightarrow> fixed_buffer" where
  "fb_reset b = b\<lparr>fb_cur := 0\<rparr>"

definition fb_bzero :: "fixed_buffer \<Rightarrow> fixed_buffer" where
  "fb_bzero b = b\<lparr>fb_data := replicate (length (fb_data b)) 0\<rparr>"

definition asString :: "fixed_buffer \<Rightarrow> byte list" where
  "asString b = take (fb_cur b) (fb_data b)"

section \<open>Integers\<close>

text \<open>\<open>zero\<close> points into the middle of the table, so that negative digits find their character.\<close>

definition digit_table :: "byte list" where
  "digit_table = ascii ''9876543210123456789''"

definition zero_at :: "int \<Rightarrow> byte" where
  "zero_at lsd = digit_table ! nat (9 + lsd)"

lemma sdiv_smaller: "i sdiv 10 \<noteq> (0::int) \<Longrightarrow> nat \<bar>i sdiv 10\<bar> < nat \<bar>i\<bar>"
  by (simp add: signed_divide_int_def abs_mult sgn_if split: if_splits)

text \<open>C divides towards zero. The characters, the last digit first.\<close>

function convert_digits :: "int \<Rightarrow> byte list" where
  "convert_digits i = zero_at (i smod 10) # (if i sdiv 10 \<noteq> 0 then convert_digits (i sdiv 10) else [])"
  by pat_completeness auto

termination
  by (relation "measure (\<lambda>i. nat \<bar>i\<bar>)") (auto dest: sdiv_smaller)

declare convert_digits.simps [simp del]

definition convert :: "int \<Rightarrow> byte list" where
  "convert v = rev (convert_digits v @ (if v < 0 then [45] else []))"

definition digitsHex :: "byte list" where
  "digitsHex = ascii ''0123456789ABCDEF''"

fun convertHex_digits :: "nat \<Rightarrow> byte list" where
  "convertHex_digits i = digitsHex ! (i mod 16) # (if i div 16 \<noteq> 0 then convertHex_digits (i div 16) else [])"

declare convertHex_digits.simps [simp del]

definition convertHex :: "u64 \<Rightarrow> byte list" where
  "convertHex v = rev (convertHex_digits (unat v))"

section \<open>LogStream\<close>

definition kMaxNumericSize :: nat where "kMaxNumericSize = 32"

text \<open>\<open>convert\<close> also writes a terminating 0, which \<open>add\<close> does not count.\<close>

definition formatInteger :: "int \<Rightarrow> fixed_buffer \<Rightarrow> fixed_buffer option" where
  "formatInteger v b =
     (if kMaxNumericSize \<le> avail b then do {
        b \<leftarrow> fb_write (fb_cur b) (convert v @ [0]) b;
        Some (fb_add (length (convert v)) b) }
      else Some b)"

definition format_pointer :: "u64 \<Rightarrow> fixed_buffer \<Rightarrow> fixed_buffer option" where
  "format_pointer v b =
     (if kMaxNumericSize \<le> avail b then do {
        b \<leftarrow> fb_write (fb_cur b) (ascii ''0x'') b;
        b \<leftarrow> fb_write (fb_cur b + 2) (convertHex v @ [0]) b;
        Some (fb_add (length (convertHex v) + 2) b) }
      else Some b)"

text \<open>\<open>printed\<close> is what \<open>%.12g\<close> makes of the number; \<open>snprintf\<close> writes at most 31 characters and a 0, and returns the full length.\<close>

definition format_double :: "byte list \<Rightarrow> fixed_buffer \<Rightarrow> fixed_buffer option" where
  "format_double printed b =
     (if kMaxNumericSize \<le> avail b then do {
        b \<leftarrow> fb_write (fb_cur b) (take (kMaxNumericSize - 1) printed @ [0]) b;
        Some (fb_add (length printed) b) }
      else Some b)"

definition Fmt :: "byte list \<Rightarrow> byte list option" where
  "Fmt printed = do {
     assert_that (length printed < 32);
     Some printed }"

text \<open>What can be inserted.\<close>

datatype log_item = LBool bool | LInt int | LPointer u64 | LDouble "byte list" | LChar byte | LString "byte list"

fun insert_item :: "log_item \<Rightarrow> fixed_buffer \<Rightarrow> fixed_buffer option" where
  "insert_item (LBool v) b = fb_append (if v then ascii ''1'' else ascii ''0'') b"
| "insert_item (LInt v) b = formatInteger v b"
| "insert_item (LPointer v) b = format_pointer v b"
| "insert_item (LDouble printed) b = format_double printed b"
| "insert_item (LChar v) b = fb_append [v] b"
| "insert_item (LString v) b = fb_append v b"

fun insert_items :: "log_item list \<Rightarrow> fixed_buffer \<Rightarrow> fixed_buffer option" where
  "insert_items [] b = Some b"
| "insert_items (x # xs) b = Option.bind (insert_item x b) (insert_items xs)"

section \<open>Conversions\<close>

lemma zero_at_digit:
  assumes "\<bar>d\<bar> < 10"
  shows "zero_at d = word_of_nat (48 + nat \<bar>d\<bar>)"
proof -
  have "d \<in> {-9, -8, -7, -6, -5, -4, -3, -2, -1, 0, 1, 2, 3, 4, 5, 6, 7, 8, 9}" using assms unfolding insert_iff empty_iff by presburger
  then show ?thesis by (auto simp: zero_at_def digit_table_def ascii_def)
qed

lemma sdiv_abs: "\<bar>i sdiv 10\<bar> = \<bar>i\<bar> div (10::int)" "\<bar>i smod 10\<bar> = \<bar>i\<bar> mod (10::int)"
proof -
  have d: "i sdiv 10 = (if i < 0 then - (- i div 10) else i div 10)" by (auto simp: signed_divide_int_def sgn_if)
  have m: "i smod 10 = (if i < 0 then - (- i mod 10) else i mod 10)" by (auto simp: signed_modulo_int_def sgn_if)
  show "\<bar>i sdiv 10\<bar> = \<bar>i\<bar> div 10" "\<bar>i smod 10\<bar> = \<bar>i\<bar> mod 10" unfolding d m by (cases "i < 0"; simp)+
qed

lemma convert_digits_rev: "rev (convert_digits i) = digits (nat \<bar>i\<bar>)"
proof (induction i rule: convert_digits.induct)
  case (1 i)
  have m: "zero_at (i smod 10) = word_of_nat (48 + nat \<bar>i\<bar> mod 10)"
    using zero_at_digit [of "i smod 10"] by (simp add: sdiv_abs nat_mod_distrib del: of_nat_add)
  have z: "i sdiv 10 = 0 \<longleftrightarrow> nat \<bar>i\<bar> < 10"
    using sdiv_abs(1) [of i] by (auto simp: div_eq_0_iff zdiv_eq_0_iff)
  have n: "nat \<bar>i sdiv 10\<bar> = nat \<bar>i\<bar> div 10" by (simp add: sdiv_abs nat_div_distrib)
  show ?case
  proof (cases "i sdiv 10 = 0")
    case True
    then show ?thesis using m z by (simp add: convert_digits.simps [of i] digits.simps [of "nat \<bar>i\<bar>"] del: of_nat_add)
  next
    case False
    then have "rev (convert_digits (i sdiv 10)) = digits (nat \<bar>i\<bar> div 10)" using 1 n by simp
    then show ?thesis using False m z by (simp add: convert_digits.simps [of i] digits.simps [of "nat \<bar>i\<bar>"] del: of_nat_add)
  qed
qed

lemma convert_eq: "convert v = (if v < 0 then 45 # digits (nat (- v)) else digits (nat v))"
  by (simp add: convert_def convert_digits_rev)

fun hex_value :: "byte list \<Rightarrow> nat" where
  "hex_value [] = 0"
| "hex_value (c # cs) = (if c \<le> 57 then unat c - 48 else unat c - 55) + 16 * hex_value cs"

lemma digitsHex_value: "d < 16 \<Longrightarrow> (if digitsHex ! d \<le> 57 then unat (digitsHex ! d) - 48 else unat (digitsHex ! d) - 55) = d"
proof -
  assume "d < 16"
  then have "d \<in> {0, 1, 2, 3, 4, 5, 6, 7, 8, 9, 10, 11, 12, 13, 14, 15}" unfolding insert_iff empty_iff by presburger
  then show ?thesis by (auto simp: digitsHex_def ascii_def)
qed

lemma convertHex_digits_value: "hex_value (convertHex_digits i) = i"
proof (induction i rule: convertHex_digits.induct)
  case (1 i)
  have v: "(if digitsHex ! (i mod 16) \<le> 57 then unat (digitsHex ! (i mod 16)) - 48 else unat (digitsHex ! (i mod 16)) - 55) = i mod 16"
    by (rule digitsHex_value) simp
  show ?case
  proof (cases "i div 16 = 0")
    case True
    then have "i mod 16 = i" by (simp add: div_eq_0_iff)
    with True v show ?thesis by (subst convertHex_digits.simps) (simp only: hex_value.simps, simp)
  next
    case False
    then have "hex_value (convertHex_digits (i div 16)) = i div 16" using 1 by simp
    then show ?thesis using False v by (subst convertHex_digits.simps) (simp only: hex_value.simps v, simp)
  qed
qed

lemma convertHex_digits_length: "i < 16 ^ k \<Longrightarrow> 0 < k \<Longrightarrow> length (convertHex_digits i) \<le> k"
proof (induction k arbitrary: i)
  case (Suc k)
  show ?case
  proof (cases "i div 16 = 0")
    case True
    then show ?thesis by (simp add: convertHex_digits.simps [of i])
  next
    case False
    then have "i div 16 < 16 ^ k" using Suc.prems(1) by (simp add: less_mult_imp_div_less mult.commute)
    moreover have "0 < k" using False calculation by (cases k) auto
    ultimately show ?thesis using Suc.IH False by (simp add: convertHex_digits.simps [of i])
  qed
qed simp

section \<open>Buffers\<close>

definition fb_ok :: "fixed_buffer \<Rightarrow> bool" where
  "fb_ok b \<longleftrightarrow> fb_cur b \<le> length (fb_data b)"

lemma fb_write_add:
  assumes "fb_ok b" "length bs \<le> length cs" "length cs \<le> avail b" "take (length bs) cs = bs"
  shows "\<exists>b'. fb_write (fb_cur b) cs b = Some b' \<and> fb_ok (fb_add (length bs) b') \<and> asString (fb_add (length bs) b') = asString b @ bs
    \<and> avail (fb_add (length bs) b') = avail b - length bs \<and> length (fb_data b') = length (fb_data b) \<and> fb_cur b' = fb_cur b"
proof -
  have f: "fb_cur b + length cs \<le> length (fb_data b)" using assms(1,3) by (simp add: fb_ok_def avail_def)
  have "take (fb_cur b + length bs) (blit (fb_cur b) cs (fb_data b)) = take (fb_cur b) (fb_data b) @ bs"
    using f assms(2,4) by (auto simp: blit_def)
  then show ?thesis using f assms(1,2) by (simp add: fb_write_def fb_ok_def avail_def fb_add_def asString_def)
qed

lemma fb_append_ok:
  assumes "fb_ok b"
  shows "\<exists>b'. fb_append bs b = Some b' \<and> fb_ok b' \<and> length (fb_data b') = length (fb_data b)
    \<and> asString b' = asString b @ (if length bs < avail b then bs else []) \<and> avail b' = avail b - (if length bs < avail b then length bs else 0)"
  using fb_write_add [OF assms, of bs bs] assms by (auto simp: fb_append_def fb_add_def)

lemma fb_reset_ok: "fb_ok (fb_reset b)" "asString (fb_reset b) = []" "avail (fb_reset b) = length (fb_data b)"
  by (simp_all add: fb_ok_def fb_reset_def asString_def avail_def)

lemma new_fixed_buffer_ok: "fb_ok (new_fixed_buffer g)" "asString (new_fixed_buffer g) = []" "avail (new_fixed_buffer g) = length g"
  by (simp_all add: fb_ok_def new_fixed_buffer_def asString_def avail_def)

lemma asString_length: "fb_ok b \<Longrightarrow> length (asString b) + avail b = length (fb_data b)"
  by (simp add: fb_ok_def asString_def avail_def)

text \<open>The text of an item, the room that it asks for, and what a sequence of items leaves in a buffer with \<open>n\<close> free bytes.\<close>

fun item_text :: "log_item \<Rightarrow> byte list" where
  "item_text (LBool v) = (if v then ascii ''1'' else ascii ''0'')"
| "item_text (LInt v) = convert v"
| "item_text (LPointer v) = ascii ''0x'' @ convertHex v"
| "item_text (LDouble printed) = printed"
| "item_text (LChar c) = [c]"
| "item_text (LString v) = v"

fun item_fits :: "log_item \<Rightarrow> nat \<Rightarrow> bool" where
  "item_fits (LInt v) n = (32 \<le> n)"
| "item_fits (LPointer v) n = (32 \<le> n)"
| "item_fits (LDouble printed) n = (32 \<le> n)"
| "item_fits x n = (length (item_text x) < n)"

fun kept :: "nat \<Rightarrow> log_item list \<Rightarrow> byte list" where
  "kept n [] = []"
| "kept n (x # xs) = (if item_fits x n then item_text x @ kept (n - length (item_text x)) xs else kept n xs)"

text \<open>Integers of at most 64 bits, and doubles as \<open>%.12g\<close> prints them.\<close>

fun item_ok :: "log_item \<Rightarrow> bool" where
  "item_ok (LInt v) = (- (2 ^ 63) \<le> v \<and> v < 2 ^ 64)"
| "item_ok (LDouble printed) = (length printed \<le> 31)"
| "item_ok x = True"

lemma convert_length: "- (2 ^ 63) \<le> v \<Longrightarrow> v < 2 ^ 64 \<Longrightarrow> length (convert v) \<le> 20"
  using length_digits [of "nat v" 20] length_digits [of "nat (- v)" 19] by (simp add: convert_eq nat_less_iff)

lemma convertHex_length: "length (convertHex v) \<le> 16"
  using convertHex_digits_length [of "unat v" 16] unsigned_less [of v, where 'a = nat] by (simp add: convertHex_def)

lemma insert_item_ok:
  assumes "fb_ok b" "item_ok x"
  shows "\<exists>b'. insert_item x b = Some b' \<and> fb_ok b' \<and> length (fb_data b') = length (fb_data b)
    \<and> asString b' = asString b @ (if item_fits x (avail b) then item_text x else [])
    \<and> avail b' = avail b - (if item_fits x (avail b) then length (item_text x) else 0)"
proof (cases x)
  case (LInt v)
  have l: "length (convert v) \<le> 20" using assms(2) LInt by (simp add: convert_length)
  show ?thesis
  proof (cases "32 \<le> avail b")
    case True
    then show ?thesis using fb_write_add [OF assms(1), of "convert v" "convert v @ [0]"] l LInt
      by (auto simp: formatInteger_def kMaxNumericSize_def fb_add_def)
  qed (use assms(1) LInt in \<open>simp add: formatInteger_def kMaxNumericSize_def\<close>)
next
  case (LPointer v)
  show ?thesis
  proof (cases "32 \<le> avail b")
    case True
    let ?h = "convertHex v"
    have l: "length ?h \<le> 16" by (rule convertHex_length)
    have f: "fb_cur b + 32 \<le> length (fb_data b)" using True assms(1) by (simp add: avail_def fb_ok_def)
    have t: "length (ascii ''0x'') = 2" by simp
    have "take (fb_cur b + (2 + length ?h)) (blit (fb_cur b + 2) (?h @ [0]) (blit (fb_cur b) (ascii ''0x'') (fb_data b)))
        = take (fb_cur b) (fb_data b) @ ascii ''0x'' @ ?h"
      using f l t by (simp add: blit_def min_def)
    then show ?thesis using LPointer True f l assms(1)
      by (simp add: format_pointer_def kMaxNumericSize_def fb_write_def fb_add_def fb_ok_def avail_def asString_def add.assoc)
  qed (use assms(1) LPointer in \<open>simp add: format_pointer_def kMaxNumericSize_def\<close>)
next
  case (LDouble printed)
  show ?thesis
  proof (cases "32 \<le> avail b")
    case True
    then show ?thesis using fb_write_add [OF assms(1), of printed "printed @ [0]"] assms(2) LDouble
      by (auto simp: format_double_def kMaxNumericSize_def fb_add_def)
  qed (use assms(1) LDouble in \<open>simp add: format_double_def kMaxNumericSize_def\<close>)
next
  case (LBool v)
  then show ?thesis using fb_append_ok [OF assms(1), of "ascii ''1''"] fb_append_ok [OF assms(1), of "ascii ''0''"] by (cases v; cases "1 < avail b") simp_all
next
  case (LChar c)
  then show ?thesis using fb_append_ok [OF assms(1), of "[c]"] by (cases "1 < avail b") simp_all
next
  case (LString v)
  then show ?thesis using fb_append_ok [OF assms(1), of v] by (cases "length v < avail b") simp_all
qed

lemma insert_items_ok:
  "fb_ok b \<Longrightarrow> list_all item_ok xs \<Longrightarrow> \<exists>b'. insert_items xs b = Some b' \<and> fb_ok b' \<and> length (fb_data b') = length (fb_data b)
    \<and> asString b' = asString b @ kept (avail b) xs"
proof (induction xs arbitrary: b)
  case (Cons x xs)
  from insert_item_ok [of b x] Cons.prems obtain b1 where b1: "insert_item x b = Some b1" "fb_ok b1" "length (fb_data b1) = length (fb_data b)"
    "asString b1 = asString b @ (if item_fits x (avail b) then item_text x else [])"
    "avail b1 = avail b - (if item_fits x (avail b) then length (item_text x) else 0)" by auto
  from Cons.IH [OF b1(2)] Cons.prems(2) b1 show ?case by auto
qed simp

lemma kept_all: "list_all item_ok xs \<Longrightarrow> length (concat (map item_text xs)) + 32 \<le> n \<Longrightarrow> kept n xs = concat (map item_text xs)"
proof (induction xs arbitrary: n)
  case (Cons x xs)
  have "item_fits x n" using Cons.prems(2) by (cases x) auto
  then show ?case using Cons by auto
qed simp

section \<open>Properties\<close>

text \<open>The table-driven conversion prints every integer as \<open>%d\<close> would, also the least of its type, whose negation would overflow, and the hexadecimal
  one reads back as the value.\<close>

theorem integers_printed:
  "convert v = (if v < 0 then 45 # digits (nat (- v)) else digits (nat v)) \<and> hex_value (rev (convertHex p)) = unat p"
  by (simp add: convert_eq convertHex_def convertHex_digits_value)

text \<open>Whatever is inserted, a log line never writes past its buffer; each item is kept or dropped whole, and as long as 32 bytes remain free nothing is
  dropped.\<close>

theorem log_line_bounded:
  assumes "fb_ok b" "list_all item_ok xs"
  shows "\<exists>b'. insert_items xs b = Some b' \<and> fb_ok b' \<and> asString b' = asString b @ kept (avail b) xs
    \<and> (length (concat (map item_text xs)) + 32 \<le> avail b \<longrightarrow> asString b' = asString b @ concat (map item_text xs))"
  using insert_items_ok [OF assms] kept_all [OF assms(2)] by auto

text \<open>An item that does not fit is dropped, but shorter ones after it are not: the line that remains is not a prefix of the line that was meant.\<close>

theorem line_with_a_hole:
  assumes "fb_ok b" "avail b \<le> length s" "1 < avail b"
  shows "\<exists>b'. insert_items [LString s, LChar 10] b = Some b' \<and> asString b' = asString b @ [10]"
  using insert_items_ok [OF assms(1), of "[LString s, LChar 10]"] assms(2,3) by auto

theorem log_line_bounded_witness:
  "\<exists>b'. insert_items [LString (ascii ''n = ''), LInt (- (2 ^ 63))] (new_fixed_buffer (replicate 100 0)) = Some b'
    \<and> asString b' = ascii ''n = '' @ convert (- (2 ^ 63))"
proof -
  have "length (convert (- (2 ^ 63))) \<le> 20" by (rule convert_length) simp_all
  then show ?thesis
    using log_line_bounded [OF new_fixed_buffer_ok(1), of "[LString (ascii ''n = ''), LInt (- (2 ^ 63))]" "replicate 100 0"]
    by (auto simp: new_fixed_buffer_ok)
qed

theorem line_with_a_hole_witness:
  "\<exists>b'. insert_items [LString (replicate 9 65), LChar 10] (new_fixed_buffer (replicate 8 0)) = Some b' \<and> asString b' = [10]"
  using line_with_a_hole [OF new_fixed_buffer_ok(1), of "replicate 8 0" "replicate 9 65"] by (simp add: new_fixed_buffer_ok)

end
