(* ===== verification/AsyncLogging.thy ===== *)
theory AsyncLogging
  imports LogStream
begin

text \<open>
  Logging in a thread of its own: \<open>muduo/base/AsyncLogging.cc\<close>. Threads append lines to a current buffer; full buffers wait in a vector until the
  writing thread swaps the vector for an empty one and gives it spare buffers in exchange. The file behind it is \<open>muduo/base/LogFile.cc\<close>.
\<close>

section \<open>AsyncLogging\<close>

text \<open>Where the writing thread is: testing \<open>running_\<close>, before its critical section, after it, or returned.\<close>

datatype writer_pc = LoopTest | Critical | Writing | Finished

text \<open>\<open>written\<close> are the texts given to the file. \<open>lines\<close> and \<open>drops\<close> are components of the model: the lines appended, and how often buffers were thrown away.\<close>

record async_log =
  running :: bool
  currentBuffer :: fixed_buffer
  nextBuffer :: "fixed_buffer option"
  buffers :: "fixed_buffer list"
  writer :: writer_pc
  newBuffer1 :: "fixed_buffer option"
  newBuffer2 :: "fixed_buffer option"
  buffersToWrite :: "fixed_buffer list"
  written :: "byte list list"
  lines :: "byte list list"
  drops :: nat

text \<open>\<open>n\<close> is the size of a buffer, \<open>kLargeBuffer\<close> in the code. The state when the thread has been started.\<close>

definition new_buf :: "nat \<Rightarrow> fixed_buffer" where
  "new_buf n = new_fixed_buffer (replicate n 0)"

definition new_async_log :: "nat \<Rightarrow> async_log" where
  "new_async_log n = \<lparr>running = True, currentBuffer = new_buf n, nextBuffer = Some (new_buf n), buffers = [], writer = LoopTest,
     newBuffer1 = Some (new_buf n), newBuffer2 = Some (new_buf n), buffersToWrite = [], written = [], lines = [], drops = 0\<rparr>"

definition async_append :: "nat \<Rightarrow> byte list \<Rightarrow> async_log \<Rightarrow> async_log option" where
  "async_append n logline s =
     (let s = s\<lparr>lines := lines s @ [logline]\<rparr> in
      if length logline < avail (currentBuffer s) then do {
        b \<leftarrow> fb_append logline (currentBuffer s);
        Some (s\<lparr>currentBuffer := b\<rparr>) }
      else do {
        let s = s\<lparr>buffers := buffers s @ [currentBuffer s]\<rparr>;
        let s = (case nextBuffer s of
                   Some b \<Rightarrow> s\<lparr>currentBuffer := b, nextBuffer := None\<rparr>
                 | None \<Rightarrow> s\<lparr>currentBuffer := new_buf n\<rparr>);
        b \<leftarrow> fb_append logline (currentBuffer s);
        Some (s\<lparr>currentBuffer := b\<rparr>) })"

definition async_stop :: "async_log \<Rightarrow> async_log" where
  "async_stop s = s\<lparr>running := False\<rparr>"

definition loop_test :: "async_log \<Rightarrow> async_log option" where
  "loop_test s =
     (if running s then do {
        b1 \<leftarrow> newBuffer1 s;
        assert_that (fb_cur b1 = 0);
        b2 \<leftarrow> newBuffer2 s;
        assert_that (fb_cur b2 = 0);
        assert_that (buffersToWrite s = []);
        Some (s\<lparr>writer := Critical\<rparr>) }
      else Some (s\<lparr>writer := Finished\<rparr>))"

text \<open>The critical section, from the end of the wait.\<close>

definition swap_buffers :: "async_log \<Rightarrow> async_log option" where
  "swap_buffers s = do {
     let s = s\<lparr>buffers := buffers s @ [currentBuffer s]\<rparr>;
     b1 \<leftarrow> newBuffer1 s;
     let s = s\<lparr>currentBuffer := b1, newBuffer1 := None\<rparr>;
     let s = s\<lparr>buffersToWrite := buffers s, buffers := buffersToWrite s\<rparr>;
     Some (if nextBuffer s = None then s\<lparr>nextBuffer := newBuffer2 s, newBuffer2 := None, writer := Writing\<rparr> else s\<lparr>writer := Writing\<rparr>) }"

text \<open>The message about dropped buffers; \<open>now\<close> is the text of the time.\<close>

definition dropped_note :: "byte list \<Rightarrow> nat \<Rightarrow> byte list" where
  "dropped_note now k = take 255 (ascii ''Dropped log messages at '' @ now @ ascii '', '' @ digits (k - 2) @ ascii '' larger buffers'' @ [10])"

definition write_buffers :: "byte list \<Rightarrow> async_log \<Rightarrow> async_log option" where
  "write_buffers now s = do {
     assert_that (buffersToWrite s \<noteq> []);
     let s = (if 25 < length (buffersToWrite s)
              then s\<lparr>written := written s @ [dropped_note now (length (buffersToWrite s))], buffersToWrite := take 2 (buffersToWrite s), drops := drops s + 1\<rparr> else s);
     let s = s\<lparr>written := written s @ map asString (buffersToWrite s)\<rparr>;
     let s = (if 2 < length (buffersToWrite s) then s\<lparr>buffersToWrite := take 2 (buffersToWrite s)\<rparr> else s);
     s \<leftarrow> (if newBuffer1 s = None then do {
             assert_that (buffersToWrite s \<noteq> []);
             Some (s\<lparr>newBuffer1 := Some (fb_reset (last (buffersToWrite s))), buffersToWrite := butlast (buffersToWrite s)\<rparr>) }
           else Some s);
     s \<leftarrow> (if newBuffer2 s = None then do {
             assert_that (buffersToWrite s \<noteq> []);
             Some (s\<lparr>newBuffer2 := Some (fb_reset (last (buffersToWrite s))), buffersToWrite := butlast (buffersToWrite s)\<rparr>) }
           else Some s);
     Some (s\<lparr>buffersToWrite := [], writer := LoopTest\<rparr>) }"

datatype log_label = Append "byte list" | Stop | WriterGoes "byte list"

fun async_step :: "nat \<Rightarrow> log_label \<Rightarrow> async_log \<Rightarrow> async_log option" where
  "async_step n (Append logline) s = async_append n logline s"
| "async_step n Stop s = Some (async_stop s)"
| "async_step n (WriterGoes now) s =
     (case writer s of
        LoopTest \<Rightarrow> loop_test s
      | Critical \<Rightarrow> swap_buffers s
      | Writing \<Rightarrow> write_buffers now s
      | Finished \<Rightarrow> Some s)"

inductive async_reach :: "nat \<Rightarrow> async_log \<Rightarrow> bool" for n where
  init: "async_reach n (new_async_log n)"
| step: "async_reach n s \<Longrightarrow> (\<And>d. l = Append d \<Longrightarrow> length d < n) \<Longrightarrow> async_step n l s = Some s' \<Longrightarrow> async_reach n s'"

fun async_steps :: "nat \<Rightarrow> log_label list \<Rightarrow> async_log \<Rightarrow> async_log option" where
  "async_steps n [] s = Some s"
| "async_steps n (l # ls) s = Option.bind (async_step n l s) (async_steps n ls)"

section \<open>Invariant\<close>

definition spare_buf :: "nat \<Rightarrow> fixed_buffer \<Rightarrow> bool" where
  "spare_buf n b \<longleftrightarrow> fb_cur b = 0 \<and> length (fb_data b) = n"

definition full_buf :: "nat \<Rightarrow> fixed_buffer \<Rightarrow> bool" where
  "full_buf n b \<longleftrightarrow> fb_ok b \<and> length (fb_data b) = n"

definition waiting_text :: "async_log \<Rightarrow> byte list" where
  "waiting_text s = concat (map asString (buffersToWrite s @ buffers s @ [currentBuffer s]))"

definition async_inv :: "nat \<Rightarrow> async_log \<Rightarrow> bool" where
  "async_inv n s \<longleftrightarrow> full_buf n (currentBuffer s) \<and> list_all (full_buf n) (buffers s) \<and> list_all (full_buf n) (buffersToWrite s)
     \<and> pred_option (spare_buf n) (nextBuffer s) \<and> pred_option (spare_buf n) (newBuffer1 s) \<and> pred_option (spare_buf n) (newBuffer2 s)
     \<and> (nextBuffer s = None \<longrightarrow> buffers s \<noteq> [])
     \<and> (if writer s = Writing then newBuffer1 s = None \<and> buffersToWrite s \<noteq> [] \<and> (newBuffer2 s = None \<longrightarrow> 2 \<le> length (buffersToWrite s))
        else newBuffer1 s \<noteq> None \<and> newBuffer2 s \<noteq> None \<and> buffersToWrite s = [])
     \<and> (drops s = 0 \<longrightarrow> concat (written s) @ waiting_text s = concat (lines s))"

lemma spare_full: "spare_buf n b \<Longrightarrow> full_buf n b" "spare_buf n b \<Longrightarrow> asString b = []" "spare_buf n b \<Longrightarrow> avail b = n"
  by (simp_all add: spare_buf_def full_buf_def fb_ok_def asString_def avail_def)

lemma new_buf_spare: "spare_buf n (new_buf n)"
  by (simp add: spare_buf_def new_buf_def new_fixed_buffer_def)

lemma reset_spare: "full_buf n b \<Longrightarrow> spare_buf n (fb_reset b)"
  by (simp add: spare_buf_def full_buf_def fb_reset_def)

lemma append_full:
  assumes "full_buf n b" "length d < avail b"
  shows "\<exists>b'. fb_append d b = Some b' \<and> full_buf n b' \<and> asString b' = asString b @ d"
  using fb_append_ok [of b d] assms by (auto simp: full_buf_def)

lemma async_inv_new: "async_inv n (new_async_log n)"
  using new_buf_spare [of n] by (simp add: async_inv_def new_async_log_def waiting_text_def spare_full)

lemma async_append_inv:
  assumes i: "async_inv n s" and d: "length d < n"
  shows "\<exists>s'. async_append n d s = Some s' \<and> async_inv n s'"
proof (cases "length d < avail (currentBuffer s)")
  case True
  have "full_buf n (currentBuffer s)" using i by (simp add: async_inv_def)
  from append_full [OF this True] obtain b where b: "fb_append d (currentBuffer s) = Some b" "full_buf n b" "asString b = asString (currentBuffer s) @ d"
    by blast
  then show ?thesis using i True by (auto simp: async_append_def async_inv_def waiting_text_def Let_def)
next
  case False
  define c where "c = (case nextBuffer s of Some b \<Rightarrow> b | None \<Rightarrow> new_buf n)"
  have c: "spare_buf n c" using i new_buf_spare by (auto simp: c_def async_inv_def split: option.splits)
  from append_full [OF spare_full(1) [OF c], of d] d spare_full(2,3) [OF c] obtain b where
    b: "fb_append d c = Some b" "full_buf n b" "asString b = d" by auto
  have "async_append n d s = Some (s\<lparr>lines := lines s @ [d], buffers := buffers s @ [currentBuffer s], currentBuffer := b, nextBuffer := None\<rparr>)"
    using False b(1) by (cases "nextBuffer s"; cases s) (simp_all add: async_append_def c_def Let_def)
  then show ?thesis using i b(2,3) by (auto simp: async_inv_def waiting_text_def)
qed

lemma loop_test_inv:
  assumes "async_inv n s" "writer s = LoopTest"
  shows "\<exists>s'. loop_test s = Some s' \<and> async_inv n s'"
  using assms by (auto simp: loop_test_def async_inv_def waiting_text_def spare_buf_def)

lemma swap_buffers_inv:
  assumes "async_inv n s" "writer s = Critical"
  shows "\<exists>s'. swap_buffers s = Some s' \<and> async_inv n s' \<and> writer s' = Writing \<and> buffers s' = [] \<and> asString (currentBuffer s') = []
    \<and> buffersToWrite s' = buffers s @ [currentBuffer s] \<and> lines s' = lines s \<and> written s' = written s \<and> drops s' = drops s"
proof -
  obtain b1 b2 where b: "newBuffer1 s = Some b1" "newBuffer2 s = Some b2" "spare_buf n b1" "spare_buf n b2"
    using assms by (auto simp: async_inv_def)
  note sp = spare_full [OF b(3)]
  have "nextBuffer s = None \<Longrightarrow> Suc 0 \<le> length (buffers s)" using assms(1) by (cases "buffers s") (auto simp: async_inv_def)
  then show ?thesis using assms b sp
    by (cases "nextBuffer s") (auto simp: swap_buffers_def async_inv_def waiting_text_def Let_def)
qed

lemma write_buffers_inv:
  assumes i: "async_inv n s" and w: "writer s = Writing"
  shows "\<exists>s'. write_buffers now s = Some s' \<and> async_inv n s' \<and> writer s' = LoopTest \<and> buffers s' = buffers s \<and> currentBuffer s' = currentBuffer s
    \<and> lines s' = lines s \<and> buffersToWrite s' = []
    \<and> written s' = written s @ (if 25 < length (buffersToWrite s) then dropped_note now (length (buffersToWrite s)) # map asString (take 2 (buffersToWrite s)) else map asString (buffersToWrite s))
    \<and> drops s' = drops s + (if 25 < length (buffersToWrite s) then 1 else 0)"
proof -
  let ?ws = "buffersToWrite s"
  have ne: "?ws \<noteq> []" "newBuffer1 s = None" "newBuffer2 s = None \<Longrightarrow> 2 \<le> length ?ws" "list_all (full_buf n) ?ws"
    using i w by (simp_all add: async_inv_def)
  define ks where "ks = take 2 ?ws"
  have ks: "ks \<noteq> []" "length ks \<le> 2" "newBuffer2 s = None \<Longrightarrow> 2 \<le> length ks" "list_all (full_buf n) ks"
    using ne by (auto simp: ks_def list_all_iff dest: in_set_takeD)
  have cut: "(if 2 < length xs then take 2 xs else xs) = take 2 xs" for xs :: "fixed_buffer list" by simp
  define b1 where "b1 = fb_reset (last ks)"
  define b2 where "b2 = (if newBuffer2 s = None then Some (fb_reset (last (butlast ks))) else newBuffer2 s)"
  define out where "out = (if 25 < length ?ws then dropped_note now (length ?ws) # map asString ks else map asString ?ws)"
  define s' where "s' = s\<lparr>written := written s @ out, drops := drops s + (if 25 < length ?ws then 1 else 0), newBuffer1 := Some b1, newBuffer2 := b2,
    buffersToWrite := [], writer := LoopTest\<rparr>"
  have b1: "spare_buf n b1" using ks(1,4) by (auto simp: b1_def list_all_iff intro: reset_spare)
  have bl: "newBuffer2 s = None \<Longrightarrow> butlast ks \<noteq> []" using ks(3) by (cases ks; cases "tl ks") auto
  then have "newBuffer2 s = None \<Longrightarrow> last (butlast ks) \<in> set ks" using last_in_set in_set_butlastD by metis
  then have b2: "pred_option (spare_buf n) b2" "b2 \<noteq> None"
    using i ks(4) by (auto simp: b2_def async_inv_def list_all_iff intro: reset_spare)
  have "write_buffers now s = Some s'"
  proof (cases "25 < length ?ws")
    case True
    then have "\<not> 2 < length ks" using ks(2) by simp
    then show ?thesis using True ne(1,2) ks(1) bl
      by (cases s) (auto simp: write_buffers_def s'_def out_def b1_def b2_def ks_def Let_def)
  next
    case False
    have t: "(if 2 < length ?ws then s\<lparr>buffersToWrite := take 2 ?ws\<rparr> else s) = s\<lparr>buffersToWrite := ks\<rparr>" by (cases s) (simp add: ks_def)
    show ?thesis
      by (cases "2 < length ?ws"; cases s) (use False ne(1,2) ks(1) bl in \<open>simp_all add: write_buffers_def s'_def out_def b1_def b2_def ks_def Let_def\<close>)
  qed
  moreover have "async_inv n s'"
  proof -
    have "drops s' = 0 \<longrightarrow> concat (written s') @ waiting_text s' = concat (lines s')"
      using i by (auto simp: s'_def out_def async_inv_def waiting_text_def split: if_splits)
    then show ?thesis using i b1 b2 by (simp add: s'_def async_inv_def)
  qed
  ultimately show ?thesis by (simp add: s'_def out_def ks_def)
qed

lemma async_step_inv:
  assumes "async_inv n s" "\<And>d. l = Append d \<Longrightarrow> length d < n"
  shows "\<exists>s'. async_step n l s = Some s' \<and> async_inv n s'"
proof (cases l)
  case (Append d)
  then show ?thesis using async_append_inv [OF assms(1), of d] assms(2) by simp
next
  case Stop
  then show ?thesis using assms(1) by (simp add: async_stop_def async_inv_def waiting_text_def)
next
  case (WriterGoes now)
  then show ?thesis using assms(1) loop_test_inv [of n s] swap_buffers_inv [of n s] write_buffers_inv [of n s now]
    by (cases "writer s") auto
qed

lemma async_reach_inv: "async_reach n s \<Longrightarrow> async_inv n s"
proof (induction rule: async_reach.induct)
  case (step s l s')
  then show ?case using async_step_inv [of n s l] by auto
qed (rule async_inv_new)

lemma async_append_keeps:
  assumes "async_append n d s = Some s'"
  shows "writer s' = writer s \<and> buffersToWrite s' = buffersToWrite s \<and> written s' = written s \<and> drops s' = drops s \<and> running s' = running s
    \<and> newBuffer1 s' = newBuffer1 s \<and> newBuffer2 s' = newBuffer2 s \<and> lines s' = lines s @ [d]"
  using assms by (auto simp: async_append_def Let_def Option.bind_eq_Some_conv split: if_splits option.splits)

lemma async_appends:
  assumes "async_inv n s" "list_all (\<lambda>d. length d < n) ds"
  shows "\<exists>s'. async_steps n (map Append ds) s = Some s' \<and> async_inv n s' \<and> writer s' = writer s \<and> buffersToWrite s' = buffersToWrite s
    \<and> written s' = written s \<and> drops s' = drops s"
  using assms
proof (induction ds arbitrary: s)
  case (Cons d ds)
  then have d: "length d < n" and ds: "list_all (\<lambda>d. length d < n) ds" by simp_all
  from async_append_inv [OF Cons.prems(1) d] obtain s1 where s1: "async_append n d s = Some s1" "async_inv n s1" by blast
  from Cons.IH [OF s1(2) ds] async_append_keeps [OF s1(1)] s1(1) show ?case by auto
qed simp

lemma async_steps_append: "async_steps n (ks @ ls) s = Option.bind (async_steps n ks s) (async_steps n ls)"
  by (induction ks arbitrary: s) (auto split: bind_split)

lemma async_reach_steps:
  "async_reach n s \<Longrightarrow> list_all (\<lambda>l. \<forall>d. l = Append d \<longrightarrow> length d < n) ls \<Longrightarrow> async_reach n (the (async_steps n ls s))"
proof (induction ls arbitrary: s)
  case (Cons l ls)
  from async_step_inv [OF async_reach_inv [OF Cons.prems(1)], of l] Cons.prems(2) obtain s1 where s1: "async_step n l s = Some s1" by auto
  have "async_reach n s1" by (rule async_reach.step [OF Cons.prems(1) _ s1]) (use Cons.prems(2) in auto)
  from Cons.IH [OF this] Cons.prems(2) s1 show ?case by simp
qed simp

lemma async_finished: "writer s = Finished \<Longrightarrow> async_steps n (map WriterGoes ts) s = Some s"
  by (induction ts) simp_all

section \<open>Properties\<close>

text \<open>No assertion of the writing thread fails and no missing buffer is used, however appends, the stop and the writing thread interleave, as long as
  every line is shorter than a buffer.\<close>

theorem async_asserts_hold:
  assumes "async_reach n s" "\<And>d. l = Append d \<Longrightarrow> length d < n"
  shows "async_step n l s \<noteq> None"
  using async_step_inv [OF async_reach_inv [OF assms(1)] assms(2)] by auto

theorem async_asserts_hold_witness: "async_step 4 (Append [65, 66, 67]) (new_async_log 4) \<noteq> None"
  by (rule async_asserts_hold [OF async_reach.init]) simp

text \<open>As long as no buffers were dropped, the texts written to the file and those still in the buffers are together exactly the lines appended, in order:
  none is lost, cut, doubled or moved.\<close>

theorem log_complete:
  assumes "async_reach n s" "drops s = 0"
  shows "concat (written s) @ waiting_text s = concat (lines s)"
  using async_reach_inv [OF assms(1)] assms(2) by (simp add: async_inv_def)

theorem log_complete_witness:
  "let s = the (async_steps 4 [Append [65, 66], Append [67, 68, 69], WriterGoes [], WriterGoes [], Append [70], WriterGoes []] (new_async_log 4))
   in concat (written s) @ waiting_text s = concat (lines s) \<and> written s = [[65, 66], [67, 68, 69]] \<and> waiting_text s = [70]"
proof -
  have "drops (the (async_steps 4 [Append [65, 66], Append [67, 68, 69], WriterGoes [], WriterGoes [], Append [70], WriterGoes []] (new_async_log 4))) = 0"
    by code_simp
  from log_complete [OF async_reach_steps [OF async_reach.init] this]
  have "let s = the (async_steps 4 [Append [65, 66], Append [67, 68, 69], WriterGoes [], WriterGoes [], Append [70], WriterGoes []] (new_async_log 4))
    in concat (written s) @ waiting_text s = concat (lines s)" by (simp only: Let_def) simp
  moreover have "let s = the (async_steps 4 [Append [65, 66], Append [67, 68, 69], WriterGoes [], WriterGoes [], Append [70], WriterGoes []] (new_async_log 4))
    in written s = [[65, 66], [67, 68, 69]] \<and> waiting_text s = [70]"
    by code_simp
  ultimately show ?thesis by (simp only: Let_def simp_thms)
qed

text \<open>What has been appended when the writing thread enters its critical section is in the file, all of it, when the thread has written: whatever is
  appended meanwhile. At most 24 full buffers were waiting.\<close>

theorem lines_reach_file:
  assumes "async_reach n s" "writer s = Critical" "length (buffers s) < 25" "drops s = 0" "list_all (\<lambda>d. length d < n) ds"
  shows "\<exists>s'. async_steps n (WriterGoes u # map Append ds @ [WriterGoes now]) s = Some s' \<and> concat (written s') = concat (lines s)"
proof -
  have i: "async_inv n s" using async_reach_inv [OF assms(1)] .
  have all: "concat (written s) @ waiting_text s = concat (lines s)" using i assms(4) by (simp add: async_inv_def)
  have none: "buffersToWrite s = []" using i assms(2) by (simp add: async_inv_def)
  from swap_buffers_inv [OF i assms(2)] obtain s1 where s1: "swap_buffers s = Some s1" "async_inv n s1" "writer s1 = Writing"
    "buffersToWrite s1 = buffers s @ [currentBuffer s]" "written s1 = written s" by blast
  from async_appends [OF s1(2) assms(5)] obtain s2 where s2: "async_steps n (map Append ds) s1 = Some s2" "async_inv n s2" "writer s2 = Writing"
    "buffersToWrite s2 = buffers s @ [currentBuffer s]" "written s2 = written s" using s1 by auto
  from write_buffers_inv [OF s2(2,3), of now] assms(3) s2(4) obtain s3 where s3: "write_buffers now s2 = Some s3"
    "written s3 = written s2 @ map asString (buffersToWrite s2)" by auto
  have "async_steps n (WriterGoes u # map Append ds @ [WriterGoes now]) s = Some s3"
    using assms(2) s1(1) s2(1,3) s3(1) by (simp add: async_steps_append)
  moreover have "concat (written s3) = concat (lines s)" using all none s3(2) s2(4,5) by (simp add: waiting_text_def)
  ultimately show ?thesis by blast
qed

lemma critical_reach: "length d < n \<Longrightarrow> \<exists>s. async_steps n [Append d, WriterGoes []] (new_async_log n) = Some s \<and> async_reach n s \<and> writer s = Critical
    \<and> buffers s = [] \<and> drops s = 0 \<and> lines s = [d]"
proof -
  assume d: "length d < n"
  let ?s0 = "new_async_log n"
  from async_append_inv [OF async_inv_new d] obtain s1 where s1: "async_append n d ?s0 = Some s1" by blast
  have av: "avail (currentBuffer ?s0) = n" using new_buf_spare [of n] by (simp add: new_async_log_def spare_full)
  have r1: "async_reach n s1" by (rule async_reach.step [OF async_reach.init, of "Append d"]) (use d s1 in simp_all)
  have k: "writer s1 = LoopTest \<and> running s1 \<and> drops s1 = 0 \<and> lines s1 = [d]"
    using async_append_keeps [OF s1] by (simp add: new_async_log_def)
  have "buffers s1 = []"
    using s1 d av by (auto simp: async_append_def Let_def new_async_log_def Option.bind_eq_Some_conv)
  moreover from loop_test_inv [OF async_reach_inv [OF r1]] k obtain s2 where s2: "loop_test s1 = Some s2" by auto
  moreover have r2: "async_reach n s2" by (rule async_reach.step [OF r1, of "WriterGoes []"]) (use k s2 in simp_all)
  moreover have "writer s2 = Critical \<and> buffers s2 = buffers s1 \<and> drops s2 = drops s1 \<and> lines s2 = lines s1"
    using s2 k by (auto simp: loop_test_def Option.bind_eq_Some_conv split: if_splits)
  ultimately show ?thesis using k s1 by auto
qed

theorem lines_reach_file_witness:
  "\<exists>s s'. async_steps 4 [Append [65, 66], WriterGoes []] (new_async_log 4) = Some s
    \<and> async_steps 4 (WriterGoes [] # map Append [[67], [68]] @ [WriterGoes []]) s = Some s' \<and> concat (written s') = [65, 66]"
proof -
  from critical_reach [of "[65, 66]" 4] obtain s where
    s: "async_steps 4 [Append [65, 66], WriterGoes []] (new_async_log 4) = Some s" "async_reach 4 s" "writer s = Critical" "buffers s = []" "drops s = 0"
      "lines s = [[65, 66]]" by auto
  have "\<exists>s'. async_steps 4 (WriterGoes [] # map Append [[67], [68]] @ [WriterGoes []]) s = Some s' \<and> concat (written s') = concat (lines s)"
    by (rule lines_reach_file [OF s(2,3)]) (use s in simp_all)
  then show ?thesis using s(1,6) by auto
qed

text \<open>When 25 or more full buffers are waiting, all but the first two are thrown away: their lines are in no buffer and no text afterwards, only a note
  with their number.\<close>

theorem burst_dropped:
  assumes "async_reach n s" "writer s = Critical" "25 \<le> length (buffers s)"
  shows "\<exists>s'. async_steps n [WriterGoes u, WriterGoes now] s = Some s' \<and> waiting_text s' = [] \<and> lines s' = lines s
    \<and> written s' = written s @ dropped_note now (length (buffers s) + 1) # map asString (take 2 (buffers s))"
proof -
  have i: "async_inv n s" using async_reach_inv [OF assms(1)] .
  from swap_buffers_inv [OF i assms(2)] obtain s1 where s1: "swap_buffers s = Some s1" "async_inv n s1" "writer s1 = Writing" "buffers s1 = []"
    "asString (currentBuffer s1) = []" "buffersToWrite s1 = buffers s @ [currentBuffer s]" "lines s1 = lines s" "written s1 = written s" by blast
  from write_buffers_inv [OF s1(2,3), of now] assms(3) s1 obtain s2 where "write_buffers now s1 = Some s2" "buffers s2 = []"
    "currentBuffer s2 = currentBuffer s1" "lines s2 = lines s" "buffersToWrite s2 = []"
    "written s2 = written s @ dropped_note now (length (buffers s) + 1) # map asString (take 2 (buffers s))" by auto
  then show ?thesis using s1 assms(2) by (simp add: waiting_text_def)
qed

theorem burst_dropped_witness:
  "\<exists>s'. async_steps 2 [WriterGoes [], WriterGoes []] (the (async_steps 2 (WriterGoes [] # replicate 26 (Append [65])) (new_async_log 2))) = Some s'
    \<and> waiting_text s' = [] \<and> drop 1 (written s') = [[65], [65]]"
proof -
  let ?s = "the (async_steps 2 (WriterGoes [] # replicate 26 (Append [65])) (new_async_log 2))"
  have "writer ?s = Critical" "25 \<le> length (buffers ?s)" "written ?s = []" "map asString (take 2 (buffers ?s)) = [[65], [65]]" by code_simp+
  with burst_dropped [OF async_reach_steps [OF async_reach.init], of 2 "WriterGoes [] # replicate 26 (Append [65])" "[]" "[]"]
  show ?thesis by (auto simp: list_all_iff)
qed

text \<open>A line appended when the writing thread is about to test \<open>running_\<close>, just before the logging is stopped, is never written: the thread returns
  with the line in the buffer.\<close>

theorem stop_loses_lines:
  assumes "async_reach n s" "writer s = LoopTest" "length d < n"
  shows "\<exists>s'. async_steps n [Append d, Stop, WriterGoes u] s = Some s' \<and> writer s' = Finished \<and> written s' = written s \<and> lines s' = lines s @ [d]
    \<and> (\<forall>ts. async_steps n (map WriterGoes ts) s' = Some s')"
proof -
  from async_append_inv [OF async_reach_inv [OF assms(1)] assms(3)] obtain s1 where s1: "async_append n d s = Some s1" by blast
  let ?s = "async_stop s1\<lparr>writer := Finished\<rparr>"
  have "async_steps n [Append d, Stop, WriterGoes u] s = Some ?s"
    using s1 async_append_keeps [OF s1] assms(2) by (simp add: loop_test_def async_stop_def)
  moreover have "writer ?s = Finished \<and> written ?s = written s \<and> lines ?s = lines s @ [d]"
    using async_append_keeps [OF s1] by (simp add: async_stop_def)
  ultimately show ?thesis using async_finished [of ?s] by blast
qed

theorem stop_loses_lines_witness:
  "\<exists>s'. async_steps 4 [Append [65], Stop, WriterGoes []] (new_async_log 4) = Some s' \<and> writer s' = Finished \<and> written s' = [] \<and> lines s' = [[65]]
    \<and> (\<forall>ts. async_steps 4 (map WriterGoes ts) s' = Some s')"
  using stop_loses_lines [OF async_reach.init, of 4 "[65]" "[]"] by (simp add: new_async_log_def)

end
