(* ===== verification/LogFile.thy ===== *)
theory LogFile
  imports AsyncLogging
begin

text \<open>
  The file behind the log: \<open>muduo/base/LogFile.cc\<close>. It is rolled, that is closed and replaced by one with a new name, when it has grown past a size or a new
  day has begun. The calls of \<open>fwrite\<close> have their results as arguments, and \<open>time\<close> the times it returns.
\<close>

section \<open>LogFile::File\<close>

text \<open>\<open>stored\<close> are the bytes that \<open>fwrite\<close> accepted; the first \<open>flushed\<close> of them have left the buffer of the stream.\<close>

record log_handle =
  path :: "byte list"
  stored :: "byte list"
  flushed :: nat
  writtenBytes :: nat

definition open_file :: "byte list \<Rightarrow> log_handle" where
  "open_file filename = \<lparr>path = filename, stored = [], flushed = 0, writtenBytes = 0\<rparr>"

definition handle_flush :: "log_handle \<Rightarrow> log_handle" where
  "handle_flush f = f\<lparr>flushed := length (stored f)\<rparr>"

text \<open>One \<open>fwrite\<close>: the number of bytes accepted, all of them when no result is given.\<close>

definition fwrite_result :: "nat list \<Rightarrow> byte list \<Rightarrow> nat" where
  "fwrite_result rs bs = (case rs of [] \<Rightarrow> length bs | r # _ \<Rightarrow> min r (length bs))"

definition handle_write :: "nat list \<Rightarrow> byte list \<Rightarrow> log_handle \<Rightarrow> log_handle \<times> nat" where
  "handle_write rs bs f = (let n = fwrite_result rs bs in (f\<lparr>stored := stored f @ take n bs\<rparr>, n))"

function write_rest :: "nat list \<Rightarrow> byte list \<Rightarrow> log_handle \<Rightarrow> log_handle" where
  "write_rest rs bs f =
     (if bs = [] then f
      else (let (f, x) = handle_write rs bs f in
            if x = 0 then f else write_rest (tl rs) (drop x bs) f))"
  by pat_completeness auto
termination
  by (relation "measure (\<lambda>(rs, bs, f). length bs)") (auto simp: handle_write_def Let_def)

declare write_rest.simps [simp del]

definition handle_append :: "nat list \<Rightarrow> byte list \<Rightarrow> log_handle \<Rightarrow> log_handle" where
  "handle_append rs bs f =
     (let (f, n) = handle_write rs bs f;
          f = write_rest (tl rs) (drop n bs) f
      in f\<lparr>writtenBytes := writtenBytes f + length bs\<rparr>)"

section \<open>LogFile\<close>

text \<open>\<open>closed\<close> are the files that have been closed, a component of the model.\<close>

record log_file =
  basename :: "byte list"
  rollSize :: nat
  flushInterval :: int
  lf_count :: nat
  startOfPeriod :: int
  lastRoll :: int
  lastFlush :: int
  handle :: "log_handle option"
  closed :: "log_handle list"

definition kCheckTimeRoll :: nat where "kCheckTimeRoll = 1024"

definition kRollPerSeconds :: int where "kRollPerSeconds = 60 * 60 * 24"

text \<open>\<open>utc\<close> is the text of a time in UTC, as \<open>strftime\<close> makes it.\<close>

definition getLogFileName :: "(int \<Rightarrow> byte list) \<Rightarrow> byte list \<Rightarrow> nat \<Rightarrow> byte list \<Rightarrow> int \<Rightarrow> byte list" where
  "getLogFileName utc hostname pid base now =
     base @ ascii ''.'' @ utc now @ ascii ''.'' @ hostname @ (ascii ''.'' @ digits pid) @ ascii ''.log''"

text \<open>The name as a function of the time, for the process in which it runs.\<close>

type_synonym naming = "byte list \<Rightarrow> int \<Rightarrow> byte list"

definition rollFile :: "naming \<Rightarrow> int \<Rightarrow> log_file \<Rightarrow> log_file" where
  "rollFile name now lf =
     (let start = now div kRollPerSeconds * kRollPerSeconds in
      if lastRoll lf < now
      then lf\<lparr>lastRoll := now, lastFlush := now, startOfPeriod := start,
              closed := closed lf @ map handle_flush (case handle lf of None \<Rightarrow> [] | Some f \<Rightarrow> [f]),
              handle := Some (open_file (name (basename lf) now))\<rparr>
      else lf)"

definition new_log_file :: "naming \<Rightarrow> int \<Rightarrow> byte list \<Rightarrow> nat \<Rightarrow> int \<Rightarrow> log_file option" where
  "new_log_file name now base roll interval = do {
     assert_that (47 \<notin> set base);
     Some (rollFile name now \<lparr>basename = base, rollSize = roll, flushInterval = interval, lf_count = 0, startOfPeriod = 0, lastRoll = 0, lastFlush = 0,
       handle = None, closed = []\<rparr>) }"

text \<open>\<open>now\<close> is what \<open>time\<close> returns here, \<open>now'\<close> what it returns in \<open>rollFile\<close>. There is no file only if the clock stood at 0 or before in the constructor;
  then its use is \<open>None\<close>.\<close>

definition append_unlocked :: "naming \<Rightarrow> int \<Rightarrow> int \<Rightarrow> nat list \<Rightarrow> byte list \<Rightarrow> log_file \<Rightarrow> log_file option" where
  "append_unlocked name now now' rs logline lf = do {
     f \<leftarrow> handle lf;
     let f = handle_append rs logline f;
     let lf = lf\<lparr>handle := Some f\<rparr>;
     Some (if rollSize lf < writtenBytes f then rollFile name now' lf
           else if kCheckTimeRoll < lf_count lf then
             (let lf = lf\<lparr>lf_count := 0\<rparr>;
                  thisPeriod = now div kRollPerSeconds * kRollPerSeconds
              in if thisPeriod \<noteq> startOfPeriod lf then rollFile name now' lf
                 else if flushInterval lf < now - lastFlush lf then lf\<lparr>lastFlush := now, handle := Some (handle_flush f)\<rparr>
                 else lf)
           else lf\<lparr>lf_count := lf_count lf + 1\<rparr>) }"

definition lf_flush :: "log_file \<Rightarrow> log_file option" where
  "lf_flush lf = map_option (\<lambda>f. lf\<lparr>handle := Some (handle_flush f)\<rparr>) (handle lf)"

datatype file_call = FAppend int int "nat list" "byte list" | FFlush

fun file_step :: "naming \<Rightarrow> file_call \<Rightarrow> log_file \<Rightarrow> log_file option" where
  "file_step name (FAppend now now' rs d) lf = append_unlocked name now now' rs d lf"
| "file_step name FFlush lf = lf_flush lf"

fun file_steps :: "naming \<Rightarrow> file_call list \<Rightarrow> log_file \<Rightarrow> log_file option" where
  "file_steps name [] lf = Some lf"
| "file_steps name (c # cs) lf = Option.bind (file_step name c lf) (file_steps name cs)"

text \<open>The files, the oldest first, and what is in them.\<close>

definition log_files :: "log_file \<Rightarrow> log_handle list" where
  "log_files lf = closed lf @ (case handle lf of None \<Rightarrow> [] | Some f \<Rightarrow> [f])"

definition logged_text :: "log_file \<Rightarrow> byte list" where
  "logged_text lf = concat (map stored (log_files lf))"

fun call_text :: "file_call \<Rightarrow> byte list" where
  "call_text (FAppend now now' rs d) = d"
| "call_text FFlush = []"

section \<open>Writing\<close>

text \<open>\<open>fwrite\<close> makes progress: no result is 0.\<close>

definition progresses :: "nat list \<Rightarrow> bool" where
  "progresses rs \<longleftrightarrow> list_all (\<lambda>r. 0 < r) rs"

lemma handle_write_eq:
  "handle_write rs bs f = (f\<lparr>stored := stored f @ take (fwrite_result rs bs) bs\<rparr>, fwrite_result rs bs)"
  by (simp add: handle_write_def Let_def)

lemma fwrite_pos: "progresses rs \<Longrightarrow> bs \<noteq> [] \<Longrightarrow> 0 < fwrite_result rs bs"
  by (auto simp: fwrite_result_def progresses_def split: list.splits)

lemma progresses_tl: "progresses rs \<Longrightarrow> progresses (tl rs)"
  by (cases rs) (simp_all add: progresses_def)

lemma write_rest_stored: "progresses rs \<Longrightarrow> write_rest rs bs f = f\<lparr>stored := stored f @ bs\<rparr>"
proof (induction rs bs f rule: write_rest.induct)
  case (1 rs bs f)
  show ?case
  proof (cases "bs = []")
    case True
    then show ?thesis by (simp add: write_rest.simps)
  next
    case False
    from fwrite_pos [OF 1(2) False] have p: "fwrite_result rs bs \<noteq> 0" by simp
    from 1(1) [OF False handle_write_eq [symmetric] refl p progresses_tl [OF 1(2)]] have
      "write_rest (tl rs) (drop (fwrite_result rs bs) bs) (f\<lparr>stored := stored f @ take (fwrite_result rs bs) bs\<rparr>) = f\<lparr>stored := stored f @ bs\<rparr>"
      by simp
    then show ?thesis using False p by (subst write_rest.simps) (simp add: handle_write_eq)
  qed
qed

lemma handle_append_stored:
  "progresses rs \<Longrightarrow> handle_append rs bs f = f\<lparr>stored := stored f @ bs, writtenBytes := writtenBytes f + length bs\<rparr>"
  by (simp add: handle_append_def handle_write_eq write_rest_stored progresses_tl)

lemma write_rest_keeps: "path (write_rest rs bs f) = path f \<and> writtenBytes (write_rest rs bs f) = writtenBytes f \<and> flushed (write_rest rs bs f) = flushed f
    \<and> (\<exists>n. stored (write_rest rs bs f) = stored f @ take n bs)"
proof (induction rs bs f rule: write_rest.induct)
  case (1 rs bs f)
  let ?n = "fwrite_result rs bs"
  note IH = 1 [OF _ handle_write_eq [symmetric] refl]
  show ?case
  proof (cases "bs = [] \<or> ?n = 0")
    case True
    then show ?thesis by (subst (1 2 3 4) write_rest.simps) (auto simp: handle_write_eq)
  next
    case False
    then have e: "write_rest rs bs f = write_rest (tl rs) (drop ?n bs) (f\<lparr>stored := stored f @ take ?n bs\<rparr>)"
      by (subst write_rest.simps) (simp add: handle_write_eq)
    from IH False obtain m where
      "stored (write_rest rs bs f) = stored f @ take ?n bs @ take m (drop ?n bs)" unfolding e by auto
    then have "stored (write_rest rs bs f) = stored f @ take (?n + m) bs" by (simp add: take_add)
    then show ?thesis using IH False unfolding e by auto
  qed
qed

lemma handle_append_keeps:
  "path (handle_append rs bs f) = path f \<and> writtenBytes (handle_append rs bs f) = writtenBytes f + length bs \<and> flushed (handle_append rs bs f) = flushed f
    \<and> (\<exists>n. stored (handle_append rs bs f) = stored f @ take n bs)"
proof -
  let ?n = "fwrite_result rs bs"
  let ?f = "f\<lparr>stored := stored f @ take ?n bs\<rparr>"
  from write_rest_keeps [of "tl rs" "drop ?n bs" ?f] obtain m where
    k: "stored (write_rest (tl rs) (drop ?n bs) ?f) = stored f @ take ?n bs @ take m (drop ?n bs)" by auto
  have "take ?n bs @ take m (drop ?n bs) = take (?n + m) bs" by (simp add: take_add)
  with k write_rest_keeps [of "tl rs" "drop ?n bs" ?f] show ?thesis by (auto simp: handle_append_def handle_write_eq)
qed

section \<open>Invariant\<close>

text \<open>The files were opened at increasing times, the last at \<open>lastRoll\<close>; what is closed is flushed.\<close>

definition rolled_at :: "naming \<Rightarrow> int list \<Rightarrow> log_file \<Rightarrow> bool" where
  "rolled_at name ts lf \<longleftrightarrow> sorted_wrt (<) ts \<and> ts \<noteq> [] \<and> last ts = lastRoll lf \<and> handle lf \<noteq> None \<and> 0 < hd ts
     \<and> startOfPeriod lf = lastRoll lf div kRollPerSeconds * kRollPerSeconds
     \<and> map path (log_files lf) = map (name (basename lf)) ts
     \<and> list_all (\<lambda>f. flushed f = length (stored f)) (closed lf)"

lemma strict_sorted_snoc: "sorted_wrt (<) (ts @ [t]) \<longleftrightarrow> sorted_wrt (<) ts \<and> (\<forall>u\<in>set ts. u < t)"
  by (simp add: sorted_wrt_append)

lemma strict_sorted_last: "sorted_wrt (<) ts \<Longrightarrow> ts \<noteq> [] \<Longrightarrow> u \<in> set ts \<Longrightarrow> u \<le> (last ts :: int)"
  by (induction ts rule: rev_induct) (auto simp: sorted_wrt_append)

lemma handle_flush_path [simp]: "path (handle_flush f) = path f" "stored (handle_flush f) = stored f" "flushed (handle_flush f) = length (stored f)"
  "writtenBytes (handle_flush f) = writtenBytes f"
  by (simp_all add: handle_flush_def)

lemma rollFile_rolled:
  assumes "rolled_at name ts lf"
  shows "rolled_at name (if lastRoll lf < now then ts @ [now] else ts) (rollFile name now lf)"
proof (cases "lastRoll lf < now")
  case True
  from assms obtain f where f: "handle lf = Some f" by (auto simp: rolled_at_def)
  have "\<forall>u\<in>set ts. u < now" using strict_sorted_last [of ts] assms True by (fastforce simp: rolled_at_def)
  then show ?thesis using assms True f
    by (simp add: rolled_at_def rollFile_def Let_def log_files_def strict_sorted_snoc open_file_def)
qed (use assms in \<open>simp add: rollFile_def Let_def\<close>)

lemma rollFile_keeps [simp]: "logged_text (rollFile name now lf) = logged_text lf" "basename (rollFile name now lf) = basename lf"
  "rollSize (rollFile name now lf) = rollSize lf" "flushInterval (rollFile name now lf) = flushInterval lf"
  by (simp_all add: rollFile_def Let_def logged_text_def log_files_def open_file_def split: option.split)

lemma new_log_file_rolled:
  assumes "0 < now" "47 \<notin> set base"
  shows "\<exists>lf. new_log_file name now base roll interval = Some lf \<and> rolled_at name [now] lf \<and> basename lf = base \<and> rollSize lf = roll
    \<and> logged_text lf = [] \<and> lf_count lf = 0 \<and> handle lf = Some (open_file (name base now)) \<and> closed lf = [] \<and> lastRoll lf = now"
  using assms by (simp add: new_log_file_def rollFile_def Let_def rolled_at_def logged_text_def log_files_def open_file_def)

text \<open>Replacing the current file by one with the same name.\<close>
lemma rolled_at_handle:
  "rolled_at name ts lf \<Longrightarrow> handle lf = Some f \<Longrightarrow> path g = path f \<Longrightarrow> rolled_at name ts (lf\<lparr>handle := Some g\<rparr>)"
  by (simp add: rolled_at_def log_files_def)

lemma rolled_at_other: "rolled_at name ts (lf\<lparr>lf_count := k\<rparr>) = rolled_at name ts lf" "rolled_at name ts (lf\<lparr>lastFlush := t\<rparr>) = rolled_at name ts lf"
  by (simp_all add: rolled_at_def log_files_def)

text \<open>What an append leaves: the bytes in the current file, and then one of four endings.\<close>
lemma append_unlocked_ends:
  assumes "handle lf = Some f" "append_unlocked name now now' rs d lf = Some lf'"
  shows "let g = handle_append rs d f; l1 = lf\<lparr>handle := Some g\<rparr> in
    lf' = rollFile name now' l1 \<or> lf' = rollFile name now' (l1\<lparr>lf_count := 0\<rparr>) \<or> (\<exists>k. lf' = l1\<lparr>lf_count := k\<rparr>)
    \<or> lf' = (l1\<lparr>handle := Some (handle_flush g)\<rparr>)\<lparr>lf_count := 0\<rparr>\<lparr>lastFlush := now\<rparr>"
  using assms by (auto simp: append_unlocked_def Let_def split: if_splits)

lemma logged_text_other [simp]: "logged_text (lf\<lparr>lf_count := k\<rparr>) = logged_text lf" "logged_text (lf\<lparr>lastFlush := t\<rparr>) = logged_text lf"
  by (simp_all add: logged_text_def log_files_def)

lemma append_unlocked_rolled:
  assumes "rolled_at name ts lf"
  shows "\<exists>lf' us. append_unlocked name now now' rs d lf = Some lf' \<and> rolled_at name (ts @ us) lf' \<and> basename lf' = basename lf
    \<and> (progresses rs \<longrightarrow> logged_text lf' = logged_text lf @ d)"
proof -
  from assms obtain f where f: "handle lf = Some f" by (auto simp: rolled_at_def)
  let ?g = "handle_append rs d f"
  let ?l = "lf\<lparr>handle := Some ?g\<rparr>"
  let ?fl = "?l\<lparr>handle := Some (handle_flush ?g)\<rparr>"
  have g: "path ?g = path f" by (simp add: handle_append_keeps)
  have l: "rolled_at name ts ?l" "rolled_at name ts ?fl" using rolled_at_handle [OF assms f] g by simp_all
  have tx: "progresses rs \<Longrightarrow> logged_text ?l = logged_text lf @ d" "logged_text ?fl = logged_text ?l"
    using f by (simp_all add: logged_text_def log_files_def handle_append_stored)
  have roll: "\<exists>us. rolled_at name (ts @ us) (rollFile name now' l')" if "rolled_at name ts l'" for l'
    using rollFile_rolled [OF that, of now'] by (cases "lastRoll l' < now'") (auto intro: exI [of _ "[]"])
  have stay: "\<exists>us. rolled_at name (ts @ us) l'" if "rolled_at name ts l'" for l' using that by (intro exI [of _ "[]"]) simp
  obtain lf' where a: "append_unlocked name now now' rs d lf = Some lf'" using f by (auto simp: append_unlocked_def Let_def)
  from append_unlocked_ends [OF f a] have "\<exists>us. rolled_at name (ts @ us) lf'"
    unfolding Let_def using l roll stay by (elim disjE exE) (simp_all add: rolled_at_other)
  moreover from append_unlocked_ends [OF f a] have "basename lf' = basename lf" unfolding Let_def by auto
  moreover from append_unlocked_ends [OF f a] have "progresses rs \<Longrightarrow> logged_text lf' = logged_text lf @ d"
    unfolding Let_def using tx by (elim disjE exE) simp_all
  ultimately show ?thesis using a by blast
qed

fun call_progresses :: "file_call \<Rightarrow> bool" where
  "call_progresses (FAppend now now' rs d) = progresses rs"
| "call_progresses FFlush = True"

lemma file_step_rolled:
  assumes "rolled_at name ts lf"
  shows "\<exists>lf' us. file_step name c lf = Some lf' \<and> rolled_at name (ts @ us) lf' \<and> basename lf' = basename lf
    \<and> (call_progresses c \<longrightarrow> logged_text lf' = logged_text lf @ call_text c)"
proof (cases c)
  case (FAppend now now' rs d)
  then show ?thesis using append_unlocked_rolled [OF assms] by simp
next
  case FFlush
  from assms obtain f where f: "handle lf = Some f" by (auto simp: rolled_at_def)
  let ?l = "lf\<lparr>handle := Some (handle_flush f)\<rparr>"
  have "rolled_at name (ts @ []) ?l" using rolled_at_handle [OF assms f] by simp
  moreover have "logged_text ?l = logged_text lf" using f by (simp add: logged_text_def log_files_def)
  moreover have "file_step name c lf = Some ?l" using f FFlush by (simp add: lf_flush_def)
  ultimately show ?thesis using FFlush by (intro exI [of _ ?l] exI [of _ "[]"]) simp
qed

lemma file_steps_rolled:
  "rolled_at name ts lf \<Longrightarrow> \<exists>lf' us. file_steps name cs lf = Some lf' \<and> rolled_at name (ts @ us) lf' \<and> basename lf' = basename lf
    \<and> (list_all call_progresses cs \<longrightarrow> logged_text lf' = logged_text lf @ concat (map call_text cs))"
proof (induction cs arbitrary: lf ts)
  case Nil
  then show ?case by (auto intro: exI [of _ "[]"])
next
  case (Cons c cs)
  from file_step_rolled [OF Cons.prems, of c] obtain l1 us where l1: "file_step name c lf = Some l1" "rolled_at name (ts @ us) l1" "basename l1 = basename lf"
    "call_progresses c \<longrightarrow> logged_text l1 = logged_text lf @ call_text c" by blast
  from Cons.IH [OF l1(2)] obtain l2 vs where "file_steps name cs l1 = Some l2" "rolled_at name (ts @ us @ vs) l2" "basename l2 = basename l1"
    "list_all call_progresses cs \<longrightarrow> logged_text l2 = logged_text l1 @ concat (map call_text cs)" by auto
  then show ?case using l1 by (intro exI [of _ l2] exI [of _ "us @ vs"]) simp
qed

lemma new_log_file_base: "new_log_file name now base roll interval = Some lf \<Longrightarrow> 47 \<notin> set base"
  by (simp add: new_log_file_def split: if_splits)

section \<open>Properties\<close>

text \<open>Every byte given to the log is in its files, in order, across all rolls and flushes, when \<open>fwrite\<close> makes progress.\<close>
theorem all_bytes_logged:
  assumes "new_log_file name now base roll interval = Some lf" "0 < now" "list_all call_progresses cs"
  shows "\<exists>lf'. file_steps name cs lf = Some lf' \<and> logged_text lf' = concat (map call_text cs)"
proof -
  have "47 \<notin> set base" using assms(1) by (simp add: new_log_file_def split: if_splits)
  from new_log_file_rolled [OF assms(2) this, of name roll interval] assms(1) have "rolled_at name [now] lf" "logged_text lf = []" by auto
  with file_steps_rolled [of name "[now]" lf cs] assms(3) show ?thesis by auto
qed

theorem all_bytes_logged_witness:
  "\<exists>lf'. file_steps (\<lambda>b t. b @ digits (nat t)) [FAppend 8 8 [2, 1] [65, 66, 67, 68], FFlush, FAppend 9 9 [] [69]]
     (the (new_log_file (\<lambda>b t. b @ digits (nat t)) 7 [76] 2 3)) = Some lf' \<and> logged_text lf' = [65, 66, 67, 68, 69]"
  using all_bytes_logged [of "\<lambda>b t. b @ digits (nat t)" 7 "[76]" 2 3 "the (new_log_file (\<lambda>b t. b @ digits (nat t)) 7 [76] 2 3)"
    "[FAppend 8 8 [2, 1] [65, 66, 67, 68], FFlush, FAppend 9 9 [] [69]]"]
  by (simp add: new_log_file_def progresses_def)

text \<open>The names of the files of a log are those of strictly increasing times, the last that of the last roll: no file is opened twice, also when the clock
  stands still or goes back.\<close>
theorem files_named_in_order:
  assumes "new_log_file name now base roll interval = Some lf" "0 < now" "file_steps name cs lf = Some lf'" "inj_on (name base) {0<..}"
  shows "\<exists>ts. sorted_wrt (<) ts \<and> last ts = lastRoll lf' \<and> map path (log_files lf') = map (name base) ts \<and> distinct (map path (log_files lf'))"
proof -
  have "47 \<notin> set base" using assms(1) by (simp add: new_log_file_def split: if_splits)
  from new_log_file_rolled [OF assms(2) this, of name roll interval] assms(1) have i: "rolled_at name [now] lf" "basename lf = base" by auto
  from file_steps_rolled [OF i(1), of cs] assms(3) i(2) obtain ts where ts: "rolled_at name ts lf'" "basename lf' = base" by auto
  then have "sorted_wrt (<) ts" "last ts = lastRoll lf'" "map path (log_files lf') = map (name base) ts" by (simp_all add: rolled_at_def)
  moreover have "distinct (map (name base) ts)"
  proof -
    have "set ts \<subseteq> {0<..}" using ts(1) by (cases ts) (auto simp: rolled_at_def)
    then show ?thesis using calculation(1) inj_on_subset [OF assms(4)] by (simp add: distinct_map strict_sorted_iff)
  qed
  ultimately show ?thesis by auto
qed

definition plain_name :: naming where
  "plain_name base now = base @ digits (nat now)"

lemma plain_name_inj: "inj_on (plain_name base) {0<..}"
  by (auto simp: inj_on_def plain_name_def digits_inj)

theorem files_named_in_order_witness:
  "let lf = the (file_steps plain_name [FAppend 8 8 [] [65, 66, 67], FAppend 9 7 [] [65, 66, 67]] (the (new_log_file plain_name 7 [76] 2 3)))
   in distinct (map path (log_files lf)) \<and> map stored (log_files lf) = [[65, 66, 67], [65, 66, 67]]"
proof -
  let ?lf = "new_log_file plain_name 7 [76] 2 3"
  let ?cs = "[FAppend 8 8 [] [65, 66, 67], FAppend 9 7 [] [65, 66, 67]]"
  have "\<not> Option.is_none ?lf" "\<not> Option.is_none (file_steps plain_name ?cs (the ?lf))" by code_simp+
  then have s: "?lf = Some (the ?lf)" "file_steps plain_name ?cs (the ?lf) = Some (the (file_steps plain_name ?cs (the ?lf)))"
    unfolding Option.is_none_def by simp_all
  have "map stored (log_files (the (file_steps plain_name ?cs (the ?lf)))) = [[65, 66, 67], [65, 66, 67]]" by code_simp
  with files_named_in_order [OF s(1) _ s(2) plain_name_inj] show ?thesis by auto
qed

text \<open>When the clock has moved on since the last roll, the current file has at most \<open>rollSize\<close> bytes after every append: a line that makes it larger
  is the last of its file.\<close>
theorem rolled_when_large:
  assumes "handle lf = Some f" "append_unlocked name now now' rs d lf = Some lf'" "lastRoll lf < now'"
  shows "\<exists>g. handle lf' = Some g \<and> writtenBytes g \<le> rollSize lf'
    \<and> (rollSize lf < writtenBytes f + length d \<longrightarrow> g = open_file (name (basename lf) now') \<and> lastRoll lf' = now' \<and> length (closed lf') = length (closed lf) + 1)"
proof (cases "rollSize lf < writtenBytes f + length d")
  case True
  then have "lf' = rollFile name now' (lf\<lparr>handle := Some (handle_append rs d f)\<rparr>)"
    using assms(1,2) handle_append_keeps [of rs d f] by (simp add: append_unlocked_def Let_def)
  then show ?thesis using assms(3) by (simp add: rollFile_def Let_def open_file_def)
next
  case False
  have w: "writtenBytes (handle_append rs d f) \<le> rollSize lf" using False handle_append_keeps [of rs d f] by simp
  let ?l = "lf\<lparr>handle := Some (handle_append rs d f)\<rparr>"
  have roll: "\<exists>g. handle (rollFile name now' l) = Some g \<and> writtenBytes g \<le> rollSize (rollFile name now' l)" if "lastRoll l = lastRoll lf" for l
    using that assms(3) by (simp add: rollFile_def Let_def open_file_def)
  from append_unlocked_ends [OF assms(1,2)] show ?thesis
    unfolding Let_def using roll [of ?l] roll [of "?l\<lparr>lf_count := 0\<rparr>"] False w by (elim disjE exE) simp_all
qed

theorem rolled_when_large_witness:
  "\<exists>g. handle (the (append_unlocked plain_name 8 9 [] [65, 66, 67] (the (new_log_file plain_name 7 [76] 2 3)))) = Some g \<and> writtenBytes g = 0"
proof -
  let ?lf = "the (new_log_file plain_name 7 [76] 2 3)"
  have h: "handle ?lf = Some (open_file (plain_name [76] 7))" by (simp add: new_log_file_def rollFile_def Let_def)
  obtain l where l: "append_unlocked plain_name 8 9 [] [65, 66, 67] ?lf = Some l" using h by (simp add: append_unlocked_def Let_def)
  from rolled_when_large [OF h l] show ?thesis
    using l by (auto simp: new_log_file_def rollFile_def Let_def open_file_def)
qed

lemma quiet_append:
  assumes "handle lf = Some f" "writtenBytes f + length d \<le> rollSize lf" "lf_count lf \<le> kCheckTimeRoll"
  shows "\<exists>g. append_unlocked name now now' rs d lf = Some (lf\<lparr>handle := Some g, lf_count := lf_count lf + 1\<rparr>) \<and> path g = path f
    \<and> flushed g = flushed f \<and> writtenBytes g = writtenBytes f + length d"
  using assms handle_append_keeps [of rs d f] by (intro exI [of _ "handle_append rs d f"]) (simp add: append_unlocked_def Let_def)

text \<open>Up to 1025 appends in a row look at no clock: however many days they take, the log neither flushes nor begins the file of the new day, as long as the
  file is not too large.\<close>
theorem quiet_for_a_thousand:
  assumes "handle lf = Some f" "writtenBytes f + length (concat (map call_text cs)) \<le> rollSize lf" "lf_count lf + length cs \<le> 1025"
    "list_all (\<lambda>c. \<exists>now now' rs d. c = FAppend now now' rs d) cs"
  shows "\<exists>lf' g. file_steps name cs lf = Some lf' \<and> handle lf' = Some g \<and> path g = path f \<and> flushed g = flushed f \<and> closed lf' = closed lf
    \<and> lastFlush lf' = lastFlush lf"
  using assms
proof (induction cs arbitrary: lf f)
  case (Cons c cs)
  then obtain now now' rs d where c: "c = FAppend now now' rs d" by auto
  have s: "writtenBytes f + length d \<le> rollSize lf" "lf_count lf \<le> kCheckTimeRoll" using Cons.prems(2,3) c by (simp_all add: kCheckTimeRoll_def)
  from quiet_append [OF Cons.prems(1) s] obtain g where g: "append_unlocked name now now' rs d lf = Some (lf\<lparr>handle := Some g, lf_count := lf_count lf + 1\<rparr>)"
    "path g = path f" "flushed g = flushed f" "writtenBytes g = writtenBytes f + length d" by blast
  have "handle (lf\<lparr>handle := Some g, lf_count := lf_count lf + 1\<rparr>) = Some g" by simp
  from Cons.IH [OF this] show ?case using Cons.prems g c by (simp add: add.assoc)
qed simp

theorem quiet_for_a_thousand_witness:
  "\<exists>lf' g. file_steps plain_name (replicate 1025 (FAppend 864000 864000 [] [65])) (the (new_log_file plain_name 7 [76] 2000 3)) = Some lf'
     \<and> handle lf' = Some g \<and> flushed g = 0 \<and> closed lf' = []"
proof -
  let ?lf = "the (new_log_file plain_name 7 [76] 2000 3)"
  have h: "handle ?lf = Some (open_file (plain_name [76] 7))" "rollSize ?lf = 2000" "lf_count ?lf = 0" "closed ?lf = []"
    by (simp_all add: new_log_file_def rollFile_def Let_def)
  have t: "concat (map call_text (replicate k (FAppend 864000 864000 [] [65]))) = replicate k 65" for k
    by (induction k) simp_all
  from quiet_for_a_thousand [OF h(1), of "replicate 1025 (FAppend 864000 864000 [] [65])" plain_name] show ?thesis
    unfolding t by (auto simp: h open_file_def list_all_iff)
qed

text \<open>When \<open>fwrite\<close> stops making progress, the rest of the line is lost, but counted as written.\<close>
theorem failed_write_counted:
  "handle_append (n # 0 # rs) d f = f\<lparr>stored := stored f @ take n d, writtenBytes := writtenBytes f + length d\<rparr>"
  by (cases "n < length d") (simp_all add: handle_append_def handle_write_def fwrite_result_def write_rest.simps min_def)

section \<open>The writing thread and its file\<close>

text \<open>The calls that the writing thread makes for the texts that it writes, with a flush in between wherever it likes.\<close>

definition writes_texts :: "byte list list \<Rightarrow> file_call list \<Rightarrow> bool" where
  "writes_texts ts cs \<longleftrightarrow> map call_text (filter (\<lambda>c. c \<noteq> FFlush) cs) = ts"

lemma writes_texts_concat: "writes_texts ts cs \<Longrightarrow> concat (map call_text cs) = concat ts"
  unfolding writes_texts_def by (induction cs arbitrary: ts) (auto split: if_splits)



end
